(* ===== verification/Prelude.thy ===== *)
theory Prelude
  imports Main "HOL-Library.Word" "HOL-Library.Finite_Map"
begin

text \<open>
  What every component of the development shares: the machine integers of the node (the
  32-byte identifiers are \<open>256 word\<close>, an \<open>Amount\<close> is a \<open>128 word\<close>), Rust's
  \<open>unwrap_or\<close> family on options, the byte order conversions \<open>to_be_bytes\<close>,
  \<open>to_le_bytes\<close> and their inverses, and sums over the values of a database table, which
  the balance and weight proofs rest on.
\<close>

named_theorems codec_simps \<open>round trips of the byte encodings\<close>
named_theorems table_simps \<open>lookups after a table update\<close>

section \<open>Types\<close>

type_synonym byte = "8 word"
type_synonym u16 = "16 word"
type_synonym u32 = "32 word"
type_synonym u64 = "64 word"
type_synonym u128 = "128 word"
type_synonym u256 = "256 word"

type_synonym account = u256
type_synonym public_key = u256
type_synonym block_hash = u256
type_synonym link = u256
type_synonym root = u256
type_synonym signature = "512 word"

section \<open>Options\<close>

definition unwrap_or :: "'a option \<Rightarrow> 'a \<Rightarrow> 'a" where
  "unwrap_or opt d = (case opt of None \<Rightarrow> d | Some x \<Rightarrow> x)"

lemma unwrap_or_simps [simp]:
  "unwrap_or None d = d"
  "unwrap_or (Some x) d = x"
  by (simp_all add: unwrap_or_def)

lemma unwrap_or_map_option [simp]:
  "unwrap_or (map_option f opt) (f d) = f (unwrap_or opt d)"
  by (cases opt) simp_all

section \<open>Results\<close>

text \<open>
  A Rust \<open>Result\<close> is a sum with the error on the left; \<open>and_then\<close> is the question mark
  operator: it stops at the first error.
\<close>

fun and_then :: "'e + 'a \<Rightarrow> ('a \<Rightarrow> 'e + 'b) \<Rightarrow> 'e + 'b" where
  "and_then (Inl e) f = Inl e"
| "and_then (Inr x) f = f x"

lemma and_then_eq_Inr [simp]:
  "and_then r f = Inr y \<longleftrightarrow> (\<exists>x. r = Inr x \<and> f x = Inr y)"
  by (cases r) auto

lemma and_then_eq_Inl:
  "and_then r f = Inl e \<longleftrightarrow> r = Inl e \<or> (\<exists>x. r = Inr x \<and> f x = Inl e)"
  by (cases r) auto

definition ensure :: "bool \<Rightarrow> 'e \<Rightarrow> 'e + unit" where
  "ensure ok e = (if ok then Inr () else Inl e)"

lemma ensure_eq_Inr [simp]: "ensure ok e = Inr u \<longleftrightarrow> ok"
  by (simp add: ensure_def)

lemma ensure_eq_Inl [simp]: "ensure ok e = Inl e' \<longleftrightarrow> \<not> ok \<and> e' = e"
  by (auto simp: ensure_def)

text \<open>A sequence of checks, each followed by a question mark.\<close>

fun check_all :: "('e + unit) list \<Rightarrow> 'e + unit" where
  "check_all [] = Inr ()"
| "check_all (r # rs) = and_then r (\<lambda>_. check_all rs)"

lemma check_all_eq_Inr [simp]: "check_all rs = Inr u \<longleftrightarrow> (\<forall>r\<in>set rs. r = Inr ())"
  by (induction rs) auto

text \<open>The error of a sequence is the one of the first check that fails.\<close>

lemma check_all_eq_Inl:
  "check_all rs = Inl e \<longleftrightarrow> (\<exists>i<length rs. rs ! i = Inl e \<and> (\<forall>j<i. rs ! j = Inr ()))"
proof (induction rs)
  case (Cons r rs)
  show ?case
  proof (cases r)
    case (Inl e')
    then show ?thesis
      by (auto simp: Ex_less_Suc2)
  next
    case (Inr u)
    then show ?thesis
      using Cons by (auto simp: Ex_less_Suc2 All_less_Suc2)
  qed
qed simp

section \<open>Byte order\<close>

fun nat_to_le :: "nat \<Rightarrow> nat \<Rightarrow> byte list" where
  "nat_to_le 0 x = []"
| "nat_to_le (Suc n) x = word_of_nat (x mod 256) # nat_to_le n (x div 256)"

fun nat_of_le :: "byte list \<Rightarrow> nat" where
  "nat_of_le [] = 0"
| "nat_of_le (b # bs) = unat b + 256 * nat_of_le bs"

definition to_le_bytes :: "nat \<Rightarrow> 'a::len word \<Rightarrow> byte list" where
  "to_le_bytes n w = nat_to_le n (unat w)"

definition to_be_bytes :: "nat \<Rightarrow> 'a::len word \<Rightarrow> byte list" where
  "to_be_bytes n w = rev (to_le_bytes n w)"

definition from_le_bytes :: "byte list \<Rightarrow> 'a::len word" where
  "from_le_bytes bs = word_of_nat (nat_of_le bs)"

definition from_be_bytes :: "byte list \<Rightarrow> 'a::len word" where
  "from_be_bytes bs = from_le_bytes (rev bs)"

lemma length_nat_to_le [simp]: "length (nat_to_le n x) = n"
  by (induction n arbitrary: x) simp_all

lemma length_to_bytes [simp]:
  "length (to_le_bytes n w) = n"
  "length (to_be_bytes n w) = n"
  by (simp_all add: to_le_bytes_def to_be_bytes_def)

lemma unat_byte_of_mod [simp]: "unat (word_of_nat (x mod 256) :: byte) = x mod 256"
  by (simp add: unat_of_nat)

lemma nat_of_to_le: "nat_of_le (nat_to_le n x) = x mod 256 ^ n"
proof (induction n arbitrary: x)
  case 0
  then show ?case by simp
next
  case (Suc n)
  have "x mod 256 ^ Suc n = x mod 256 + 256 * (x div 256 mod 256 ^ n)"
    by (simp add: mod_mult2_eq)
  then show ?case
    using Suc.IH [of "x div 256"] by (simp del: power_Suc)
qed

lemma nat_to_of_le: "nat_to_le (length bs) (nat_of_le bs) = bs"
proof (induction bs)
  case Nil
  then show ?case by simp
next
  case (Cons b bs)
  have b: "unat b < 256"
    using unsigned_less [of b] by simp
  then have "(unat b + 256 * nat_of_le bs) div 256 = nat_of_le bs"
    and "(unat b + 256 * nat_of_le bs) mod 256 = unat b"
    by simp_all
  with Cons.IH show ?case by simp
qed

lemma nat_of_le_bound: "nat_of_le bs < 256 ^ length bs"
  using nat_of_to_le [of "length bs" "nat_of_le bs"]
  by (metis mod_less_divisor nat_to_of_le zero_less_numeral zero_less_power)

lemma from_to_le_bytes [simp]:
  fixes w :: "'a::len word"
  assumes "LENGTH('a) = 8 * n"
  shows "from_le_bytes (to_le_bytes n w) = w"
proof -
  have "unat w < 256 ^ n"
    using unsigned_less [of w] assms by (simp add: power_mult)
  then show ?thesis
    by (simp add: from_le_bytes_def to_le_bytes_def nat_of_to_le)
qed

lemma from_to_be_bytes [simp]:
  fixes w :: "'a::len word"
  assumes "LENGTH('a) = 8 * n"
  shows "from_be_bytes (to_be_bytes n w) = w"
  using assms by (simp add: from_be_bytes_def to_be_bytes_def)

lemma to_from_le_bytes:
  assumes "LENGTH('a::len) = 8 * length bs"
  shows "to_le_bytes (length bs) (from_le_bytes bs :: 'a word) = bs"
proof -
  have "nat_of_le bs < 2 ^ LENGTH('a)"
    using nat_of_le_bound [of bs] assms by (simp add: power_mult)
  then show ?thesis
    by (simp add: from_le_bytes_def to_le_bytes_def unat_of_nat nat_to_of_le)
qed

lemma to_from_be_bytes:
  assumes "LENGTH('a::len) = 8 * length bs"
  shows "to_be_bytes (length bs) (from_be_bytes bs :: 'a word) = bs"
  using to_from_le_bytes [where 'a='a, of "rev bs"] assms
  by (simp add: from_be_bytes_def to_be_bytes_def)

section \<open>Tables\<close>

lemma fmupd_fmdrop [simp]: "fmupd k v (fmdrop k m) = fmupd k v m"
  by (rule fmap_ext) simp

lemma fmupd_fmupd [simp]: "fmupd k v (fmupd k v' m) = fmupd k v m"
  by (rule fmap_ext) simp

lemma fmdrop_fmupd_same [simp]: "fmdrop k (fmupd k v m) = fmdrop k m"
  by (rule fmap_ext) simp

lemma fmdrop_absent: "fmlookup m k = None \<Longrightarrow> fmdrop k m = m"
  by (rule fmap_ext) auto

lemma fmupd_present: "fmlookup m k = Some v \<Longrightarrow> fmupd k v m = m"
  by (rule fmap_ext) auto

lemma fmupd_commute: "k \<noteq> k' \<Longrightarrow> fmupd k v (fmupd k' v' m) = fmupd k' v' (fmupd k v m)"
  by (rule fmap_ext) auto

section \<open>Sums over the entries of a table\<close>

definition table_sum :: "('k \<Rightarrow> 'v \<Rightarrow> 'a::comm_monoid_add) \<Rightarrow> ('k, 'v) fmap \<Rightarrow> 'a" where
  "table_sum f m = (\<Sum>k\<in>fset (fmdom m). f k (the (fmlookup m k)))"

lemma table_sum_empty [simp]: "table_sum f fmempty = 0"
  by (simp add: table_sum_def)

lemma table_sum_insert:
  assumes "fmlookup m k = None"
  shows "table_sum f (fmupd k v m) = f k v + table_sum f m"
proof -
  have k: "k \<notin> fset (fmdom m)"
    using assms by (simp add: fmdom_notI)
  have "(\<Sum>j\<in>fset (fmdom m). f j (the (fmlookup (fmupd k v m) j)))
      = (\<Sum>j\<in>fset (fmdom m). f j (the (fmlookup m j)))"
    using k by (intro sum.cong) auto
  with k show ?thesis
    by (simp add: table_sum_def)
qed

lemma table_sum_remove:
  assumes "fmlookup m k = Some v"
  shows "table_sum f m = f k v + table_sum f (fmdrop k m)"
proof -
  have m: "m = fmupd k v (fmdrop k m)"
    using assms by (simp add: fmupd_present)
  have "fmlookup (fmdrop k m) k = None"
    by simp
  from table_sum_insert [OF this, of f v] show ?thesis
    by (subst m) simp
qed

lemma table_sum_update:
  assumes "fmlookup m k = Some v0"
  shows "f k v0 + table_sum f (fmupd k v m) = f k v + table_sum f m"
proof -
  have "fmlookup (fmdrop k m) k = None"
    by simp
  from table_sum_insert [OF this, of f v]
  have "table_sum f (fmupd k v m) = f k v + table_sum f (fmdrop k m)"
    by simp
  with table_sum_remove [OF assms, of f] show ?thesis
    by (simp add: ac_simps)
qed

lemma table_sum_entry_le:
  fixes f :: "'k \<Rightarrow> 'v \<Rightarrow> nat"
  assumes "fmlookup m k = Some v"
  shows "f k v \<le> table_sum f m"
  using table_sum_remove [OF assms, of f] by simp

lemma table_sum_mono:
  fixes f g :: "'k \<Rightarrow> 'v \<Rightarrow> nat"
  assumes "\<And>k v. fmlookup m k = Some v \<Longrightarrow> f k v \<le> g k v"
  shows "table_sum f m \<le> table_sum g m"
  unfolding table_sum_def
proof (rule sum_mono)
  fix k
  assume "k \<in> fset (fmdom m)"
  then obtain v where "fmlookup m k = Some v"
    by (auto simp: fmlookup_dom_iff)
  then show "f k (the (fmlookup m k)) \<le> g k (the (fmlookup m k))"
    using assms by simp
qed

lemma table_sum_cong:
  assumes "\<And>k v. fmlookup m k = Some v \<Longrightarrow> f k v = g k v"
  shows "table_sum f m = table_sum g m"
  unfolding table_sum_def
proof (rule sum.cong)
  fix k
  assume "k \<in> fset (fmdom m)"
  then show "f k (the (fmlookup m k)) = g k (the (fmlookup m k))"
    using assms by (auto simp: fmlookup_dom_iff)
qed simp

lemma word_of_nat_table_sum:
  "(word_of_nat (table_sum f m) :: 'w::len word) = table_sum (\<lambda>k v. word_of_nat (f k v)) m"
  by (simp add: table_sum_def)

end
