(* ===== verification/Ordered_Maps.thy ===== *)
theory Ordered_Maps
  imports Prelude
begin

text \<open>
  Maps with ordered keys. An LMDB table and a \<open>BTreeMap\<close> are both a finite map whose
  traversal is in key order: the sorted list of its entries, the part of it that a range
  starting at a key visits, and its first entry.
\<close>

text \<open>\<open>MDB_SET_RANGE\<close>: the entries from the first key that is not below \<open>k\<close>.\<close>

definition entries_from :: "'k::linorder \<Rightarrow> ('k, 'v) fmap \<Rightarrow> ('k \<times> 'v) list" where
  "entries_from k m = dropWhile (\<lambda>(k', _). k' < k) (sorted_list_of_fmap m)"

lemma set_sorted_list_of_fmap: "(k, v) \<in> set (sorted_list_of_fmap m) \<longleftrightarrow> fmlookup m k = Some v"
  by (auto simp: sorted_list_of_fmap_def fmlookup_dom_iff image_iff)

lemma sorted_sorted_list_of_fmap: "sorted (map fst (sorted_list_of_fmap m))"
  by (simp add: sorted_list_of_fmap_def comp_def sorted_list_of_fset.rep_eq)

lemma distinct_sorted_list_of_fmap: "distinct (map fst (sorted_list_of_fmap m))"
  by (simp add: sorted_list_of_fmap_def comp_def sorted_list_of_fset.rep_eq)

lemma dropWhile_below:
  assumes "sorted (map fst xs)"
  shows "dropWhile (\<lambda>(k', _). k' < k) xs = filter (\<lambda>(k', _). k \<le> k') xs"
  using assms
proof (induction xs)
  case (Cons x xs)
  obtain k' v where x: "x = (k', v)"
    by (cases x)
  show ?case
  proof (cases "k' < k")
    case True
    then show ?thesis
      using Cons x by auto
  next
    case False
    then have "\<forall>y\<in>set xs. k \<le> fst y"
      using Cons.prems x by (auto intro: order_trans)
    then have "filter (\<lambda>(k', _). k \<le> k') xs = xs"
      by (auto simp: filter_id_conv)
    with False show ?thesis
      by (simp add: x)
  qed
qed simp

lemma entries_from_filter: "entries_from k m = filter (\<lambda>(k', _). k \<le> k') (sorted_list_of_fmap m)"
  by (simp add: entries_from_def dropWhile_below sorted_sorted_list_of_fmap)

lemma set_entries_from: "(k', v) \<in> set (entries_from k m) \<longleftrightarrow> fmlookup m k' = Some v \<and> k \<le> k'"
  by (auto simp: entries_from_filter set_sorted_list_of_fmap)

lemma sorted_entries_from: "sorted (map fst (entries_from k m))"
  unfolding entries_from_filter
  by (rule sorted_filter) (rule sorted_sorted_list_of_fmap)

lemma distinct_entries_from: "distinct (map fst (entries_from k m))"
  unfolding entries_from_filter
  by (rule distinct_map_filter) (rule distinct_sorted_list_of_fmap)

text \<open>The first entry of a range is the least key that is not below its start.\<close>

lemma entries_from_Nil: "entries_from k m = [] \<longleftrightarrow> (\<forall>k'. k \<le> k' \<longrightarrow> fmlookup m k' = None)"
proof -
  have "entries_from k m = [] \<longleftrightarrow> (\<forall>k' v. (k', v) \<notin> set (entries_from k m))"
    by (metis list.set_intros(1) neq_Nil_conv surj_pair set_empty2 empty_iff)
  then show ?thesis
    by (metis not_Some_eq set_entries_from)
qed

lemma entries_from_ConsD:
  assumes "entries_from k m = (k', v) # rest"
  shows "fmlookup m k' = Some v" "k \<le> k'" "\<And>j. k \<le> j \<Longrightarrow> fmlookup m j \<noteq> None \<Longrightarrow> k' \<le> j"
proof -
  show "fmlookup m k' = Some v" "k \<le> k'"
    using set_entries_from [of k' v k m] assms by auto
  show "k' \<le> j" if "k \<le> j" "fmlookup m j \<noteq> None" for j
  proof -
    from that obtain w where "(j, w) \<in> set (entries_from k m)"
      by (auto simp: set_entries_from)
    then show ?thesis
      using sorted_entries_from [of k m] assms by auto
  qed
qed

text \<open>The entries after the first one are those with a greater key.\<close>

lemma entries_from_rest:
  assumes "entries_from k m = (a, v) # rest"
  shows "rest = filter (\<lambda>(k', _). a < k') (sorted_list_of_fmap m)"
proof -
  have "filter (\<lambda>(k', _). a < k') (sorted_list_of_fmap m) = filter (\<lambda>(k', _). a < k') (entries_from k m)"
    unfolding entries_from_filter filter_filter
    using entries_from_ConsD(2) [OF assms] by (intro filter_cong) auto
  also have "\<dots> = rest"
    using sorted_entries_from [of k m] distinct_entries_from [of k m]
    by (force simp: assms filter_id_conv order.strict_iff_order)
  finally show ?thesis ..
qed

text \<open>The traversal is the only sorted list with the entries of the map.\<close>

lemma sorted_list_of_fmap_unique:
  assumes "sorted (map fst xs)" "distinct (map fst xs)" "\<And>k v. (k, v) \<in> set xs \<longleftrightarrow> fmlookup m k = Some v"
  shows "sorted_list_of_fmap m = xs"
proof -
  have canon: "ys = map (\<lambda>k. (k, the (fmlookup m k))) (map fst ys)"
    if "\<And>k v. (k, v) \<in> set ys \<Longrightarrow> fmlookup m k = Some v" for ys
  proof -
    have "map ((\<lambda>k. (k, the (fmlookup m k))) \<circ> fst) ys = ys"
      by (rule map_idI) (use that in force)
    then show ?thesis
      by simp
  qed
  have "fst ` set xs = fst ` set (sorted_list_of_fmap m)"
    using assms(3) set_sorted_list_of_fmap [of _ _ m] by (force simp: image_iff)
  then have "map fst (sorted_list_of_fmap m) = map fst xs"
    by (intro sorted_distinct_set_unique)
      (simp_all add: assms(1,2) sorted_sorted_list_of_fmap distinct_sorted_list_of_fmap)
  moreover have "xs = map (\<lambda>k. (k, the (fmlookup m k))) (map fst xs)"
    by (rule canon) (simp add: assms(3))
  moreover have "sorted_list_of_fmap m = map (\<lambda>k. (k, the (fmlookup m k))) (map fst (sorted_list_of_fmap m))"
    by (rule canon) (simp add: set_sorted_list_of_fmap)
  ultimately show ?thesis
    by metis
qed

lemma sorted_list_of_fmap_drop:
  "sorted_list_of_fmap (fmdrop i m) = filter (\<lambda>e. fst e \<noteq> i) (sorted_list_of_fmap m)"
  by (rule sorted_list_of_fmap_unique)
    (auto simp: set_sorted_list_of_fmap sorted_filter sorted_sorted_list_of_fmap distinct_sorted_list_of_fmap
      distinct_map_filter)

lemma sorted_list_of_fmap_snoc:
  assumes "\<And>k. fmlookup m k \<noteq> None \<Longrightarrow> k < i"
  shows "sorted_list_of_fmap (fmupd i v m) = sorted_list_of_fmap m @ [(i, v)]"
proof (rule sorted_list_of_fmap_unique)
  have lt: "fst e < i" if "e \<in> set (sorted_list_of_fmap m)" for e
    using assms that by (cases e) (auto simp: set_sorted_list_of_fmap)
  show "sorted (map fst (sorted_list_of_fmap m @ [(i, v)]))"
    using lt sorted_sorted_list_of_fmap [of m] by (auto simp: sorted_append intro: less_imp_le)
  show "distinct (map fst (sorted_list_of_fmap m @ [(i, v)]))"
    using lt distinct_sorted_list_of_fmap [of m] by auto
  show "(k, w) \<in> set (sorted_list_of_fmap m @ [(i, v)]) \<longleftrightarrow> fmlookup (fmupd i v m) k = Some w" for k w
    using assms [of k] by (auto simp: set_sorted_list_of_fmap)
qed

section \<open>Sorted lists\<close>

lemma dropWhile_eq_filter:
  "sorted (map f xs) \<Longrightarrow> \<forall>x\<in>set xs. a \<le> f x \<Longrightarrow> dropWhile (\<lambda>x. f x = a) xs = filter (\<lambda>x. a < (f x :: 'k::linorder)) xs"
proof (induction xs)
  case (Cons x xs)
  show ?case
  proof (cases "f x = a")
    case False
    then have "a < f x"
      using Cons.prems(2) by (simp add: order.strict_iff_order)
    then have "\<forall>y\<in>set (x # xs). a < f y"
      using Cons.prems(1) by (auto intro: less_le_trans)
    then have "filter (\<lambda>x. a < f x) (x # xs) = x # xs"
      by simp
    with False show ?thesis
      by simp
  qed (use Cons in simp)
qed simp

lemma takeWhile_eq_filter:
  "sorted (map f xs) \<Longrightarrow> \<forall>x\<in>set xs. a \<le> f x \<Longrightarrow> takeWhile (\<lambda>x. f x = a) xs = filter (\<lambda>x. (f x :: 'k::linorder) = a) xs"
proof (induction xs)
  case (Cons x xs)
  show ?case
  proof (cases "f x = a")
    case False
    then have "a < f x"
      using Cons.prems(2) by (simp add: order.strict_iff_order)
    then have "\<forall>y\<in>set (x # xs). f y \<noteq> a"
      using Cons.prems(1) by auto
    then have "filter (\<lambda>x. f x = a) (x # xs) = []"
      by (simp add: filter_empty_conv)
    with False show ?thesis
      by simp
  qed (use Cons in simp)
qed simp

end
