(* ===== verification/Byte_Stream.thy ===== *)
theory Byte_Stream
  imports Prelude
begin

text \<open>
  The byte streams of \<open>core/src/utils/stream.rs\<close>: \<open>MemoryStream\<close> with its read index,
  \<open>BufferReader\<close>, and \<open>MutStreamAdapter\<close>, the writer over a buffer of fixed length.
  Every decoder of the node reads through \<open>read_u8\<close> and \<open>read_bytes\<close>, so a decoder is
  modelled as a parser on the bytes that remain; \<open>memory_read_bytes_remaining\<close> relates the
  two views. The locale \<open>codec\<close> is the interface between a type and its clients: what was
  written is read back, and the bytes that follow are left alone.
\<close>

datatype parse_error =
    NoMoreBytes
  | NotEnoughBytes
  | InvalidBlockType
  | UnknownEpoch
  | InvalidEpoch
  | UnknownNetwork
  | UnknownMessageType
  | InvalidPayload

section \<open>Memory streams\<close>

record memory_stream =
  ms_bytes :: "byte list"
  ms_read_index :: nat

definition memory_stream_new :: memory_stream where
  "memory_stream_new = \<lparr>ms_bytes = [], ms_read_index = 0\<rparr>"

definition bytes_written :: "memory_stream \<Rightarrow> nat" where
  "bytes_written s = length (ms_bytes s)"

definition at_end :: "memory_stream \<Rightarrow> bool" where
  "at_end s \<longleftrightarrow> length (ms_bytes s) - ms_read_index s = 0"

definition write_bytes_safe :: "memory_stream \<Rightarrow> byte list \<Rightarrow> memory_stream" where
  "write_bytes_safe s bs = s\<lparr>ms_bytes := ms_bytes s @ bs\<rparr>"

definition write_u8_safe :: "memory_stream \<Rightarrow> byte \<Rightarrow> memory_stream" where
  "write_u8_safe s b = s\<lparr>ms_bytes := ms_bytes s @ [b]\<rparr>"

definition memory_read_u8 :: "memory_stream \<Rightarrow> parse_error + byte \<times> memory_stream" where
  "memory_read_u8 s =
     (if ms_read_index s \<ge> length (ms_bytes s) then Inl NoMoreBytes
      else Inr (ms_bytes s ! ms_read_index s, s\<lparr>ms_read_index := ms_read_index s + 1\<rparr>))"

definition memory_read_bytes ::
  "memory_stream \<Rightarrow> nat \<Rightarrow> parse_error + byte list \<times> memory_stream" where
  "memory_read_bytes s len =
     (if ms_read_index s + len > length (ms_bytes s) then Inl NotEnoughBytes
      else Inr (take len (drop (ms_read_index s) (ms_bytes s)),
                s\<lparr>ms_read_index := ms_read_index s + len\<rparr>))"

definition in_avail :: "memory_stream \<Rightarrow> nat" where
  "in_avail s = length (ms_bytes s) - ms_read_index s"

text \<open>The bytes not read yet (\<open>BufferReader::remaining\<close>).\<close>

definition remaining :: "memory_stream \<Rightarrow> byte list" where
  "remaining s = drop (ms_read_index s) (ms_bytes s)"

definition stream_ok :: "memory_stream \<Rightarrow> bool" where
  "stream_ok s \<longleftrightarrow> ms_read_index s \<le> length (ms_bytes s)"

section \<open>Parsers\<close>

type_synonym 'a parser = "byte list \<Rightarrow> parse_error + 'a \<times> byte list"

fun read_u8 :: "byte parser" where
  "read_u8 [] = Inl NoMoreBytes"
| "read_u8 (b # bs) = Inr (b, bs)"

definition read_bytes :: "nat \<Rightarrow> byte list parser" where
  "read_bytes len bs =
     (if length bs < len then Inl NotEnoughBytes else Inr (take len bs, drop len bs))"

definition preturn :: "'a \<Rightarrow> 'a parser" where
  "preturn x bs = Inr (x, bs)"

definition pbind :: "'a parser \<Rightarrow> ('a \<Rightarrow> 'b parser) \<Rightarrow> 'b parser" where
  "pbind p f bs = and_then (p bs) (\<lambda>(x, rest). f x rest)"

definition pfail :: "parse_error \<Rightarrow> 'a parser" where
  "pfail e bs = Inl e"

text \<open>\<open>ok_or_else\<close>: an absent value becomes a parse error.\<close>

definition pok_or :: "'a option \<Rightarrow> parse_error \<Rightarrow> 'a parser" where
  "pok_or x e = (case x of None \<Rightarrow> pfail e | Some y \<Rightarrow> preturn y)"

definition read_word_be :: "nat \<Rightarrow> 'a::len word parser" where
  "read_word_be n = pbind (read_bytes n) (\<lambda>bs. preturn (from_be_bytes bs))"

definition read_word_le :: "nat \<Rightarrow> 'a::len word parser" where
  "read_word_le n = pbind (read_bytes n) (\<lambda>bs. preturn (from_le_bytes bs))"

lemma pok_or_simps [simp]:
  "pok_or None e = pfail e"
  "pok_or (Some x) e = preturn x"
  by (simp_all add: pok_or_def)

lemma pbind_preturn [simp]: "pbind (preturn x) f = f x"
  by (rule ext) (simp add: pbind_def preturn_def)

lemma read_bytes_append [simp]:
  "length bs = n \<Longrightarrow> read_bytes n (bs @ rest) = Inr (bs, rest)"
  by (simp add: read_bytes_def)

lemma read_bytes_consumes:
  "read_bytes n bs = Inr (xs, rest) \<Longrightarrow> bs = xs @ rest \<and> length xs = n"
  by (auto simp: read_bytes_def split: if_splits)

text \<open>The record with the read index and the parser on the remaining bytes agree.\<close>

lemma memory_read_u8_remaining:
  assumes "stream_ok s"
  shows "(case memory_read_u8 s of Inl e \<Rightarrow> Inl e | Inr (b, s') \<Rightarrow> Inr (b, remaining s'))
    = read_u8 (remaining s)"
proof (cases "ms_read_index s < length (ms_bytes s)")
  case True
  then have "remaining s = ms_bytes s ! ms_read_index s # drop (Suc (ms_read_index s)) (ms_bytes s)"
    by (simp add: remaining_def Cons_nth_drop_Suc)
  with True show ?thesis
    by (simp add: memory_read_u8_def remaining_def)
next
  case False
  then show ?thesis
    by (simp add: memory_read_u8_def remaining_def)
qed

lemma memory_read_bytes_remaining:
  assumes "stream_ok s"
  shows "(case memory_read_bytes s n of Inl e \<Rightarrow> Inl e | Inr (bs, s') \<Rightarrow> Inr (bs, remaining s'))
    = read_bytes n (remaining s)"
  using assms
  by (auto simp: memory_read_bytes_def read_bytes_def remaining_def stream_ok_def add.commute)

lemma memory_read_bytes_ok:
  assumes "stream_ok s" and "memory_read_bytes s n = Inr (bs, s')"
  shows "stream_ok s' \<and> in_avail s' + n = in_avail s"
  using assms by (auto simp: memory_read_bytes_def stream_ok_def in_avail_def split: if_splits)

lemma write_then_read:
  assumes "stream_ok s"
  shows "remaining (write_bytes_safe s bs) = remaining s @ bs"
  using assms by (simp add: remaining_def write_bytes_safe_def stream_ok_def)

section \<open>The writer over a fixed buffer\<close>

record mut_stream_adapter =
  msa_bytes :: "byte list"
  msa_write_index :: nat

definition msa_new :: "byte list \<Rightarrow> mut_stream_adapter" where
  "msa_new buf = \<lparr>msa_bytes = buf, msa_write_index = 0\<rparr>"

text \<open>\<open>None\<close> is the panic "buffer full".\<close>

definition msa_write_bytes_safe ::
  "mut_stream_adapter \<Rightarrow> byte list \<Rightarrow> mut_stream_adapter option" where
  "msa_write_bytes_safe s bs =
     (if msa_write_index s + length bs > length (msa_bytes s) then None
      else Some (s\<lparr>msa_bytes := take (msa_write_index s) (msa_bytes s) @ bs
                     @ drop (msa_write_index s + length bs) (msa_bytes s),
                   msa_write_index := msa_write_index s + length bs\<rparr>))"

definition msa_written :: "mut_stream_adapter \<Rightarrow> byte list" where
  "msa_written s = take (msa_write_index s) (msa_bytes s)"

lemma msa_write_appends:
  assumes "msa_write_bytes_safe s bs = Some s'" and "msa_write_index s \<le> length (msa_bytes s)"
  shows "msa_written s' = msa_written s @ bs \<and> length (msa_bytes s') = length (msa_bytes s)"
  using assms by (auto simp: msa_write_bytes_safe_def msa_written_def split: if_splits)

lemma msa_write_new:
  assumes "length bs \<le> n"
  shows "\<exists>s'. msa_write_bytes_safe (msa_new (replicate n 0)) bs = Some s'
    \<and> msa_bytes s' = bs @ replicate (n - length bs) 0"
  using assms by (simp add: msa_write_bytes_safe_def msa_new_def)

section \<open>The codec interface\<close>

locale codec =
  fixes ser :: "'a \<Rightarrow> byte list"
    and de :: "'a parser"
  assumes de_ser: "de (ser x @ rest) = Inr (x, rest)"
begin

lemma de_ser_exact: "de (ser x) = Inr (x, [])"
  using de_ser [of x "[]"] by simp

lemma pbind_de_ser: "pbind de f (ser x @ rest) = f x rest"
  by (simp add: pbind_def de_ser)

lemma ser_inject: "ser x = ser y \<Longrightarrow> x = y"
  by (metis Inr_inject de_ser_exact prod.inject)

text \<open>No encoding is a proper prefix of another one.\<close>

lemma ser_prefix_free: "ser x @ r = ser y @ r' \<Longrightarrow> x = y \<and> r = r'"
  by (metis Inr_inject de_ser prod.inject)

end

locale fixed_codec = codec +
  fixes sz :: nat
  assumes length_ser: "length (ser x) = sz"
begin

lemma ser_drop: "drop sz (ser x @ rest) = rest"
  using length_ser by simp

lemma ser_take: "take sz (ser x @ rest) = ser x"
  using length_ser by simp

end

abbreviation ser_u8 :: "byte \<Rightarrow> byte list" where
  "ser_u8 b \<equiv> [b]"

lemma read_word_be_to_be:
  assumes "LENGTH('a) = 8 * n"
  shows "read_word_be n (to_be_bytes n (w :: 'a::len word) @ rest) = Inr (w, rest)"
  by (simp only: read_word_be_def pbind_def preturn_def read_bytes_append length_to_bytes
      and_then.simps prod.case from_to_be_bytes [OF assms])

lemma read_word_le_to_le:
  assumes "LENGTH('a) = 8 * n"
  shows "read_word_le n (to_le_bytes n (w :: 'a::len word) @ rest) = Inr (w, rest)"
  by (simp only: read_word_le_def pbind_def preturn_def read_bytes_append length_to_bytes
      and_then.simps prod.case from_to_le_bytes [OF assms])

interpretation u8: fixed_codec ser_u8 read_u8 1
  by unfold_locales simp_all

interpretation u64_be: fixed_codec "to_be_bytes 8 :: u64 \<Rightarrow> byte list" "read_word_be 8" 8
  by unfold_locales (simp_all add: read_word_be_to_be)

interpretation u64_le: fixed_codec "to_le_bytes 8 :: u64 \<Rightarrow> byte list" "read_word_le 8" 8
  by unfold_locales (simp_all add: read_word_le_to_le)

interpretation u128_be: fixed_codec "to_be_bytes 16 :: u128 \<Rightarrow> byte list" "read_word_be 16" 16
  by unfold_locales (simp_all add: read_word_be_to_be)

interpretation u256_be: fixed_codec "to_be_bytes 32 :: u256 \<Rightarrow> byte list" "read_word_be 32" 32
  by unfold_locales (simp_all add: read_word_be_to_be)

interpretation sig: fixed_codec "to_be_bytes 64 :: signature \<Rightarrow> byte list" "read_word_be 64" 64
  by unfold_locales (simp_all add: read_word_be_to_be)

lemma pbind_read_u8_Cons: "pbind read_u8 f (b # bs) = f b bs"
  by (simp add: pbind_def)

lemmas [codec_simps] =
  pbind_read_u8_Cons
  u8.pbind_de_ser u64_be.pbind_de_ser u64_le.pbind_de_ser u128_be.pbind_de_ser
  u256_be.pbind_de_ser sig.pbind_de_ser preturn_def

end
