(* ===== verification/Epochs.thy ===== *)
theory Epochs
  imports Byte_Stream "HOL-Library.AList"
begin

text \<open>
  Ledger epochs (\<open>core/src/epoch.rs\<close>): the tag of an account's upgrade state and the table
  of released epochs with their link and signer. The table is the list of the hash map's
  entries in its iteration order.
\<close>

datatype epoch = Invalid | Unspecified | Epoch0 | Epoch1 | Epoch2

fun epoch_as_u8 :: "epoch \<Rightarrow> byte" where
  "epoch_as_u8 Invalid = 0"
| "epoch_as_u8 Unspecified = 1"
| "epoch_as_u8 Epoch0 = 2"
| "epoch_as_u8 Epoch1 = 3"
| "epoch_as_u8 Epoch2 = 4"

definition epoch_try_from :: "byte \<Rightarrow> epoch option" where
  "epoch_try_from v =
     (if v = 0 then Some Invalid
      else if v = 1 then Some Unspecified
      else if v = 2 then Some Epoch0
      else if v = 3 then Some Epoch1
      else if v = 4 then Some Epoch2
      else None)"

fun epoch_number :: "epoch \<Rightarrow> byte" where
  "epoch_number Epoch1 = 1"
| "epoch_number Epoch2 = 2"
| "epoch_number _ = 0"

text \<open>The derived order of the enum is that of its discriminants.\<close>

instantiation epoch :: linorder
begin

definition less_eq_epoch :: "epoch \<Rightarrow> epoch \<Rightarrow> bool" where
  "less_eq_epoch a b \<longleftrightarrow> epoch_as_u8 a \<le> epoch_as_u8 b"

definition less_epoch :: "epoch \<Rightarrow> epoch \<Rightarrow> bool" where
  "less_epoch a b \<longleftrightarrow> epoch_as_u8 a < epoch_as_u8 b"

instance
proof
  fix x y :: epoch
  show "x = y" if "x \<le> y" "y \<le> x"
    using that by (cases x; cases y; simp add: less_eq_epoch_def word_le_nat_alt)
qed (auto simp: less_eq_epoch_def less_epoch_def)

end

lemma epoch_try_from_as_u8 [simp]: "epoch_try_from (epoch_as_u8 e) = Some e"
  by (cases e) (simp_all add: epoch_try_from_def)

lemma epoch_as_u8_inject [simp]: "epoch_as_u8 a = epoch_as_u8 b \<longleftrightarrow> a = b"
  by (metis epoch_try_from_as_u8 option.inject)

lemma epoch_as_u8_bound: "epoch_as_u8 e \<le> 4"
  by (cases e) simp_all

lemma epoch_try_from_SomeD: "epoch_try_from v = Some e \<Longrightarrow> epoch_as_u8 e = v"
  by (auto simp: epoch_try_from_def split: if_splits)

section \<open>Released epochs\<close>

record epoch_info =
  ei_signer :: public_key
  ei_link :: link

type_synonym epochs = "(epoch \<times> epoch_info) list"

definition epochs_add :: "epochs \<Rightarrow> epoch \<Rightarrow> public_key \<Rightarrow> link \<Rightarrow> epochs" where
  "epochs_add es e signer lnk = AList.update e \<lparr>ei_signer = signer, ei_link = lnk\<rparr> es"

definition is_epoch_link :: "epochs \<Rightarrow> link \<Rightarrow> bool" where
  "is_epoch_link es lnk \<longleftrightarrow> list_ex (\<lambda>(_, x). ei_link x = lnk) es"

definition epochs_link :: "epochs \<Rightarrow> epoch \<Rightarrow> link option" where
  "epochs_link es e = map_option ei_link (map_of es e)"

definition epochs_signer :: "epochs \<Rightarrow> epoch \<Rightarrow> public_key option" where
  "epochs_signer es e = map_option ei_signer (map_of es e)"

fun epochs_epoch :: "epochs \<Rightarrow> link \<Rightarrow> epoch option" where
  "epochs_epoch [] lnk = None"
| "epochs_epoch ((k, v) # es) lnk = (if ei_link v = lnk then Some k else epochs_epoch es lnk)"

definition epoch_signer :: "epochs \<Rightarrow> link \<Rightarrow> account option" where
  "epoch_signer es lnk = Option.bind (epochs_epoch es lnk) (epochs_signer es)"

definition is_sequential :: "epoch \<Rightarrow> epoch \<Rightarrow> bool" where
  "is_sequential e new_epoch \<longleftrightarrow>
     epoch_as_u8 e \<ge> epoch_as_u8 Epoch0 \<and> epoch_as_u8 new_epoch = epoch_as_u8 e + 1"

text \<open>ASCII \<open>epoch v1 block\<close> and \<open>epoch v2 block\<close>, padded with zero bytes to 32.\<close>

definition epoch_v1_link :: link where
  "epoch_v1_link = from_be_bytes (map (\<lambda>c. word_of_nat (of_char c)) ''epoch v1 block'' @ replicate 18 0)"

definition epoch_v2_link :: link where
  "epoch_v2_link = from_be_bytes (map (\<lambda>c. word_of_nat (of_char c)) ''epoch v2 block'' @ replicate 18 0)"

lemma is_epoch_link_iff: "is_epoch_link es lnk \<longleftrightarrow> epochs_epoch es lnk \<noteq> None"
  by (induction es lnk rule: epochs_epoch.induct) (auto simp: is_epoch_link_def)

lemma epochs_epoch_in: "epochs_epoch es lnk = Some e \<Longrightarrow> \<exists>x. (e, x) \<in> set es \<and> ei_link x = lnk"
  by (induction es lnk rule: epochs_epoch.induct) (auto split: if_splits)

text \<open>Every epoch link has a signer: the lookup in \<open>validate_epoch_signature\<close> does not fail.\<close>

lemma epoch_signer_of_link: "is_epoch_link es lnk \<Longrightarrow> \<exists>s. epoch_signer es lnk = Some s"
proof -
  assume "is_epoch_link es lnk"
  then obtain e where e: "epochs_epoch es lnk = Some e"
    by (auto simp: is_epoch_link_iff)
  then have "map_of es e \<noteq> None"
    using epochs_epoch_in [OF e] weak_map_of_SomeI by fastforce
  with e show ?thesis
    by (auto simp: epoch_signer_def epochs_signer_def)
qed

lemma is_epoch_link_add: "is_epoch_link (epochs_add es e s lnk) lnk"
  by (induction es) (auto simp: is_epoch_link_def epochs_add_def)

lemma epochs_signer_add:
  "epochs_signer (epochs_add es e s lnk) e' = (if e' = e then Some s else epochs_signer es e')"
  by (simp add: epochs_signer_def epochs_add_def update_conv')

lemma is_sequential_iff:
  "is_sequential e e' \<longleftrightarrow> (e = Epoch0 \<and> e' = Epoch1) \<or> (e = Epoch1 \<and> e' = Epoch2)"
  by (cases e; cases e'; simp add: is_sequential_def word_le_nat_alt)

lemma is_sequential_less: "is_sequential e e' \<Longrightarrow> e < e'"
  by (auto simp: is_sequential_iff less_epoch_def)

end
