(* ===== verification/Amounts.thy ===== *)
theory Amounts
  imports Byte_Stream
begin

text \<open>
  Amounts (\<open>core/src/amount.rs\<close>): a \<open>u128\<close> whose operators wrap in the release profile
  the node is built with, so that \<open>+\<close> and \<open>-\<close> of the source are those of
  \<open>128 word\<close>. The lemmas state when the wrapping operators compute the number they mean.
\<close>

type_synonym amount = u128

definition MAX_amount :: amount where
  "MAX_amount = - 1"

definition micronano :: "u128 \<Rightarrow> amount" where
  "micronano value = value * 10 ^ 23"

definition millinano :: "u128 \<Rightarrow> amount" where
  "millinano value = value * 10 ^ 26"

definition nano :: "u128 \<Rightarrow> amount" where
  "nano value = value * 10 ^ 29"

definition amount_serialize :: "amount \<Rightarrow> byte list" where
  "amount_serialize a = to_be_bytes 16 a"

definition amount_deserialize :: "amount parser" where
  "amount_deserialize = read_word_be 16"

interpretation amount: fixed_codec amount_serialize amount_deserialize 16
  by unfold_locales
    (simp_all add: amount_serialize_def amount_deserialize_def read_word_be_to_be)

lemmas [codec_simps] = amount.pbind_de_ser

section \<open>Arithmetic without wrap-around\<close>

lemma unat_amount_bound: "unat (a :: amount) < 2 ^ 128"
  using unsigned_less [of a, where ?'a = nat] by simp

lemma unat_amount_add:
  fixes a b :: amount
  assumes "unat a + unat b < 2 ^ 128"
  shows "unat (a + b) = unat a + unat b"
  using assms unat_add_lem [where ?'a = 128, of a b] by simp

lemma amount_less_add:
  fixes a b :: amount
  assumes "unat a + unat b < 2 ^ 128" and "b \<noteq> 0"
  shows "a < a + b"
  using assms(2) by (simp add: word_less_nat_alt unat_amount_add [OF assms(1)] unat_gt_0)

lemma unat_amount_sub:
  fixes a b :: amount
  assumes "b \<le> a"
  shows "unat (a - b) = unat a - unat b"
  using assms by (rule unat_sub)

lemma amount_sub_add_cancel: "unat (a - b :: amount) + unat b = unat a" if "b \<le> a"
  using that by (simp add: unat_amount_sub word_le_nat_alt)

lemma word_of_nat_unat_amount [simp]: "word_of_nat (unat (a :: amount)) = a"
  by simp

end
