(* ===== verification/Blocks.thy ===== *)
theory Blocks
  imports Amounts
begin

text \<open>
  The five block types of \<open>core/src/blocks\<close>: their fields, their byte encodings, and the
  trait \<open>BlockBase\<close>. A trait object is the record \<open>block_base\<close> of what its methods
  return, one record per \<open>impl BlockBase for ...\<close>, and \<open>as_block\<close> is the dispatch of the
  enum \<open>Block\<close>. Blake2b is the parameter \<open>blake\<close>; a block carries its hash as a field, as
  in the source, and \<open>block_hash_ok\<close> says that the field is the hash of the hashables.
\<close>

section \<open>Block types\<close>

datatype block_type =
    BT_Invalid
  | BT_NotABlock
  | BT_LegacySend
  | BT_LegacyReceive
  | BT_LegacyOpen
  | BT_LegacyChange
  | BT_State

fun block_type_as_u8 :: "block_type \<Rightarrow> byte" where
  "block_type_as_u8 BT_Invalid = 0"
| "block_type_as_u8 BT_NotABlock = 1"
| "block_type_as_u8 BT_LegacySend = 2"
| "block_type_as_u8 BT_LegacyReceive = 3"
| "block_type_as_u8 BT_LegacyOpen = 4"
| "block_type_as_u8 BT_LegacyChange = 5"
| "block_type_as_u8 BT_State = 6"

definition block_type_from_u8 :: "byte \<Rightarrow> block_type option" where
  "block_type_from_u8 v =
     (if v = 0 then Some BT_Invalid
      else if v = 1 then Some BT_NotABlock
      else if v = 2 then Some BT_LegacySend
      else if v = 3 then Some BT_LegacyReceive
      else if v = 4 then Some BT_LegacyOpen
      else if v = 5 then Some BT_LegacyChange
      else if v = 6 then Some BT_State
      else None)"

datatype block_sub_type = SubSend | SubReceive | SubOpen | SubChange | SubEpoch

fun sub_type_of_block_type :: "block_type \<Rightarrow> block_sub_type option" where
  "sub_type_of_block_type BT_LegacySend = Some SubSend"
| "sub_type_of_block_type BT_LegacyReceive = Some SubReceive"
| "sub_type_of_block_type BT_LegacyOpen = Some SubOpen"
| "sub_type_of_block_type BT_LegacyChange = Some SubChange"
| "sub_type_of_block_type BT_State = Some SubSend"
| "sub_type_of_block_type BT_Invalid = None"
| "sub_type_of_block_type BT_NotABlock = None"

lemma block_type_from_as_u8 [simp]: "block_type_from_u8 (block_type_as_u8 t) = Some t"
  by (cases t) (simp_all add: block_type_from_u8_def)

section \<open>The trait\<close>

record block_base =
  bb_block_type :: block_type
  bb_account_field :: "account option"
  bb_hash :: block_hash
  bb_link_field :: "link option"
  bb_signature :: signature
  bb_work :: u64
  bb_previous :: block_hash
  bb_bytes :: "byte list"
  bb_root :: root
  bb_balance_field :: "amount option"
  bb_source_field :: "block_hash option"
  bb_representative_field :: "public_key option"
  bb_valid_predecessor :: "block_type \<Rightarrow> bool"
  bb_destination_field :: "account option"

abbreviation ser_u256 :: "u256 \<Rightarrow> byte list" where
  "ser_u256 \<equiv> to_be_bytes 32"

abbreviation de_u256 :: "u256 parser" where
  "de_u256 \<equiv> read_word_be 32"

abbreviation ser_signature :: "signature \<Rightarrow> byte list" where
  "ser_signature \<equiv> to_be_bytes 64"

abbreviation de_signature :: "signature parser" where
  "de_signature \<equiv> read_word_be 64"

type_synonym blake2b = "byte list \<Rightarrow> block_hash"

section \<open>Send blocks\<close>

record send_hashables =
  sh_previous :: block_hash
  sh_destination :: account
  sh_balance :: amount

record send_block =
  sb_hashables :: send_hashables
  sb_signature :: signature
  sb_work :: u64
  sb_hash :: block_hash

definition send_hashables_hash :: "blake2b \<Rightarrow> send_hashables \<Rightarrow> block_hash" where
  "send_hashables_hash blake h =
     blake (ser_u256 (sh_previous h) @ ser_u256 (sh_destination h) @ to_be_bytes 16 (sh_balance h))"

definition send_hashables_serialize :: "send_hashables \<Rightarrow> byte list" where
  "send_hashables_serialize h =
     ser_u256 (sh_previous h) @ ser_u256 (sh_destination h) @ amount_serialize (sh_balance h)"

definition send_hashables_deserialize :: "send_hashables parser" where
  "send_hashables_deserialize =
     pbind de_u256 (\<lambda>p.
     pbind de_u256 (\<lambda>d.
     pbind (read_word_be 16) (\<lambda>b.
     preturn \<lparr>sh_previous = p, sh_destination = d, sh_balance = b\<rparr>)))"

definition send_block_deserialize :: "blake2b \<Rightarrow> send_block parser" where
  "send_block_deserialize blake =
     pbind send_hashables_deserialize (\<lambda>h.
     pbind de_signature (\<lambda>s.
     pbind (read_word_le 8) (\<lambda>w.
     preturn \<lparr>sb_hashables = h, sb_signature = s, sb_work = w,
              sb_hash = send_hashables_hash blake h\<rparr>)))"

definition send_block_serialize :: "send_block \<Rightarrow> byte list" where
  "send_block_serialize b =
     send_hashables_serialize (sb_hashables b) @ ser_signature (sb_signature b)
     @ to_le_bytes 8 (sb_work b)"

fun valid_send_block_predecessor :: "block_type \<Rightarrow> bool" where
  "valid_send_block_predecessor BT_LegacySend = True"
| "valid_send_block_predecessor BT_LegacyReceive = True"
| "valid_send_block_predecessor BT_LegacyOpen = True"
| "valid_send_block_predecessor BT_LegacyChange = True"
| "valid_send_block_predecessor BT_NotABlock = False"
| "valid_send_block_predecessor BT_State = False"
| "valid_send_block_predecessor BT_Invalid = False"

definition send_block_base :: "send_block \<Rightarrow> block_base" where
  "send_block_base b = \<lparr>
     bb_block_type = BT_LegacySend,
     bb_account_field = None,
     bb_hash = sb_hash b,
     bb_link_field = None,
     bb_signature = sb_signature b,
     bb_work = sb_work b,
     bb_previous = sh_previous (sb_hashables b),
     bb_bytes = send_block_serialize b,
     bb_root = sh_previous (sb_hashables b),
     bb_balance_field = Some (sh_balance (sb_hashables b)),
     bb_source_field = None,
     bb_representative_field = None,
     bb_valid_predecessor = valid_send_block_predecessor,
     bb_destination_field = Some (sh_destination (sb_hashables b))\<rparr>"

section \<open>Receive blocks\<close>

record receive_hashables =
  rh_previous :: block_hash
  rh_source :: block_hash

record receive_block =
  rb_work :: u64
  rb_signature :: signature
  rb_hashables :: receive_hashables
  rb_hash :: block_hash

definition receive_hashables_hash :: "blake2b \<Rightarrow> receive_hashables \<Rightarrow> block_hash" where
  "receive_hashables_hash blake h = blake (ser_u256 (rh_previous h) @ ser_u256 (rh_source h))"

definition receive_block_deserialize :: "blake2b \<Rightarrow> receive_block parser" where
  "receive_block_deserialize blake =
     pbind de_u256 (\<lambda>p.
     pbind de_u256 (\<lambda>src.
     pbind de_signature (\<lambda>s.
     pbind (read_word_le 8) (\<lambda>w.
     preturn (let h = \<lparr>rh_previous = p, rh_source = src\<rparr> in
       \<lparr>rb_work = w, rb_signature = s, rb_hashables = h,
        rb_hash = receive_hashables_hash blake h\<rparr>)))))"

definition receive_block_serialize :: "receive_block \<Rightarrow> byte list" where
  "receive_block_serialize b =
     ser_u256 (rh_previous (rb_hashables b)) @ ser_u256 (rh_source (rb_hashables b))
     @ ser_signature (rb_signature b) @ to_le_bytes 8 (rb_work b)"

definition valid_receive_block_predecessor :: "block_type \<Rightarrow> bool" where
  "valid_receive_block_predecessor t \<longleftrightarrow>
     t \<in> {BT_LegacySend, BT_LegacyReceive, BT_LegacyOpen, BT_LegacyChange}"

definition receive_block_base :: "receive_block \<Rightarrow> block_base" where
  "receive_block_base b = \<lparr>
     bb_block_type = BT_LegacyReceive,
     bb_account_field = None,
     bb_hash = rb_hash b,
     bb_link_field = None,
     bb_signature = rb_signature b,
     bb_work = rb_work b,
     bb_previous = rh_previous (rb_hashables b),
     bb_bytes = receive_block_serialize b,
     bb_root = rh_previous (rb_hashables b),
     bb_balance_field = None,
     bb_source_field = Some (rh_source (rb_hashables b)),
     bb_representative_field = None,
     bb_valid_predecessor = valid_receive_block_predecessor,
     bb_destination_field = None\<rparr>"

section \<open>Open blocks\<close>

record open_hashables =
  oh_source :: block_hash
  oh_representative :: public_key
  oh_account :: account

record open_block =
  ob_work :: u64
  ob_signature :: signature
  ob_hashables :: open_hashables
  ob_hash :: block_hash

definition open_hashables_hash :: "blake2b \<Rightarrow> open_hashables \<Rightarrow> block_hash" where
  "open_hashables_hash blake h =
     blake (ser_u256 (oh_source h) @ ser_u256 (oh_representative h) @ ser_u256 (oh_account h))"

definition open_block_deserialize :: "blake2b \<Rightarrow> open_block parser" where
  "open_block_deserialize blake =
     pbind de_u256 (\<lambda>src.
     pbind de_u256 (\<lambda>rep.
     pbind de_u256 (\<lambda>acc.
     pbind de_signature (\<lambda>s.
     pbind (read_word_le 8) (\<lambda>w.
     preturn (let h = \<lparr>oh_source = src, oh_representative = rep, oh_account = acc\<rparr> in
       \<lparr>ob_work = w, ob_signature = s, ob_hashables = h,
        ob_hash = open_hashables_hash blake h\<rparr>))))))"

definition open_block_serialize :: "open_block \<Rightarrow> byte list" where
  "open_block_serialize b =
     ser_u256 (oh_source (ob_hashables b)) @ ser_u256 (oh_representative (ob_hashables b))
     @ ser_u256 (oh_account (ob_hashables b)) @ ser_signature (ob_signature b)
     @ to_le_bytes 8 (ob_work b)"

definition open_block_base :: "open_block \<Rightarrow> block_base" where
  "open_block_base b = \<lparr>
     bb_block_type = BT_LegacyOpen,
     bb_account_field = Some (oh_account (ob_hashables b)),
     bb_hash = ob_hash b,
     bb_link_field = None,
     bb_signature = ob_signature b,
     bb_work = ob_work b,
     bb_previous = 0,
     bb_bytes = open_block_serialize b,
     bb_root = oh_account (ob_hashables b),
     bb_balance_field = None,
     bb_source_field = Some (oh_source (ob_hashables b)),
     bb_representative_field = Some (oh_representative (ob_hashables b)),
     bb_valid_predecessor = (\<lambda>_. False),
     bb_destination_field = None\<rparr>"

section \<open>Change blocks\<close>

record change_hashables =
  ch_previous :: block_hash
  ch_representative :: public_key

record change_block =
  cb_work :: u64
  cb_signature :: signature
  cb_hashables :: change_hashables
  cb_hash :: block_hash

definition change_hashables_hash :: "blake2b \<Rightarrow> change_hashables \<Rightarrow> block_hash" where
  "change_hashables_hash blake h =
     blake (ser_u256 (ch_previous h) @ ser_u256 (ch_representative h))"

definition change_block_deserialize :: "blake2b \<Rightarrow> change_block parser" where
  "change_block_deserialize blake =
     pbind de_u256 (\<lambda>p.
     pbind de_u256 (\<lambda>rep.
     pbind de_signature (\<lambda>s.
     pbind (read_word_le 8) (\<lambda>w.
     preturn (let h = \<lparr>ch_previous = p, ch_representative = rep\<rparr> in
       \<lparr>cb_work = w, cb_signature = s, cb_hashables = h,
        cb_hash = change_hashables_hash blake h\<rparr>)))))"

definition change_block_serialize :: "change_block \<Rightarrow> byte list" where
  "change_block_serialize b =
     ser_u256 (ch_previous (cb_hashables b)) @ ser_u256 (ch_representative (cb_hashables b))
     @ ser_signature (cb_signature b) @ to_le_bytes 8 (cb_work b)"

definition valid_change_block_predecessor :: "block_type \<Rightarrow> bool" where
  "valid_change_block_predecessor t \<longleftrightarrow>
     t \<in> {BT_LegacySend, BT_LegacyReceive, BT_LegacyOpen, BT_LegacyChange}"

definition change_block_base :: "change_block \<Rightarrow> block_base" where
  "change_block_base b = \<lparr>
     bb_block_type = BT_LegacyChange,
     bb_account_field = None,
     bb_hash = cb_hash b,
     bb_link_field = None,
     bb_signature = cb_signature b,
     bb_work = cb_work b,
     bb_previous = ch_previous (cb_hashables b),
     bb_bytes = change_block_serialize b,
     bb_root = ch_previous (cb_hashables b),
     bb_balance_field = None,
     bb_source_field = None,
     bb_representative_field = Some (ch_representative (cb_hashables b)),
     bb_valid_predecessor = valid_change_block_predecessor,
     bb_destination_field = None\<rparr>"

section \<open>State blocks\<close>

record state_hashables =
  sth_account :: account
  sth_previous :: block_hash
  sth_representative :: public_key
  sth_balance :: amount
  sth_link :: link

record state_block =
  stb_hashables :: state_hashables
  stb_signature :: signature
  stb_hash :: block_hash
  stb_work :: u64

definition state_hashables_hash :: "blake2b \<Rightarrow> state_hashables \<Rightarrow> block_hash" where
  "state_hashables_hash blake h =
     blake ((replicate 32 0)[31 := block_type_as_u8 BT_State]
       @ ser_u256 (sth_account h) @ ser_u256 (sth_previous h) @ ser_u256 (sth_representative h)
       @ to_be_bytes 16 (sth_balance h) @ ser_u256 (sth_link h))"

definition state_block_deserialize :: "blake2b \<Rightarrow> state_block parser" where
  "state_block_deserialize blake =
     pbind de_u256 (\<lambda>acc.
     pbind de_u256 (\<lambda>p.
     pbind de_u256 (\<lambda>rep.
     pbind amount_deserialize (\<lambda>bal.
     pbind de_u256 (\<lambda>lnk.
     pbind de_signature (\<lambda>s.
     pbind (read_word_be 8) (\<lambda>w.
     preturn (let h = \<lparr>sth_account = acc, sth_previous = p, sth_representative = rep,
                       sth_balance = bal, sth_link = lnk\<rparr> in
       \<lparr>stb_hashables = h, stb_signature = s, stb_hash = state_hashables_hash blake h,
        stb_work = w\<rparr>))))))))"

definition state_block_serialize :: "state_block \<Rightarrow> byte list" where
  "state_block_serialize b =
     ser_u256 (sth_account (stb_hashables b)) @ ser_u256 (sth_previous (stb_hashables b))
     @ ser_u256 (sth_representative (stb_hashables b)) @ amount_serialize (sth_balance (stb_hashables b))
     @ ser_u256 (sth_link (stb_hashables b)) @ ser_signature (stb_signature b)
     @ to_be_bytes 8 (stb_work b)"

definition state_block_base :: "state_block \<Rightarrow> block_base" where
  "state_block_base b = \<lparr>
     bb_block_type = BT_State,
     bb_account_field = Some (sth_account (stb_hashables b)),
     bb_hash = stb_hash b,
     bb_link_field = Some (sth_link (stb_hashables b)),
     bb_signature = stb_signature b,
     bb_work = stb_work b,
     bb_previous = sth_previous (stb_hashables b),
     bb_bytes = state_block_serialize b,
     bb_root = (if sth_previous (stb_hashables b) \<noteq> 0 then sth_previous (stb_hashables b)
                else sth_account (stb_hashables b)),
     bb_balance_field = Some (sth_balance (stb_hashables b)),
     bb_source_field = None,
     bb_representative_field = Some (sth_representative (stb_hashables b)),
     bb_valid_predecessor = (\<lambda>_. True),
     bb_destination_field = None\<rparr>"

section \<open>The enum \<open>Block\<close>\<close>

datatype block =
    LegacySend send_block
  | LegacyReceive receive_block
  | LegacyOpen open_block
  | LegacyChange change_block
  | State state_block

fun as_block :: "block \<Rightarrow> block_base" where
  "as_block (LegacySend b) = send_block_base b"
| "as_block (LegacyReceive b) = receive_block_base b"
| "as_block (LegacyOpen b) = open_block_base b"
| "as_block (LegacyChange b) = change_block_base b"
| "as_block (State b) = state_block_base b"

abbreviation block_type :: "block \<Rightarrow> block_type" where
  "block_type b \<equiv> bb_block_type (as_block b)"

abbreviation account_field :: "block \<Rightarrow> account option" where
  "account_field b \<equiv> bb_account_field (as_block b)"

abbreviation hash :: "block \<Rightarrow> block_hash" where
  "hash b \<equiv> bb_hash (as_block b)"

abbreviation link_field :: "block \<Rightarrow> link option" where
  "link_field b \<equiv> bb_link_field (as_block b)"

abbreviation signature :: "block \<Rightarrow> signature" where
  "signature b \<equiv> bb_signature (as_block b)"

abbreviation work :: "block \<Rightarrow> u64" where
  "work b \<equiv> bb_work (as_block b)"

abbreviation previous :: "block \<Rightarrow> block_hash" where
  "previous b \<equiv> bb_previous (as_block b)"

abbreviation root :: "block \<Rightarrow> root" where
  "root b \<equiv> bb_root (as_block b)"

abbreviation balance_field :: "block \<Rightarrow> amount option" where
  "balance_field b \<equiv> bb_balance_field (as_block b)"

abbreviation source_field :: "block \<Rightarrow> block_hash option" where
  "source_field b \<equiv> bb_source_field (as_block b)"

abbreviation representative_field :: "block \<Rightarrow> public_key option" where
  "representative_field b \<equiv> bb_representative_field (as_block b)"

abbreviation valid_predecessor :: "block \<Rightarrow> block_type \<Rightarrow> bool" where
  "valid_predecessor b \<equiv> bb_valid_predecessor (as_block b)"

abbreviation destination_field :: "block \<Rightarrow> account option" where
  "destination_field b \<equiv> bb_destination_field (as_block b)"

lemmas block_base_defs =
  send_block_base_def receive_block_base_def open_block_base_def change_block_base_def
  state_block_base_def

fun is_open :: "block \<Rightarrow> bool" where
  "is_open (LegacyOpen _) = True"
| "is_open (State st) = (sth_previous (stb_hashables st) = 0)"
| "is_open _ = False"

fun is_legacy :: "block \<Rightarrow> bool" where
  "is_legacy (State _) = False"
| "is_legacy _ = True"

fun is_change :: "block \<Rightarrow> bool" where
  "is_change (LegacyChange _) = True"
| "is_change (State st) = (sth_link (stb_hashables st) = 0)"
| "is_change _ = False"

definition source_or_link :: "block \<Rightarrow> block_hash" where
  "source_or_link b = unwrap_or (source_field b) (unwrap_or (link_field b) 0)"

definition destination_or_link :: "block \<Rightarrow> account" where
  "destination_or_link b = unwrap_or (destination_field b) (unwrap_or (link_field b) 0)"

fun set_signature :: "block \<Rightarrow> signature \<Rightarrow> block" where
  "set_signature (LegacySend b) s = LegacySend (b\<lparr>sb_signature := s\<rparr>)"
| "set_signature (LegacyReceive b) s = LegacyReceive (b\<lparr>rb_signature := s\<rparr>)"
| "set_signature (LegacyOpen b) s = LegacyOpen (b\<lparr>ob_signature := s\<rparr>)"
| "set_signature (LegacyChange b) s = LegacyChange (b\<lparr>cb_signature := s\<rparr>)"
| "set_signature (State b) s = State (b\<lparr>stb_signature := s\<rparr>)"

fun set_work :: "block \<Rightarrow> u64 \<Rightarrow> block" where
  "set_work (LegacySend b) w = LegacySend (b\<lparr>sb_work := w\<rparr>)"
| "set_work (LegacyReceive b) w = LegacyReceive (b\<lparr>rb_work := w\<rparr>)"
| "set_work (LegacyOpen b) w = LegacyOpen (b\<lparr>ob_work := w\<rparr>)"
| "set_work (LegacyChange b) w = LegacyChange (b\<lparr>cb_work := w\<rparr>)"
| "set_work (State b) w = State (b\<lparr>stb_work := w\<rparr>)"

fun serialized_block_size :: "block_type \<Rightarrow> nat" where
  "serialized_block_size BT_Invalid = 0"
| "serialized_block_size BT_NotABlock = 0"
| "serialized_block_size BT_LegacySend = (32 + 32 + 16) + 64 + 8"
| "serialized_block_size BT_LegacyReceive = (32 + 32) + 64 + 8"
| "serialized_block_size BT_LegacyOpen = (32 + 32 + 32) + 64 + 8"
| "serialized_block_size BT_LegacyChange = (32 + 32) + 64 + 8"
| "serialized_block_size BT_State = 32 + 32 + 32 + 16 + 32 + 64 + 8"

definition serialize_without_block_type :: "block \<Rightarrow> byte list" where
  "serialize_without_block_type b = bb_bytes (as_block b)"

definition block_serialize :: "block \<Rightarrow> byte list" where
  "block_serialize b = block_type_as_u8 (block_type b) # serialize_without_block_type b"

definition pmap :: "('a \<Rightarrow> 'b) \<Rightarrow> 'a parser \<Rightarrow> 'b parser" where
  "pmap f p = pbind p (\<lambda>x. preturn (f x))"

fun deserialize_block_type :: "blake2b \<Rightarrow> block_type \<Rightarrow> block parser" where
  "deserialize_block_type blake BT_LegacyReceive = pmap LegacyReceive (receive_block_deserialize blake)"
| "deserialize_block_type blake BT_LegacyOpen = pmap LegacyOpen (open_block_deserialize blake)"
| "deserialize_block_type blake BT_LegacyChange = pmap LegacyChange (change_block_deserialize blake)"
| "deserialize_block_type blake BT_State = pmap State (state_block_deserialize blake)"
| "deserialize_block_type blake BT_LegacySend = pmap LegacySend (send_block_deserialize blake)"
| "deserialize_block_type blake BT_Invalid = pfail InvalidBlockType"
| "deserialize_block_type blake BT_NotABlock = pfail InvalidBlockType"

definition block_deserialize :: "blake2b \<Rightarrow> block parser" where
  "block_deserialize blake =
     pbind read_u8 (\<lambda>t.
     pbind (pok_or (block_type_from_u8 t) InvalidBlockType)
       (deserialize_block_type blake))"

text \<open>\<open>FullHash\<close>; the work is hashed in native (little endian) byte order.\<close>

definition full_hash :: "blake2b \<Rightarrow> block \<Rightarrow> block_hash" where
  "full_hash blake b =
     blake (ser_u256 (hash b) @ ser_signature (signature b) @ to_le_bytes 8 (work b))"

text \<open>The hash that the constructors of the five structs compute.\<close>

fun computed_hash :: "blake2b \<Rightarrow> block \<Rightarrow> block_hash" where
  "computed_hash blake (LegacySend b) = send_hashables_hash blake (sb_hashables b)"
| "computed_hash blake (LegacyReceive b) = receive_hashables_hash blake (rb_hashables b)"
| "computed_hash blake (LegacyOpen b) = open_hashables_hash blake (ob_hashables b)"
| "computed_hash blake (LegacyChange b) = change_hashables_hash blake (cb_hashables b)"
| "computed_hash blake (State b) = state_hashables_hash blake (stb_hashables b)"

definition block_hash_ok :: "blake2b \<Rightarrow> block \<Rightarrow> bool" where
  "block_hash_ok blake b \<longleftrightarrow> hash b = computed_hash blake b"

section \<open>Properties of blocks\<close>

lemma pmap_pbind_de:
  "p bs = Inr (x, rest) \<Longrightarrow> pmap f p bs = Inr (f x, rest)"
  by (simp add: pmap_def pbind_def preturn_def)

lemma de_u128_amount: "read_word_be 16 = amount_deserialize"
  by (simp add: amount_deserialize_def)

lemmas block_codec_simps =
  codec_simps append_assoc Let_def de_u128_amount amount_serialize_def [symmetric]

lemma hashables_eta [simp]:
  "\<lparr>sh_previous = sh_previous h1, sh_destination = sh_destination h1, sh_balance = sh_balance h1\<rparr> = h1"
  "\<lparr>rh_previous = rh_previous h2, rh_source = rh_source h2\<rparr> = h2"
  "\<lparr>oh_source = oh_source h3, oh_representative = oh_representative h3, oh_account = oh_account h3\<rparr> = h3"
  "\<lparr>ch_previous = ch_previous h4, ch_representative = ch_representative h4\<rparr> = h4"
  "\<lparr>sth_account = sth_account h5, sth_previous = sth_previous h5,
     sth_representative = sth_representative h5, sth_balance = sth_balance h5, sth_link = sth_link h5\<rparr> = h5"
  by simp_all

lemma block_eta [simp]:
  "\<lparr>sb_hashables = sb_hashables b1, sb_signature = sb_signature b1, sb_work = sb_work b1, sb_hash = x\<rparr>
     = b1\<lparr>sb_hash := x\<rparr>"
  "\<lparr>rb_work = rb_work b2, rb_signature = rb_signature b2, rb_hashables = rb_hashables b2, rb_hash = x\<rparr>
     = b2\<lparr>rb_hash := x\<rparr>"
  "\<lparr>ob_work = ob_work b3, ob_signature = ob_signature b3, ob_hashables = ob_hashables b3, ob_hash = x\<rparr>
     = b3\<lparr>ob_hash := x\<rparr>"
  "\<lparr>cb_work = cb_work b4, cb_signature = cb_signature b4, cb_hashables = cb_hashables b4, cb_hash = x\<rparr>
     = b4\<lparr>cb_hash := x\<rparr>"
  "\<lparr>stb_hashables = stb_hashables b5, stb_signature = stb_signature b5, stb_hash = x, stb_work = stb_work b5\<rparr>
     = b5\<lparr>stb_hash := x\<rparr>"
  by (cases b1, simp) (cases b2, simp, cases b3, simp, cases b4, simp, cases b5, simp)

lemma send_block_round_trip:
  "send_block_deserialize blake (send_block_serialize b @ rest)
   = Inr (b\<lparr>sb_hash := send_hashables_hash blake (sb_hashables b)\<rparr>, rest)"
proof -
  have h: "send_hashables_deserialize (send_hashables_serialize h @ r) = Inr (h, r)" for h r
    by (simp add: send_hashables_deserialize_def send_hashables_serialize_def block_codec_simps)
  show ?thesis
    by (simp add: send_block_deserialize_def send_block_serialize_def pbind_def [of send_hashables_deserialize]
        h block_codec_simps)
qed

lemma receive_block_round_trip:
  "receive_block_deserialize blake (receive_block_serialize b @ rest)
   = Inr (b\<lparr>rb_hash := receive_hashables_hash blake (rb_hashables b)\<rparr>, rest)"
  by (simp add: receive_block_deserialize_def receive_block_serialize_def block_codec_simps)

lemma open_block_round_trip:
  "open_block_deserialize blake (open_block_serialize b @ rest)
   = Inr (b\<lparr>ob_hash := open_hashables_hash blake (ob_hashables b)\<rparr>, rest)"
  by (simp add: open_block_deserialize_def open_block_serialize_def block_codec_simps)

lemma change_block_round_trip:
  "change_block_deserialize blake (change_block_serialize b @ rest)
   = Inr (b\<lparr>cb_hash := change_hashables_hash blake (cb_hashables b)\<rparr>, rest)"
  by (simp add: change_block_deserialize_def change_block_serialize_def block_codec_simps)

lemma state_block_round_trip:
  "state_block_deserialize blake (state_block_serialize b @ rest)
   = Inr (b\<lparr>stb_hash := state_hashables_hash blake (stb_hashables b)\<rparr>, rest)"
  by (simp add: state_block_deserialize_def state_block_serialize_def block_codec_simps)

lemmas block_round_trips =
  send_block_round_trip receive_block_round_trip open_block_round_trip change_block_round_trip
  state_block_round_trip

lemma deserialize_block_type_round_trip:
  assumes "block_hash_ok blake b"
  shows "deserialize_block_type blake (block_type b) (serialize_without_block_type b @ rest)
    = Inr (b, rest)"
  using assms
  by (cases b)
    (auto simp: serialize_without_block_type_def block_base_defs block_round_trips block_hash_ok_def
      intro!: pmap_pbind_de [THEN trans])

lemma block_deserialize_serialize:
  assumes "block_hash_ok blake b"
  shows "block_deserialize blake (block_serialize b @ rest) = Inr (b, rest)"
  using deserialize_block_type_round_trip [OF assms, of rest]
  by (simp add: block_deserialize_def block_serialize_def pbind_def [of read_u8])

lemma length_serialize_without_block_type:
  "length (serialize_without_block_type b) = serialized_block_size (block_type b)"
  by (cases b)
    (simp_all add: serialize_without_block_type_def block_base_defs send_block_serialize_def
      send_hashables_serialize_def receive_block_serialize_def open_block_serialize_def
      change_block_serialize_def state_block_serialize_def amount_serialize_def)

lemma block_type_cases:
  "block_type b \<in> {BT_LegacySend, BT_LegacyReceive, BT_LegacyOpen, BT_LegacyChange, BT_State}"
  by (cases b) (simp_all add: block_base_defs)

text \<open>The setters touch neither the identity of a block nor the fields it hashes.\<close>

lemma set_work_hash [simp]:
  "hash (set_work b w) = hash b" "computed_hash blake (set_work b w) = computed_hash blake b"
  "work (set_work b w) = w" "signature (set_work b w) = signature b"
  by (cases b; simp add: block_base_defs)+

lemma set_signature_hash [simp]:
  "hash (set_signature b s) = hash b" "computed_hash blake (set_signature b s) = computed_hash blake b"
  "signature (set_signature b s) = s" "work (set_signature b s) = work b"
  by (cases b; simp add: block_base_defs)+

lemma is_open_iff_previous:
  "is_open b \<longleftrightarrow> (block_type b = BT_LegacyOpen \<or> block_type b = BT_State) \<and> previous b = 0"
  by (cases b) (simp_all add: block_base_defs)

end
