(* ===== verification/Records.thy ===== *)
theory Records
  imports Epochs Amounts Blocks
begin

text \<open>
  The records of the ledger tables: \<open>PendingKey\<close>, \<open>PendingInfo\<close>, \<open>AccountInfo\<close>,
  \<open>ConfirmationHeightInfo\<close> and \<open>QualifiedRoot\<close> of \<open>core/src\<close>, with their encodings.
  Native byte order is little endian. Each record interprets \<open>fixed_codec\<close>.
\<close>

section \<open>Pending entries\<close>

datatype pending_key = PendingKey (receiving_account: account) (send_block_hash: block_hash)

text \<open>The order of the keys: by account, then by hash, as in the source.\<close>

fun pending_key_le :: "pending_key \<Rightarrow> pending_key \<Rightarrow> bool" where
  "pending_key_le (PendingKey a h) (PendingKey a' h') \<longleftrightarrow> (if a = a' then h \<le> h' else a < a')"

instantiation pending_key :: linorder
begin

definition less_eq_pending_key :: "pending_key \<Rightarrow> pending_key \<Rightarrow> bool" where
  "less_eq_pending_key k k' \<longleftrightarrow> pending_key_le k k'"

definition less_pending_key :: "pending_key \<Rightarrow> pending_key \<Rightarrow> bool" where
  "less_pending_key k k' \<longleftrightarrow> k \<le> k' \<and> \<not> k' \<le> k"

instance
proof
  fix x y z :: pending_key
  show "(x < y) = (x \<le> y \<and> \<not> y \<le> x)"
    by (simp add: less_pending_key_def)
  show "x \<le> x"
    by (cases x) (simp add: less_eq_pending_key_def)
  show "x \<le> z" if "x \<le> y" "y \<le> z"
    using that by (cases x; cases y; cases z) (auto simp: less_eq_pending_key_def split: if_splits)
  show "x = y" if "x \<le> y" "y \<le> x"
    using that by (cases x; cases y) (auto simp: less_eq_pending_key_def split: if_splits)
  show "x \<le> y \<or> y \<le> x"
    by (cases x; cases y) (auto simp: less_eq_pending_key_def)
qed

end

lemma pending_key_le_iff [simp]:
  "PendingKey a h \<le> PendingKey a' h' \<longleftrightarrow> (if a = a' then h \<le> h' else a < a')"
  by (simp add: less_eq_pending_key_def)

lemma less_pending_key_iff:
  "PendingKey a h < PendingKey a' h' \<longleftrightarrow> a < a' \<or> (a = a' \<and> h < h')"
  by (auto simp: less_pending_key_def)

definition pending_key_for_send_block :: "block \<Rightarrow> pending_key" where
  "pending_key_for_send_block b = PendingKey (unwrap_or (link_field b) 0) (hash b)"

definition pending_key_for_receive_block :: "block \<Rightarrow> pending_key option" where
  "pending_key_for_receive_block b =
     map_option (\<lambda>a. PendingKey a (unwrap_or (link_field b) 0)) (account_field b)"

definition pending_key_serialize :: "pending_key \<Rightarrow> byte list" where
  "pending_key_serialize k = ser_u256 (receiving_account k) @ ser_u256 (send_block_hash k)"

definition pending_key_deserialize :: "pending_key parser" where
  "pending_key_deserialize =
     pbind de_u256 (\<lambda>a. pbind de_u256 (\<lambda>h. preturn (PendingKey a h)))"

interpretation pending_key: fixed_codec pending_key_serialize pending_key_deserialize 64
  by unfold_locales
    (simp_all add: pending_key_serialize_def pending_key_deserialize_def codec_simps)

record pending_info =
  pi_source :: account
  pi_amount :: amount
  pi_epoch :: epoch

definition pending_info_serialize :: "pending_info \<Rightarrow> byte list" where
  "pending_info_serialize p =
     ser_u256 (pi_source p) @ amount_serialize (pi_amount p) @ ser_u8 (epoch_as_u8 (pi_epoch p))"

definition read_epoch :: "epoch parser" where
  "read_epoch = pbind read_u8 (\<lambda>v. pok_or (epoch_try_from v) InvalidEpoch)"

lemma read_epoch_Cons [codec_simps]: "pbind read_epoch f (epoch_as_u8 e # rest) = f e rest"
  by (simp add: read_epoch_def pbind_def preturn_def)

definition pending_info_deserialize :: "pending_info parser" where
  "pending_info_deserialize =
     pbind de_u256 (\<lambda>s. pbind amount_deserialize (\<lambda>a. pbind read_epoch (\<lambda>e.
     preturn \<lparr>pi_source = s, pi_amount = a, pi_epoch = e\<rparr>)))"

interpretation pending_info: fixed_codec pending_info_serialize pending_info_deserialize 49
  by unfold_locales
    (simp_all add: pending_info_serialize_def pending_info_deserialize_def codec_simps
      amount.length_ser)

text \<open>\<open>to_bytes\<close> fills a buffer of 49 bytes slice by slice.\<close>

definition pending_info_to_bytes :: "pending_info \<Rightarrow> byte list" where
  "pending_info_to_bytes p =
     (let buf0 = replicate 49 0;
          buf1 = ser_u256 (pi_source p) @ drop 32 buf0;
          buf2 = take 32 buf1 @ to_be_bytes 16 (pi_amount p) @ drop 48 buf1
      in buf2[48 := epoch_as_u8 (pi_epoch p)])"

lemma pending_info_to_bytes_serialize: "pending_info_to_bytes p = pending_info_serialize p"
  by (simp add: pending_info_to_bytes_def pending_info_serialize_def amount_serialize_def
      list_update_append drop_replicate numeral_eq_Suc)

section \<open>Account entries\<close>

record account_info =
  ai_head :: block_hash
  ai_representative :: public_key
  ai_open_block :: block_hash
  ai_balance :: amount
  ai_modified :: u64
  ai_block_count :: u64
  ai_epoch :: epoch

definition account_info_default :: account_info where
  "account_info_default =
     \<lparr>ai_head = 0, ai_representative = 0, ai_open_block = 0, ai_balance = 0, ai_modified = 0,
      ai_block_count = 0, ai_epoch = Unspecified\<rparr>"

definition account_info_serialize :: "account_info \<Rightarrow> byte list" where
  "account_info_serialize i =
     ser_u256 (ai_head i) @ ser_u256 (ai_representative i) @ ser_u256 (ai_open_block i)
     @ amount_serialize (ai_balance i) @ to_le_bytes 8 (ai_modified i)
     @ to_le_bytes 8 (ai_block_count i) @ ser_u8 (epoch_as_u8 (ai_epoch i))"

definition account_info_deserialize :: "account_info parser" where
  "account_info_deserialize =
     pbind de_u256 (\<lambda>hd.
     pbind de_u256 (\<lambda>rep.
     pbind de_u256 (\<lambda>op.
     pbind amount_deserialize (\<lambda>bal.
     pbind (read_word_le 8) (\<lambda>md.
     pbind (read_word_le 8) (\<lambda>bc.
     pbind read_epoch (\<lambda>e.
     preturn \<lparr>ai_head = hd, ai_representative = rep, ai_open_block = op, ai_balance = bal,
              ai_modified = md, ai_block_count = bc, ai_epoch = e\<rparr>)))))))"

interpretation account_info: fixed_codec account_info_serialize account_info_deserialize 129
  by unfold_locales
    (simp_all add: account_info_serialize_def account_info_deserialize_def codec_simps
      amount.length_ser)

section \<open>Confirmation heights\<close>

record confirmation_height_info =
  ch_height :: u64
  ch_frontier :: block_hash

definition confirmation_height_default :: confirmation_height_info where
  "confirmation_height_default = \<lparr>ch_height = 0, ch_frontier = 0\<rparr>"

definition confirmation_height_serialize :: "confirmation_height_info \<Rightarrow> byte list" where
  "confirmation_height_serialize i = to_le_bytes 8 (ch_height i) @ ser_u256 (ch_frontier i)"

definition confirmation_height_deserialize :: "confirmation_height_info parser" where
  "confirmation_height_deserialize =
     pbind (read_word_le 8) (\<lambda>h. pbind de_u256 (\<lambda>f.
     preturn \<lparr>ch_height = h, ch_frontier = f\<rparr>))"

interpretation conf_height:
  fixed_codec confirmation_height_serialize confirmation_height_deserialize 40
  by unfold_locales
    (simp_all add: confirmation_height_serialize_def confirmation_height_deserialize_def codec_simps)

section \<open>Qualified roots\<close>

datatype qualified_root = QualifiedRoot (qr_root: root) (qr_previous: block_hash)

definition qualified_root :: "block \<Rightarrow> qualified_root" where
  "qualified_root b = QualifiedRoot (root b) (previous b)"

definition qualified_root_serialize :: "qualified_root \<Rightarrow> byte list" where
  "qualified_root_serialize q = ser_u256 (qr_root q) @ ser_u256 (qr_previous q)"

definition qualified_root_deserialize :: "qualified_root parser" where
  "qualified_root_deserialize =
     pbind de_u256 (\<lambda>r. pbind de_u256 (\<lambda>p. preturn (QualifiedRoot r p)))"

interpretation qualified_root: fixed_codec qualified_root_serialize qualified_root_deserialize 64
  by unfold_locales
    (simp_all add: qualified_root_serialize_def qualified_root_deserialize_def codec_simps)

text \<open>Two blocks that compete for the same place in a chain have the same qualified root.\<close>

lemma qualified_root_non_open:
  "\<not> is_open b \<Longrightarrow> qualified_root b = QualifiedRoot (previous b) (previous b)"
  by (cases b) (auto simp: qualified_root_def block_base_defs)

end
