(* ===== verification/Saved_Blocks.thy ===== *)
theory Saved_Blocks
  imports Blocks Epochs
begin

unbundle bit_operations_syntax

text \<open>
  Blocks as the ledger stores them: \<open>BlockDetails\<close> and its packed byte
  (\<open>block_details.rs\<close>), \<open>BlockSideband\<close> (\<open>block_sideband.rs\<close>), whose encoding leaves
  out what the block itself holds, and \<open>SavedBlock\<close> with its accessors and dependencies
  (\<open>blocks/mod.rs\<close>). \<open>normalise\<close> is what remains of a saved block after it has been
  written and read back.
\<close>

section \<open>Block details\<close>

record block_details =
  bd_epoch :: epoch
  bd_is_send :: bool
  bd_is_receive :: bool
  bd_is_epoch :: bool

definition block_details_new :: "epoch \<Rightarrow> bool \<Rightarrow> bool \<Rightarrow> bool \<Rightarrow> block_details" where
  "block_details_new e s r ep = \<lparr>bd_epoch = e, bd_is_send = s, bd_is_receive = r, bd_is_epoch = ep\<rparr>"

definition packed :: "block_details \<Rightarrow> byte" where
  "packed d =
     (let r0 = epoch_as_u8 (bd_epoch d);
          r1 = (if bd_is_send d then r0 OR 0x80 else r0);
          r2 = (if bd_is_receive d then r1 OR 0x40 else r1)
      in if bd_is_epoch d then r2 OR 0x20 else r2)"

definition unpack :: "byte \<Rightarrow> block_details option" where
  "unpack v =
     (case epoch_try_from (v AND 0x1F) of
        None \<Rightarrow> None
      | Some e \<Rightarrow> Some (block_details_new e (0x80 AND v \<noteq> 0) (0x40 AND v \<noteq> 0) (0x20 AND v \<noteq> 0)))"

definition details_deserialize :: "block_details parser" where
  "details_deserialize = pbind read_u8 (\<lambda>v. pok_or (unpack v) UnknownEpoch)"

definition details_serialize :: "block_details \<Rightarrow> byte list" where
  "details_serialize d = [packed d]"

definition details_subtype :: "block_details \<Rightarrow> block_sub_type" where
  "details_subtype d =
     (if bd_is_send d then SubSend
      else if bd_is_receive d then SubReceive
      else if bd_is_epoch d then SubEpoch
      else SubChange)"

lemma unpack_packed [simp]: "unpack (packed d) = Some d"
proof -
  obtain e s r ep where d: "d = \<lparr>bd_epoch = e, bd_is_send = s, bd_is_receive = r, bd_is_epoch = ep\<rparr>"
    by (cases d) auto
  show ?thesis
    unfolding d
    by (cases e; cases s; cases r; cases ep;
        simp add: unpack_def packed_def epoch_try_from_def block_details_new_def)
qed

interpretation details: fixed_codec details_serialize details_deserialize 1
  by unfold_locales
    (simp_all add: details_serialize_def details_deserialize_def pbind_def preturn_def)

lemmas [codec_simps] = details.pbind_de_ser

text \<open>A byte that unpacks is the packing of what it unpacks to.\<close>

lemma byte_mask_bit:
  fixes v :: byte
  assumes "n < 8"
  shows "2 ^ n AND v = (if 2 ^ n AND v \<noteq> 0 then 2 ^ n else 0)"
proof -
  have "2 ^ n AND v = (if bit v n then 2 ^ n else 0)"
    using assms by (auto intro!: bit_eqI simp: bit_simps)
  moreover have "(2 :: byte) ^ n \<noteq> 0"
    using assms by simp
  ultimately show ?thesis
    by (simp split: if_splits)
qed

lemma byte_split:
  fixes v :: byte
  shows "v = (v AND 0x1F) OR (0x80 AND v) OR (0x40 AND v) OR (0x20 AND v)"
proof -
  have "(v AND 0x1F) OR (0x80 AND v) OR (0x40 AND v) OR (0x20 AND v)
      = v AND (0x1F OR 0x80 OR 0x40 OR 0x20)"
    by (simp only: bit.conj_disj_distrib and.commute or.assoc)
  also have "(0x1F OR 0x80 OR 0x40 OR 0x20 :: byte) = - 1"
    by code_simp
  finally show ?thesis by simp
qed

lemma packed_unpack: "unpack v = Some d \<Longrightarrow> packed d = v"
  using byte_split [of v] byte_mask_bit [of 7 v] byte_mask_bit [of 6 v] byte_mask_bit [of 5 v]
  by (auto simp: unpack_def packed_def block_details_new_def Let_def or.assoc
      dest!: epoch_try_from_SomeD split: option.splits if_splits)

section \<open>Sideband\<close>

record block_sideband =
  sd_height :: u64
  sd_timestamp :: u64
  sd_successor :: block_hash
  sd_account :: account
  sd_balance :: amount
  sd_details :: block_details
  sd_source_epoch :: epoch

definition sideband_size :: "block_type \<Rightarrow> nat" where
  "sideband_size t =
     32
     + (if t \<noteq> BT_State \<and> t \<noteq> BT_LegacyOpen then 32 else 0)
     + (if t \<noteq> BT_LegacyOpen then 8 else 0)
     + (if t = BT_LegacyReceive \<or> t = BT_LegacyChange \<or> t = BT_LegacyOpen then 16 else 0)
     + 8
     + (if t = BT_State then 1 + 1 else 0)"

definition sideband_serialize :: "block_sideband \<Rightarrow> block_type \<Rightarrow> byte list" where
  "sideband_serialize sd t =
     ser_u256 (sd_successor sd)
     @ (if t \<noteq> BT_State \<and> t \<noteq> BT_LegacyOpen then ser_u256 (sd_account sd) else [])
     @ (if t \<noteq> BT_LegacyOpen then to_be_bytes 8 (sd_height sd) else [])
     @ (if t = BT_LegacyReceive \<or> t = BT_LegacyChange \<or> t = BT_LegacyOpen
        then amount_serialize (sd_balance sd) else [])
     @ to_be_bytes 8 (sd_timestamp sd)
     @ (if t = BT_State then details_serialize (sd_details sd) @ ser_u8 (epoch_as_u8 (sd_source_epoch sd))
        else [])"

definition sideband_deserialize :: "block_sideband \<Rightarrow> block_type \<Rightarrow> block_sideband parser" where
  "sideband_deserialize sd t =
     pbind (pmap (\<lambda>x. sd\<lparr>sd_successor := x\<rparr>) de_u256) (\<lambda>sd.
     pbind (if t \<noteq> BT_State \<and> t \<noteq> BT_LegacyOpen
            then pmap (\<lambda>x. sd\<lparr>sd_account := x\<rparr>) de_u256 else preturn sd) (\<lambda>sd.
     pbind (if t \<noteq> BT_LegacyOpen
            then pmap (\<lambda>x. sd\<lparr>sd_height := x\<rparr>) (read_word_be 8)
            else preturn (sd\<lparr>sd_height := 1\<rparr>)) (\<lambda>sd.
     pbind (if t = BT_LegacyReceive \<or> t = BT_LegacyChange \<or> t = BT_LegacyOpen
            then pmap (\<lambda>x. sd\<lparr>sd_balance := x\<rparr>) amount_deserialize else preturn sd) (\<lambda>sd.
     pbind (pmap (\<lambda>x. sd\<lparr>sd_timestamp := x\<rparr>) (read_word_be 8)) (\<lambda>sd.
     if t = BT_State
     then pbind details_deserialize (\<lambda>d.
          pbind read_u8 (\<lambda>v.
          pbind (pok_or (epoch_try_from v) InvalidEpoch) (\<lambda>e.
          preturn (sd\<lparr>sd_details := d, sd_source_epoch := e\<rparr>))))
     else preturn sd)))))"

definition sideband_from_stream :: "block_type \<Rightarrow> block_sideband parser" where
  "sideband_from_stream t = sideband_deserialize
     \<lparr>sd_height = 0, sd_timestamp = 0, sd_successor = 0, sd_account = 0, sd_balance = 0,
      sd_details = block_details_new Epoch0 False False False, sd_source_epoch = Epoch0\<rparr> t"

section \<open>Saved blocks\<close>

record saved_block =
  svb_block :: block
  svb_sideband :: block_sideband

definition saved_account :: "saved_block \<Rightarrow> account" where
  "saved_account b =
     (case account_field (svb_block b) of
        Some a \<Rightarrow> a
      | None \<Rightarrow> sd_account (svb_sideband b))"

abbreviation saved_height :: "saved_block \<Rightarrow> u64" where
  "saved_height b \<equiv> sd_height (svb_sideband b)"

abbreviation saved_timestamp :: "saved_block \<Rightarrow> u64" where
  "saved_timestamp b \<equiv> sd_timestamp (svb_sideband b)"

definition saved_successor :: "saved_block \<Rightarrow> block_hash option" where
  "saved_successor b =
     (if sd_successor (svb_sideband b) = 0 then None else Some (sd_successor (svb_sideband b)))"

abbreviation saved_epoch :: "saved_block \<Rightarrow> epoch" where
  "saved_epoch b \<equiv> bd_epoch (sd_details (svb_sideband b))"

definition saved_is_send :: "saved_block \<Rightarrow> bool" where
  "saved_is_send b =
     (case svb_block b of
        LegacySend _ \<Rightarrow> True
      | State _ \<Rightarrow> bd_is_send (sd_details (svb_sideband b))
      | _ \<Rightarrow> False)"

definition saved_source :: "saved_block \<Rightarrow> block_hash option" where
  "saved_source b =
     (case svb_block b of
        LegacyOpen i \<Rightarrow> Some (oh_source (ob_hashables i))
      | LegacyReceive i \<Rightarrow> Some (rh_source (rb_hashables i))
      | State i \<Rightarrow> (if bd_is_receive (sd_details (svb_sideband b))
                   then Some (sth_link (stb_hashables i)) else None)
      | _ \<Rightarrow> None)"

definition saved_destination :: "saved_block \<Rightarrow> account option" where
  "saved_destination b =
     (case svb_block b of
        LegacySend i \<Rightarrow> Some (sh_destination (sb_hashables i))
      | State i \<Rightarrow> (if bd_is_send (sd_details (svb_sideband b))
                   then Some (sth_link (stb_hashables i)) else None)
      | _ \<Rightarrow> None)"

definition saved_balance :: "saved_block \<Rightarrow> amount" where
  "saved_balance b =
     (case svb_block b of
        LegacySend i \<Rightarrow> sh_balance (sb_hashables i)
      | State i \<Rightarrow> sth_balance (stb_hashables i)
      | _ \<Rightarrow> sd_balance (svb_sideband b))"

text \<open>At most two dependencies per block: the previous block and the linked one.\<close>

record dependent_blocks =
  dep_previous :: block_hash
  dep_link :: block_hash

definition dependent_iter :: "dependent_blocks \<Rightarrow> block_hash list" where
  "dependent_iter d = filter (\<lambda>h. h \<noteq> 0) [dep_previous d, dep_link d]"

definition saved_dependent_blocks :: "epochs \<Rightarrow> account \<Rightarrow> saved_block \<Rightarrow> dependent_blocks" where
  "saved_dependent_blocks es genesis_account b =
     (case svb_block b of
        LegacySend i \<Rightarrow> \<lparr>dep_previous = sh_previous (sb_hashables i), dep_link = 0\<rparr>
      | LegacyChange i \<Rightarrow> \<lparr>dep_previous = ch_previous (cb_hashables i), dep_link = 0\<rparr>
      | LegacyReceive i \<Rightarrow>
          \<lparr>dep_previous = rh_previous (rb_hashables i), dep_link = rh_source (rb_hashables i)\<rparr>
      | LegacyOpen i \<Rightarrow>
          if oh_account (ob_hashables i) = genesis_account
          then \<lparr>dep_previous = 0, dep_link = 0\<rparr>
          else \<lparr>dep_previous = oh_source (ob_hashables i), dep_link = 0\<rparr>
      | State i \<Rightarrow>
          \<lparr>dep_previous = sth_previous (stb_hashables i),
           dep_link = (if \<not> saved_is_send b \<and> \<not> is_epoch_link es (sth_link (stb_hashables i))
                       then sth_link (stb_hashables i) else 0)\<rparr>)"

definition serialize_with_sideband :: "saved_block \<Rightarrow> byte list" where
  "serialize_with_sideband b =
     block_serialize (svb_block b)
     @ sideband_serialize (svb_sideband b) (block_type (svb_block b))"

text \<open>What the encoding of the sideband leaves out is filled in from the block.\<close>

definition fill_sideband :: "block \<Rightarrow> block_sideband \<Rightarrow> block_sideband" where
  "fill_sideband b sd =
     (case b of
        LegacySend i \<Rightarrow> sd\<lparr>sd_balance := sh_balance (sb_hashables i),
                         sd_details := block_details_new Epoch0 True False False\<rparr>
      | LegacyOpen i \<Rightarrow> sd\<lparr>sd_account := oh_account (ob_hashables i),
                         sd_details := block_details_new Epoch0 False True False\<rparr>
      | LegacyReceive _ \<Rightarrow> sd\<lparr>sd_details := block_details_new Epoch0 False True False\<rparr>
      | LegacyChange _ \<Rightarrow> sd\<lparr>sd_details := block_details_new Epoch0 False False False\<rparr>
      | State i \<Rightarrow> sd\<lparr>sd_account := sth_account (stb_hashables i),
                    sd_balance := sth_balance (stb_hashables i)\<rparr>)"

definition saved_block_deserialize :: "blake2b \<Rightarrow> saved_block parser" where
  "saved_block_deserialize blake =
     pbind (block_deserialize blake) (\<lambda>b.
     pbind (sideband_from_stream (block_type b)) (\<lambda>sd.
     preturn \<lparr>svb_block = b, svb_sideband = fill_sideband b sd\<rparr>))"

text \<open>A saved block as it is read back: legacy blocks keep neither epochs nor flags.\<close>

definition normalise :: "saved_block \<Rightarrow> saved_block" where
  "normalise b = b\<lparr>svb_sideband := fill_sideband (svb_block b)
     ((svb_sideband b)\<lparr>
        sd_height := (case svb_block b of LegacyOpen _ \<Rightarrow> 1 | _ \<Rightarrow> sd_height (svb_sideband b)),
        sd_source_epoch := (case svb_block b of State _ \<Rightarrow> sd_source_epoch (svb_sideband b) | _ \<Rightarrow> Epoch0)\<rparr>)\<rparr>"

definition normalised :: "saved_block \<Rightarrow> bool" where
  "normalised b \<longleftrightarrow> normalise b = b"

section \<open>Round trip of the sideband\<close>

lemma pbind_pmap: "pbind (pmap f p) g = pbind p (\<lambda>x. g (f x))"
proof
  fix bs
  show "pbind (pmap f p) g bs = pbind p (\<lambda>x. g (f x)) bs"
    by (cases "p bs") (auto simp: pmap_def pbind_def preturn_def)
qed

lemma length_sideband_serialize: "length (sideband_serialize sd t) = sideband_size t"
  by (simp add: sideband_serialize_def sideband_size_def amount_serialize_def details_serialize_def)

lemma sideband_round_trip:
  assumes "t \<noteq> BT_Invalid" "t \<noteq> BT_NotABlock"
  shows "sideband_from_stream t (sideband_serialize sd t @ rest)
   = Inr (sd\<lparr>
       sd_account := (if t \<noteq> BT_State \<and> t \<noteq> BT_LegacyOpen then sd_account sd else 0),
       sd_height := (if t \<noteq> BT_LegacyOpen then sd_height sd else 1),
       sd_balance := (if t = BT_LegacyReceive \<or> t = BT_LegacyChange \<or> t = BT_LegacyOpen
                      then sd_balance sd else 0),
       sd_details := (if t = BT_State then sd_details sd else block_details_new Epoch0 False False False),
       sd_source_epoch := (if t = BT_State then sd_source_epoch sd else Epoch0)\<rparr>, rest)"
  using assms
  by (cases t)
    (simp_all add: sideband_from_stream_def sideband_deserialize_def sideband_serialize_def
      pbind_pmap codec_simps append_assoc)

section \<open>Saved blocks read back\<close>

lemma saved_block_round_trip:
  assumes "block_hash_ok blake (svb_block b)"
  shows "saved_block_deserialize blake (serialize_with_sideband b @ rest) = Inr (normalise b, rest)"
proof -
  let ?t = "block_type (svb_block b)"
  have t: "?t \<noteq> BT_Invalid" "?t \<noteq> BT_NotABlock"
    using block_type_cases [of "svb_block b"] by auto
  have "saved_block_deserialize blake (serialize_with_sideband b @ rest)
    = pbind (sideband_from_stream ?t)
        (\<lambda>sd. preturn \<lparr>svb_block = svb_block b, svb_sideband = fill_sideband (svb_block b) sd\<rparr>)
        (sideband_serialize (svb_sideband b) ?t @ rest)"
    by (simp add: saved_block_deserialize_def serialize_with_sideband_def
        pbind_def [of "block_deserialize blake"] block_deserialize_serialize [OF assms])
  also have "\<dots> = Inr (normalise b, rest)"
    unfolding pbind_def [of "sideband_from_stream ?t"] sideband_round_trip [OF t] normalise_def
    by (cases b; cases "svb_block b") (simp_all add: fill_sideband_def block_base_defs preturn_def)
  finally show ?thesis .
qed

lemma normalise_idem [simp]: "normalise (normalise b) = normalise b"
  by (cases b; cases "svb_block b") (simp_all add: normalise_def fill_sideband_def)

lemma normalised_normalise [simp]: "normalised (normalise b)"
  by (simp add: normalised_def)

text \<open>No accessor but those of epochs and flags of legacy blocks sees the difference.\<close>

lemma normalise_block [simp]: "svb_block (normalise b) = svb_block b"
  by (simp add: normalise_def)

lemma normalise_accessors [simp]:
  "saved_account (normalise b) = saved_account b"
  "saved_balance (normalise b) = saved_balance b"
  "saved_successor (normalise b) = saved_successor b"
  "saved_timestamp (normalise b) = saved_timestamp b"
  "saved_is_send (normalise b) = saved_is_send b"
  "saved_source (normalise b) = saved_source b"
  "saved_destination (normalise b) = saved_destination b"
  by (cases "svb_block b";
      simp add: normalise_def fill_sideband_def saved_account_def saved_balance_def
        saved_successor_def saved_is_send_def saved_source_def saved_destination_def block_base_defs)+

lemma normalise_height:
  "saved_height (normalise b)
   = (if block_type (svb_block b) = BT_LegacyOpen then 1 else saved_height b)"
  by (cases "svb_block b") (simp_all add: normalise_def fill_sideband_def block_base_defs)

lemma dependent_iter_set:
  "h \<in> set (dependent_iter d) \<longleftrightarrow> h \<noteq> 0 \<and> (h = dep_previous d \<or> h = dep_link d)"
  by (auto simp: dependent_iter_def)

end
