(* ===== verification/Work.thy ===== *)
theory Work
  imports Saved_Blocks
begin

text \<open>
  Proof of work thresholds (\<open>core/src/work/work_thresholds.rs\<close>, \<open>core/src/difficulty.rs\<close>).
  The trait object \<open>dyn Difficulty\<close> is its method \<open>get_difficulty\<close>; \<open>difficulty_v1\<close> is the
  implementation of the live network over an 8-byte Blake2b, a parameter.
\<close>

record work_thresholds =
  wt_epoch_1 :: u64
  wt_epoch_2 :: u64
  wt_epoch_2_receive :: u64
  wt_base :: u64
  wt_entry :: u64
  wt_difficulty :: "root \<Rightarrow> u64 \<Rightarrow> u64"

definition difficulty_v1 :: "(byte list \<Rightarrow> byte list) \<Rightarrow> root \<Rightarrow> u64 \<Rightarrow> u64" where
  "difficulty_v1 blake8 rt w = from_le_bytes (blake8 (to_le_bytes 8 w @ to_be_bytes 32 rt))"

definition stub_difficulty :: "(root \<times> u64 \<Rightarrow> u64 option) \<Rightarrow> root \<Rightarrow> u64 \<Rightarrow> u64" where
  "stub_difficulty presets rt w = unwrap_or (presets (rt, w)) w"

definition with_difficulty ::
  "(root \<Rightarrow> u64 \<Rightarrow> u64) \<Rightarrow> u64 \<Rightarrow> u64 \<Rightarrow> u64 \<Rightarrow> work_thresholds" where
  "with_difficulty d e1 e2 e2r =
     \<lparr>wt_epoch_1 = e1, wt_epoch_2 = e2, wt_epoch_2_receive = e2r,
      wt_base = max (max e1 e2) e2r, wt_entry = min (min e1 e2) e2r, wt_difficulty = d\<rparr>"

definition publish_full :: "(root \<Rightarrow> u64 \<Rightarrow> u64) \<Rightarrow> work_thresholds" where
  "publish_full d = with_difficulty d 0xfffffe0000000000 0xfffffff000000000 0x0000000000000000"

definition publish_beta :: "(root \<Rightarrow> u64 \<Rightarrow> u64) \<Rightarrow> work_thresholds" where
  "publish_beta d = with_difficulty d 0xfffff00000000000 0xfffff00000000000 0xffffe00000000000"

definition publish_dev :: "(root \<Rightarrow> u64 \<Rightarrow> u64) \<Rightarrow> work_thresholds" where
  "publish_dev d = with_difficulty d 0xfe00000000000000 0xffc0000000000000 0xf000000000000000"

definition threshold_entry :: "work_thresholds \<Rightarrow> block_type \<Rightarrow> u64" where
  "threshold_entry wt t = (case t of BT_State \<Rightarrow> wt_entry wt | _ \<Rightarrow> wt_epoch_1 wt)"

definition threshold :: "work_thresholds \<Rightarrow> block_details \<Rightarrow> u64" where
  "threshold wt d =
     (case bd_epoch d of
        Epoch2 \<Rightarrow> if bd_is_receive d \<or> bd_is_epoch d then wt_epoch_2_receive wt else wt_epoch_2 wt
      | Epoch1 \<Rightarrow> wt_epoch_1 wt
      | Epoch0 \<Rightarrow> wt_epoch_1 wt
      | _ \<Rightarrow> - 1)"

definition difficulty_block :: "work_thresholds \<Rightarrow> block \<Rightarrow> u64" where
  "difficulty_block wt b = wt_difficulty wt (root b) (work b)"

definition validate_entry :: "work_thresholds \<Rightarrow> root \<Rightarrow> u64 \<Rightarrow> bool" where
  "validate_entry wt rt w \<longleftrightarrow> wt_difficulty wt rt w \<ge> threshold_entry wt BT_State"

definition validate_entry_block :: "work_thresholds \<Rightarrow> block \<Rightarrow> bool" where
  "validate_entry_block wt b \<longleftrightarrow> difficulty_block wt b \<ge> threshold_entry wt (block_type b)"

definition is_valid_pow :: "work_thresholds \<Rightarrow> block \<Rightarrow> block_details \<Rightarrow> bool" where
  "is_valid_pow wt b d \<longleftrightarrow> difficulty_block wt b \<ge> threshold wt d"

section \<open>Bounds\<close>

lemma with_difficulty_fields [simp]:
  "wt_epoch_1 (with_difficulty d e1 e2 e2r) = e1"
  "wt_epoch_2 (with_difficulty d e1 e2 e2r) = e2"
  "wt_epoch_2_receive (with_difficulty d e1 e2 e2r) = e2r"
  "wt_difficulty (with_difficulty d e1 e2 e2r) = d"
  "wt_base (with_difficulty d e1 e2 e2r) = max (max e1 e2) e2r"
  "wt_entry (with_difficulty d e1 e2 e2r) = min (min e1 e2) e2r"
  by (simp_all add: with_difficulty_def)

lemma threshold_bounds:
  assumes "wt = with_difficulty d e1 e2 e2r" and "bd_epoch det \<in> {Epoch0, Epoch1, Epoch2}"
  shows "wt_entry wt \<le> threshold wt det \<and> threshold wt det \<le> wt_base wt"
  using assms by (auto simp: threshold_def min_le_iff_disj le_max_iff_disj)

text \<open>Work that is enough for the ledger passes the entry check of the network layer.\<close>

lemma valid_pow_passes_entry:
  assumes "wt = with_difficulty d e1 e2 e2r"
    and "is_legacy b \<longrightarrow> bd_epoch det \<in> {Epoch0, Epoch1}"
    and "is_valid_pow wt b det"
  shows "validate_entry_block wt b"
proof (cases "is_legacy b")
  case True
  then have "threshold_entry wt (block_type b) = wt_epoch_1 wt" "threshold wt det = wt_epoch_1 wt"
    using assms(2) by (cases b; auto simp: threshold_entry_def threshold_def block_base_defs)+
  then show ?thesis
    using assms(3) by (simp add: is_valid_pow_def validate_entry_block_def)
next
  case False
  then have t: "threshold_entry wt (block_type b) = wt_entry wt"
    by (cases b) (simp_all add: threshold_entry_def block_base_defs)
  have "wt_entry wt \<le> threshold wt det"
  proof (cases "bd_epoch det \<in> {Epoch0, Epoch1, Epoch2}")
    case True
    then show ?thesis
      using threshold_bounds [OF assms(1), of det] by simp
  next
    case False
    then show ?thesis
      by (cases "bd_epoch det") (simp_all add: threshold_def)
  qed
  with assms(3) show ?thesis
    by (simp add: is_valid_pow_def validate_entry_block_def t)
qed

section \<open>Properties\<close>

text \<open>
  C35. The two work checks agree: a block whose work reaches the threshold of its kind and epoch
  passes the cheaper check on entry, which knows neither, so no block with valid work is dropped
  there.
\<close>

theorem valid_work_passes_entry_check:
  assumes "wt = with_difficulty d e1 e2 e2r" and "is_legacy b \<longrightarrow> bd_epoch det \<in> {Epoch0, Epoch1}"
    and "is_valid_pow wt b det"
  shows "validate_entry_block wt b"
  by (rule valid_pow_passes_entry [OF assms])

theorem valid_work_passes_entry_check_witness:
  "\<exists>b. b = State \<lparr>stb_hashables = \<lparr>sth_account = 1, sth_previous = 2, sth_representative = 3, sth_balance = 4,
        sth_link = 5\<rparr>, stb_signature = 0, stb_hash = 6, stb_work = 30\<rparr> \<and>
     is_valid_pow (with_difficulty (\<lambda>_ w. w) 10 20 5) b (block_details_new Epoch2 True False False) \<and>
     validate_entry_block (with_difficulty (\<lambda>_ w. w) 10 20 5) b"
proof -
  let ?b = "State \<lparr>stb_hashables = \<lparr>sth_account = 1, sth_previous = 2, sth_representative = 3, sth_balance = 4,
        sth_link = 5\<rparr>, stb_signature = 0, stb_hash = 6, stb_work = 30\<rparr>"
  have "is_valid_pow (with_difficulty (\<lambda>_ w. w) 10 20 5) ?b (block_details_new Epoch2 True False False)"
    by (simp add: is_valid_pow_def difficulty_block_def threshold_def block_details_new_def block_base_defs)
  moreover have "\<not> is_legacy ?b"
    by (simp add: block_base_defs)
  ultimately show ?thesis
    using valid_work_passes_entry_check [OF refl, of ?b] by blast
qed

end
