(* ===== verification/Rep_Weights.thy ===== *)
theory Rep_Weights
  imports Amounts
begin

text \<open>
  Vote weights of representatives: \<open>ledger/src/rep_weights_updater.rs\<close> over the table of
  \<open>store_lmdb/src/rep_weight_store.rs\<close>, and \<open>ledger/src/rep_weight_cache.rs\<close>. The hash map
  of the cache, shared by the updater and the cache behind an \<open>Arc<RwLock>\<close>, is the field
  \<open>rw_cache\<close>. \<open>None\<close> is the panic of deleting a key that is not in the table.
\<close>

record rep_weights =
  rw_store :: "(public_key, amount) fmap"
  rw_cache :: "(public_key, amount) fmap"
  rw_min_weight :: amount

definition weight_get :: "(public_key, amount) fmap \<Rightarrow> public_key \<Rightarrow> amount" where
  "weight_get m r = unwrap_or (fmlookup m r) 0"

definition put_cache ::
  "amount \<Rightarrow> (public_key, amount) fmap \<Rightarrow> public_key \<Rightarrow> amount \<Rightarrow> (public_key, amount) fmap" where
  "put_cache min_weight weights r new_weight =
     (if new_weight < min_weight \<or> new_weight = 0 then fmdrop r weights
      else fmupd r new_weight weights)"

definition rep_weight_del ::
  "(public_key, amount) fmap \<Rightarrow> public_key \<Rightarrow> (public_key, amount) fmap option" where
  "rep_weight_del m r = (if fmlookup m r = None then None else Some (fmdrop r m))"

definition put_store ::
  "(public_key, amount) fmap \<Rightarrow> public_key \<Rightarrow> amount \<Rightarrow> amount \<Rightarrow> (public_key, amount) fmap option" where
  "put_store m r previous_weight new_weight =
     (if new_weight = 0 then
        (if previous_weight \<noteq> 0 then rep_weight_del m r else Some m)
      else Some (fmupd r new_weight m))"

definition representation_put :: "rep_weights \<Rightarrow> public_key \<Rightarrow> amount \<Rightarrow> rep_weights" where
  "representation_put w r x = w\<lparr>rw_cache := put_cache (rw_min_weight w) (rw_cache w) r x\<rparr>"

definition representation_add :: "rep_weights \<Rightarrow> public_key \<Rightarrow> amount \<Rightarrow> rep_weights option" where
  "representation_add w r x =
     (let previous_weight = weight_get (rw_store w) r;
          new_weight = previous_weight + x
      in Option.bind (put_store (rw_store w) r previous_weight new_weight) (\<lambda>st.
         Some (w\<lparr>rw_store := st, rw_cache := put_cache (rw_min_weight w) (rw_cache w) r new_weight\<rparr>)))"

definition representation_add_dual ::
  "rep_weights \<Rightarrow> public_key \<Rightarrow> amount \<Rightarrow> public_key \<Rightarrow> amount \<Rightarrow> rep_weights option" where
  "representation_add_dual w r1 x1 r2 x2 =
     (if r1 \<noteq> r2 then
        (let p1 = weight_get (rw_store w) r1;
             p2 = weight_get (rw_store w) r2;
             n1 = p1 + x1;
             n2 = p2 + x2
         in Option.bind (put_store (rw_store w) r1 p1 n1) (\<lambda>st1.
            Option.bind (put_store st1 r2 p2 n2) (\<lambda>st2.
            Some (w\<lparr>rw_store := st2,
                    rw_cache := put_cache (rw_min_weight w)
                      (put_cache (rw_min_weight w) (rw_cache w) r1 n1) r2 n2\<rparr>))))
      else representation_add w r1 (x1 + x2))"

text \<open>\<open>copy_from\<close>: the entries of the other map in its iteration order.\<close>

fun copy_from :: "amount \<Rightarrow> (public_key, amount) fmap \<Rightarrow> (public_key \<times> amount) list \<Rightarrow> (public_key, amount) fmap" where
  "copy_from min_weight cache [] = cache"
| "copy_from min_weight cache ((r, x) # rest) =
     copy_from min_weight (put_cache min_weight cache r (weight_get cache r + x)) rest"

section \<open>Contract of the updater\<close>

text \<open>
  The table holds no zero weight, and the cache is the part of the table at or above the
  minimum.
\<close>

definition cache_of_store ::
  "amount \<Rightarrow> (public_key, amount) fmap \<Rightarrow> (public_key, amount) fmap \<Rightarrow> bool" where
  "cache_of_store min_weight st cache \<longleftrightarrow>
     (\<forall>r. fmlookup st r \<noteq> Some 0) \<and>
     (\<forall>r. fmlookup cache r =
        Option.bind (fmlookup st r) (\<lambda>x. if x < min_weight then None else Some x))"

definition weights_ok :: "rep_weights \<Rightarrow> bool" where
  "weights_ok w \<longleftrightarrow> cache_of_store (rw_min_weight w) (rw_store w) (rw_cache w)"

text \<open>The weight of a representative in the table.\<close>

abbreviation stored_weight :: "rep_weights \<Rightarrow> public_key \<Rightarrow> amount" where
  "stored_weight w r \<equiv> weight_get (rw_store w) r"

lemma weight_get_update [simp]:
  "weight_get (fmupd r x m) r' = (if r = r' then x else weight_get m r')"
  "weight_get (fmdrop r m) r' = (if r = r' then 0 else weight_get m r')"
  by (auto simp: weight_get_def)

lemma put_store_put_cache:
  assumes "cache_of_store mw st c" and "p = weight_get st r"
  shows "\<exists>st'. put_store st r p x = Some st' \<and> cache_of_store mw st' (put_cache mw c r x)
    \<and> (\<forall>r'. weight_get st' r' = (if r' = r then x else weight_get st r'))"
proof (cases "x = 0")
  case True
  then show ?thesis
    using assms
    by (auto simp: put_store_def rep_weight_del_def weight_get_def cache_of_store_def put_cache_def
        split: option.splits)
next
  case False
  then show ?thesis
    using assms by (auto simp: put_store_def cache_of_store_def put_cache_def)
qed

lemma representation_add_ok:
  assumes "weights_ok w"
  shows "\<exists>w'. representation_add w r x = Some w' \<and> weights_ok w'
    \<and> rw_min_weight w' = rw_min_weight w
    \<and> (\<forall>r'. stored_weight w' r' = (if r' = r then stored_weight w r + x else stored_weight w r'))"
proof -
  from put_store_put_cache [OF assms [unfolded weights_ok_def] refl, of r "stored_weight w r + x"]
  obtain st' where "put_store (rw_store w) r (stored_weight w r) (stored_weight w r + x) = Some st'"
    "cache_of_store (rw_min_weight w) st'
       (put_cache (rw_min_weight w) (rw_cache w) r (stored_weight w r + x))"
    "\<forall>r'. weight_get st' r' = (if r' = r then stored_weight w r + x else stored_weight w r')"
    by blast
  then show ?thesis
    by (simp add: representation_add_def weights_ok_def Let_def)
qed

lemma representation_add_dual_ok:
  assumes "weights_ok w"
  shows "\<exists>w'. representation_add_dual w r1 x1 r2 x2 = Some w' \<and> weights_ok w'
    \<and> rw_min_weight w' = rw_min_weight w
    \<and> (\<forall>r'. stored_weight w' r' = stored_weight w r' + (if r' = r1 then x1 else 0)
          + (if r' = r2 then x2 else 0))"
proof (cases "r1 = r2")
  case True
  from representation_add_ok [OF assms, of r1 "x1 + x2"] obtain w' where
    "representation_add w r1 (x1 + x2) = Some w'" "weights_ok w'" "rw_min_weight w' = rw_min_weight w"
    "\<forall>r'. stored_weight w' r' = (if r' = r1 then stored_weight w r1 + (x1 + x2) else stored_weight w r')"
    by blast
  with True show ?thesis
    by (simp add: representation_add_dual_def)
next
  case False
  let ?n1 = "stored_weight w r1 + x1" and ?n2 = "stored_weight w r2 + x2"
  let ?mw = "rw_min_weight w"
  from put_store_put_cache [OF assms [unfolded weights_ok_def] refl, of r1 ?n1]
  obtain st1 where st1: "put_store (rw_store w) r1 (stored_weight w r1) ?n1 = Some st1"
    "cache_of_store ?mw st1 (put_cache ?mw (rw_cache w) r1 ?n1)"
    "\<forall>r'. weight_get st1 r' = (if r' = r1 then ?n1 else stored_weight w r')"
    by blast
  have p2: "stored_weight w r2 = weight_get st1 r2"
    using False st1(3) by simp
  from put_store_put_cache [OF st1(2) p2, of ?n2]
  obtain st2 where "put_store st1 r2 (stored_weight w r2) ?n2 = Some st2"
    "cache_of_store ?mw st2 (put_cache ?mw (put_cache ?mw (rw_cache w) r1 ?n1) r2 ?n2)"
    "\<forall>r'. weight_get st2 r' = (if r' = r2 then ?n2 else weight_get st1 r')"
    by blast
  with False st1(1,3) show ?thesis
    by (simp add: representation_add_dual_def Let_def weights_ok_def)
qed

section \<open>The cache during bootstrap\<close>

record rep_weight_cache =
  rwc_bootstrap_weights :: "(public_key, amount) fmap"
  rwc_max_blocks :: u64
  rwc_check_bootstrap_weights :: bool

definition use_bootstrap_weights :: "rep_weight_cache \<Rightarrow> u64 \<Rightarrow> bool \<times> rep_weight_cache" where
  "use_bootstrap_weights c block_count =
     (if rwc_check_bootstrap_weights c then
        (if block_count < rwc_max_blocks c then (True, c)
         else (False, c\<lparr>rwc_check_bootstrap_weights := False\<rparr>))
      else (False, c))"

definition cache_weight ::
  "rep_weight_cache \<Rightarrow> (public_key, amount) fmap \<Rightarrow> u64 \<Rightarrow> public_key \<Rightarrow> amount \<times> rep_weight_cache" where
  "cache_weight c weights block_count r =
     (case use_bootstrap_weights c block_count of
        (b, c') \<Rightarrow> (weight_get (if b then rwc_bootstrap_weights c else weights) r, c'))"

text \<open>Once the bootstrap weights are left they are never used again, even if the block count falls.\<close>

lemma bootstrap_weights_left_for_good:
  assumes "use_bootstrap_weights c n = (False, c')"
  shows "use_bootstrap_weights c' m = (False, c')"
  using assms by (auto simp: use_bootstrap_weights_def split: if_splits)

section \<open>Loading in shards\<close>

text \<open>
  Loaded in one piece, the cache is the filtered table. Loaded in two pieces that hold parts
  of the same representative's weight, it may lose a weight that reaches the minimum.
\<close>

lemma copy_from_other:
  assumes "r \<notin> fst ` set xs"
  shows "fmlookup (copy_from mw c xs) r = fmlookup c r"
  using assms by (induction mw c xs rule: copy_from.induct) (auto simp: put_cache_def)

lemma copy_from_once:
  assumes "distinct (map fst xs)" and "(r, x) \<in> set xs" and "fmlookup c r = None"
  shows "weight_get (copy_from mw c xs) r = (if x < mw then 0 else x)"
  using assms
proof (induction mw c xs rule: copy_from.induct)
  case (2 mw cache r' x' rest)
  show ?case
  proof (cases "r = r'")
    case True
    then have r: "r \<notin> fst ` set rest"
      using 2(2) by simp
    then have "x = x'"
      using 2(3) True by force
    with True r 2(4) show ?thesis
      by (simp add: weight_get_def copy_from_other put_cache_def)
  next
    case False
    then have "(r, x) \<in> set rest" "distinct (map fst rest)"
      "fmlookup (put_cache mw cache r' (weight_get cache r' + x')) r = None"
      using 2(2-4) by (auto simp: put_cache_def)
    from 2(1) [OF this(2,1,3)] show ?thesis
      by simp
  qed
qed simp

end
