(* ===== verification/Ledger_State.thy ===== *)
theory Ledger_State
  imports Ordered_Maps Records Saved_Blocks Work Rep_Weights "HOL-Library.Monad_Syntax"
begin

text \<open>
  The state of the ledger: the tables of \<open>store_lmdb\<close> as finite maps from keys to values, the
  counters of \<open>LedgerCache\<close>, and the read queries of \<open>LedgerSetAny\<close>
  (\<open>ledger/src/ledger_set_any.rs\<close>). A database cursor is the list of entries it has yet to
  return, in key order. Deleting a key that is absent, or finding no block where the source
  uses \<open>unwrap\<close> or \<open>expect\<close>, panics: the result is \<open>None\<close>.
\<close>

section \<open>Tables\<close>

type_synonym block_table = "(block_hash, saved_block) fmap"
type_synonym pending_table = "(pending_key, pending_info) fmap"

definition table_del :: "'k \<Rightarrow> ('k, 'v) fmap \<Rightarrow> ('k, 'v) fmap option" where
  "table_del k m = (if fmlookup m k = None then None else Some (fmdrop k m))"

lemma table_del_Some [simp]:
  "table_del k m = Some m' \<longleftrightarrow> (\<exists>v. fmlookup m k = Some v) \<and> m' = fmdrop k m"
  by (auto simp: table_del_def)

lemma table_del_present: "fmlookup m k = Some v \<Longrightarrow> table_del k m = Some (fmdrop k m)"
  by (simp add: table_del_def)

definition set_successor :: "block_hash \<Rightarrow> saved_block \<Rightarrow> saved_block" where
  "set_successor h b = b\<lparr>svb_sideband := (svb_sideband b)\<lparr>sd_successor := h\<rparr>\<rparr>"

definition update_predecessor :: "saved_block \<Rightarrow> block_table \<Rightarrow> block_table option" where
  "update_predecessor b t =
     (if previous (svb_block b) = 0 then Some t
      else case fmlookup t (previous (svb_block b)) of
        None \<Rightarrow> None
      | Some p \<Rightarrow> Some (fmupd (previous (svb_block b)) (set_successor (hash (svb_block b)) p) t))"

definition block_put :: "saved_block \<Rightarrow> block_table \<Rightarrow> block_table option" where
  "block_put b t = update_predecessor b (fmupd (hash (svb_block b)) (normalise b) t)"

definition block_successor :: "block_table \<Rightarrow> block_hash \<Rightarrow> block_hash option" where
  "block_successor t h = Option.bind (fmlookup t h) saved_successor"

definition successor_clear :: "block_hash \<Rightarrow> block_table \<Rightarrow> block_table option" where
  "successor_clear h t =
     (case fmlookup t h of
        None \<Rightarrow> None
      | Some b \<Rightarrow> Some (fmupd h (set_successor 0 b) t))"

lemma set_successor_simps [simp]:
  "svb_block (set_successor h b) = svb_block b"
  "saved_account (set_successor h b) = saved_account b"
  "saved_balance (set_successor h b) = saved_balance b"
  "saved_height (set_successor h b) = saved_height b"
  "saved_epoch (set_successor h b) = saved_epoch b"
  "saved_source (set_successor h b) = saved_source b"
  "saved_is_send (set_successor h b) = saved_is_send b"
  "saved_destination (set_successor h b) = saved_destination b"
  "sd_details (svb_sideband (set_successor h b)) = sd_details (svb_sideband b)"
  "sd_successor (svb_sideband (set_successor h b)) = h"
  by (cases "svb_block b"; simp add: set_successor_def saved_account_def saved_balance_def
      saved_source_def saved_is_send_def saved_destination_def block_base_defs)+

lemma set_successor_idem [simp]: "set_successor h (set_successor h' b) = set_successor h b"
  by (simp add: set_successor_def)

lemma set_successor_same: "sd_successor (svb_sideband b) = h \<Longrightarrow> set_successor h b = b"
  by (auto simp: set_successor_def)

lemma normalise_set_successor [simp]: "normalise (set_successor h b) = set_successor h (normalise b)"
  by (cases "svb_block b") (simp_all add: normalise_def set_successor_def fill_sideband_def)

section \<open>Cursors\<close>

definition pending_exists :: "pending_table \<Rightarrow> pending_key \<Rightarrow> bool" where
  "pending_exists t k = (case entries_from k t of [] \<Rightarrow> False | (k', _) # _ \<Rightarrow> k' = k)"

definition pending_any :: "pending_table \<Rightarrow> account \<Rightarrow> bool" where
  "pending_any t a =
     (case entries_from (PendingKey a 0) t of
        [] \<Rightarrow> False
      | (k, _) # _ \<Rightarrow> receiving_account k = a)"

lemma pending_exists_iff: "pending_exists t k \<longleftrightarrow> fmlookup t k \<noteq> None"
proof (cases "entries_from k t")
  case Nil
  then show ?thesis
    using entries_from_Nil [of k t] by (simp add: pending_exists_def)
next
  case (Cons x xs)
  obtain k' v where x: "x = (k', v)"
    by (cases x)
  note d = entries_from_ConsD [OF Cons [unfolded x]]
  show ?thesis
    using d(1,2) d(3) [of k] by (auto simp: pending_exists_def Cons x)
qed

lemma pending_key_ge_zero: "PendingKey a 0 \<le> PendingKey a h"
  by simp

lemma pending_any_iff: "pending_any t a \<longleftrightarrow> (\<exists>h. fmlookup t (PendingKey a h) \<noteq> None)"
proof (cases "entries_from (PendingKey a 0) t")
  case Nil
  then show ?thesis
    using entries_from_Nil [of "PendingKey a 0" t] by (auto simp: pending_any_def)
next
  case (Cons x xs)
  obtain k' v where x: "x = (k', v)"
    by (cases x)
  note d = entries_from_ConsD [OF Cons [unfolded x]]
  obtain a' h' where k': "k' = PendingKey a' h'"
    by (cases k')
  show ?thesis
  proof
    assume "pending_any t a"
    then show "\<exists>h. fmlookup t (PendingKey a h) \<noteq> None"
      using d(1) by (auto simp: pending_any_def Cons x k')
  next
    assume "\<exists>h. fmlookup t (PendingKey a h) \<noteq> None"
    then obtain h where "fmlookup t (PendingKey a h) \<noteq> None" ..
    then have "k' \<le> PendingKey a h"
      using d(3) pending_key_ge_zero by blast
    with d(2) have "a' = a"
      by (auto simp: k' split: if_splits)
    then show "pending_any t a"
      by (simp add: pending_any_def Cons x k')
  qed
qed

section \<open>The ledger\<close>

record ledger =
  l_block :: block_table
  l_account :: "(account, account_info) fmap"
  l_pending :: pending_table
  l_pruned :: "(block_hash, unit) fmap"
  l_conf :: "(account, confirmation_height_info) fmap"
  l_weights :: rep_weights
  l_block_count :: u64
  l_account_count :: u64
  l_cemented_count :: u64
  l_pruned_count :: u64

record ledger_constants =
  lc_work :: work_thresholds
  lc_genesis_block :: saved_block
  lc_genesis_account :: account
  lc_epochs :: epochs

text \<open>The operations on single tables that the ledger uses, lifted to the ledger.\<close>

definition ledger_block_put :: "saved_block \<Rightarrow> ledger \<Rightarrow> ledger option" where
  "ledger_block_put b l = map_option (\<lambda>t. l\<lparr>l_block := t\<rparr>) (block_put b (l_block l))"

definition ledger_block_del :: "block_hash \<Rightarrow> ledger \<Rightarrow> ledger option" where
  "ledger_block_del h l = map_option (\<lambda>t. l\<lparr>l_block := t\<rparr>) (table_del h (l_block l))"

definition ledger_successor_clear :: "block_hash \<Rightarrow> ledger \<Rightarrow> ledger option" where
  "ledger_successor_clear h l = map_option (\<lambda>t. l\<lparr>l_block := t\<rparr>) (successor_clear h (l_block l))"

definition account_put :: "account \<Rightarrow> account_info \<Rightarrow> ledger \<Rightarrow> ledger" where
  "account_put a i l = l\<lparr>l_account := fmupd a i (l_account l)\<rparr>"

definition account_del :: "account \<Rightarrow> ledger \<Rightarrow> ledger option" where
  "account_del a l = map_option (\<lambda>t. l\<lparr>l_account := t\<rparr>) (table_del a (l_account l))"

definition pending_put :: "pending_key \<Rightarrow> pending_info \<Rightarrow> ledger \<Rightarrow> ledger" where
  "pending_put k i l = l\<lparr>l_pending := fmupd k i (l_pending l)\<rparr>"

definition pending_del :: "pending_key \<Rightarrow> ledger \<Rightarrow> ledger option" where
  "pending_del k l = map_option (\<lambda>t. l\<lparr>l_pending := t\<rparr>) (table_del k (l_pending l))"

definition pruned_put :: "block_hash \<Rightarrow> ledger \<Rightarrow> ledger" where
  "pruned_put h l = l\<lparr>l_pruned := fmupd h () (l_pruned l)\<rparr>"

definition conf_put :: "account \<Rightarrow> confirmation_height_info \<Rightarrow> ledger \<Rightarrow> ledger" where
  "conf_put a i l = l\<lparr>l_conf := fmupd a i (l_conf l)\<rparr>"

section \<open>Queries over all blocks\<close>

definition get_block :: "ledger \<Rightarrow> block_hash \<Rightarrow> saved_block option" where
  "get_block l h = fmlookup (l_block l) h"

definition get_account :: "ledger \<Rightarrow> account \<Rightarrow> account_info option" where
  "get_account l a = fmlookup (l_account l) a"

definition account_head :: "ledger \<Rightarrow> account \<Rightarrow> block_hash option" where
  "account_head l a = map_option ai_head (get_account l a)"

definition account_balance :: "ledger \<Rightarrow> account \<Rightarrow> amount option" where
  "account_balance l a = do { h \<leftarrow> account_head l a; map_option saved_balance (get_block l h) }"

text \<open>The outer \<open>None\<close> is the panic "Head block not in ledger!".\<close>

definition account_height :: "ledger \<Rightarrow> account \<Rightarrow> u64 option" where
  "account_height l a =
     (case account_head l a of
        None \<Rightarrow> Some 0
      | Some h \<Rightarrow> map_option saved_height (get_block l h))"

definition block_account :: "ledger \<Rightarrow> block_hash \<Rightarrow> account option" where
  "block_account l h = map_option saved_account (get_block l h)"

definition block_balance :: "ledger \<Rightarrow> block_hash \<Rightarrow> amount option" where
  "block_balance l h = (if h = 0 then None else map_option saved_balance (get_block l h))"

definition block_amount_for :: "ledger \<Rightarrow> saved_block \<Rightarrow> amount option" where
  "block_amount_for l b =
     (if previous (svb_block b) = 0 then Some (saved_balance b)
      else map_option (\<lambda>p. if saved_balance b > p then saved_balance b - p else p - saved_balance b)
             (block_balance l (previous (svb_block b))))"

definition block_amount :: "ledger \<Rightarrow> block_hash \<Rightarrow> amount option" where
  "block_amount l h = Option.bind (get_block l h) (block_amount_for l)"

definition block_exists :: "ledger \<Rightarrow> block_hash \<Rightarrow> bool" where
  "block_exists l h \<longleftrightarrow> fmlookup (l_block l) h \<noteq> None"

definition block_exists_or_pruned :: "ledger \<Rightarrow> block_hash \<Rightarrow> bool" where
  "block_exists_or_pruned l h =
     (if fmlookup (l_pruned l) h \<noteq> None then True else fmlookup (l_block l) h \<noteq> None)"

definition block_height :: "ledger \<Rightarrow> block_hash \<Rightarrow> u64" where
  "block_height l h = unwrap_or (map_option saved_height (get_block l h)) 0"

definition block_successor_by_qualified_root :: "ledger \<Rightarrow> qualified_root \<Rightarrow> block_hash option" where
  "block_successor_by_qualified_root l q =
     (if qr_previous q \<noteq> 0 then block_successor (l_block l) (qr_previous q)
      else map_option ai_open_block (get_account l (qr_root q)))"

definition any_block_successor :: "ledger \<Rightarrow> block_hash \<Rightarrow> block_hash option" where
  "any_block_successor l h = block_successor_by_qualified_root l (QualifiedRoot h h)"

definition get_pending :: "ledger \<Rightarrow> pending_key \<Rightarrow> pending_info option" where
  "get_pending l k = fmlookup (l_pending l) k"

end
