(* ===== verification/Receivables.thy ===== *)
theory Receivables
  imports Ledger_State
begin

text \<open>
  The iterator over receivable entries (\<open>AnyReceivableIterator\<close> of
  \<open>ledger/src/ledger_set_any.rs\<close>) on top of the database cursor, the three ways the ledger
  creates one, and \<open>receivable_exists\<close>. The main lemma gives the entries that the iterator
  of an account returns, in order.
\<close>

text \<open>\<open>checked_add(1)\<close> on 32 bytes: absent for the greatest value.\<close>

definition inc :: "u256 \<Rightarrow> u256 option" where
  "inc w = (if w = - 1 then None else Some (w + 1))"

record receivable_iterator =
  ri_requested_account :: account
  ri_actual_account :: "account option"
  ri_next_hash :: "block_hash option"
  ri_inner :: "(pending_key \<times> pending_info) list"
  ri_is_first :: bool

definition receivable_iterator_new ::
  "pending_table \<Rightarrow> account \<Rightarrow> account option \<Rightarrow> block_hash option \<Rightarrow> receivable_iterator" where
  "receivable_iterator_new t requested actual next_hash =
     \<lparr>ri_requested_account = requested, ri_actual_account = actual, ri_next_hash = next_hash,
      ri_inner = sorted_list_of_fmap t, ri_is_first = True\<rparr>"

definition receivable_next ::
  "pending_table \<Rightarrow> receivable_iterator \<Rightarrow> (pending_key \<times> pending_info) option \<times> receivable_iterator" where
  "receivable_next t it =
     (case ri_next_hash it of
        None \<Rightarrow> (None, it)
      | Some h \<Rightarrow>
          if ri_is_first it then
            (case entries_from (PendingKey (ri_requested_account it) h) t of
               [] \<Rightarrow> (None, it\<lparr>ri_is_first := False, ri_inner := []\<rparr>)
             | (k, i) # rest \<Rightarrow>
                 (if ri_actual_account it \<noteq> None \<and> ri_actual_account it \<noteq> Some (receiving_account k)
                  then (None, it\<lparr>ri_is_first := False, ri_inner := rest\<rparr>)
                  else (Some (k, i), it\<lparr>ri_is_first := False, ri_inner := rest,
                          ri_actual_account := Some (receiving_account k)\<rparr>)))
          else
            (case ri_inner it of
               [] \<Rightarrow> (None, it)
             | (k, i) # rest \<Rightarrow>
                 (case ri_actual_account it of
                    Some a \<Rightarrow>
                      (if receiving_account k = a
                       then (Some (k, i), it\<lparr>ri_inner := rest, ri_next_hash := inc (send_block_hash k)\<rparr>)
                       else (None, it\<lparr>ri_inner := rest\<rparr>))
                  | None \<Rightarrow>
                      (Some (k, i), it\<lparr>ri_inner := rest, ri_actual_account := Some (receiving_account k)\<rparr>))))"

definition account_receivable_upper_bound :: "pending_table \<Rightarrow> account \<Rightarrow> block_hash \<Rightarrow> receivable_iterator" where
  "account_receivable_upper_bound t a h = receivable_iterator_new t a (Some a) (inc h)"

definition receivable_upper_bound :: "pending_table \<Rightarrow> account \<Rightarrow> receivable_iterator" where
  "receivable_upper_bound t a =
     (case inc a of
        None \<Rightarrow> receivable_iterator_new t 0 None None
      | Some a' \<Rightarrow> receivable_iterator_new t a' None (Some 0))"

definition receivable_lower_bound :: "pending_table \<Rightarrow> account \<Rightarrow> receivable_iterator" where
  "receivable_lower_bound t a = receivable_iterator_new t a None (Some 0)"

definition receivable_exists :: "ledger \<Rightarrow> account \<Rightarrow> bool" where
  "receivable_exists l a \<longleftrightarrow>
     fst (receivable_next (l_pending l) (account_receivable_upper_bound (l_pending l) a 0)) \<noteq> None"

text \<open>The first \<open>n\<close> items of the iterator.\<close>

fun receivable_take :: "nat \<Rightarrow> pending_table \<Rightarrow> receivable_iterator \<Rightarrow> (pending_key \<times> pending_info) list" where
  "receivable_take 0 t it = []"
| "receivable_take (Suc n) t it =
     (case receivable_next t it of
        (None, _) \<Rightarrow> []
      | (Some e, it') \<Rightarrow> e # receivable_take n t it')"

section \<open>What the iterator of an account returns\<close>

abbreviation of_account :: "account \<Rightarrow> pending_key \<times> pending_info \<Rightarrow> bool" where
  "of_account a \<equiv> \<lambda>(k, _). receiving_account k = a"

lemma inc_Some: "inc h = Some h' \<Longrightarrow> (h' \<le> x \<longleftrightarrow> h < x)"
  by (auto simp: inc_def inc_less_eq_iff split: if_splits)

lemma inc_None: "inc h = None \<Longrightarrow> \<not> h < x"
  by (metis inc_def max_word_max linorder_not_less option.simps(3))

lemma receivable_take_later:
  assumes "\<not> ri_is_first it" "ri_actual_account it = Some a"
    and "sorted (map fst (ri_inner it))" "distinct (map fst (ri_inner it))"
    and "ri_next_hash it = None \<longrightarrow> takeWhile (of_account a) (ri_inner it) = []"
  shows "receivable_take n t it = take n (takeWhile (of_account a) (ri_inner it))"
  using assms
proof (induction n arbitrary: it)
  case (Suc n)
  show ?case
  proof (cases "ri_next_hash it")
    case None
    then show ?thesis
      using Suc.prems(5) by (simp add: receivable_next_def)
  next
    case (Some h)
    show ?thesis
    proof (cases "ri_inner it")
      case Nil
      then show ?thesis
        using Suc.prems by (simp add: receivable_next_def Some)
    next
      case (Cons e rest)
      obtain k i where e: "e = (k, i)"
        by (cases e)
      show ?thesis
      proof (cases "receiving_account k = a")
        case True
        let ?it = "it\<lparr>ri_inner := rest, ri_next_hash := inc (send_block_hash k)\<rparr>"
        have last: "takeWhile (of_account a) rest = []" if "inc (send_block_hash k) = None"
        proof (cases rest)
          case (Cons e' rest')
          obtain a' h' i' where e': "e' = (PendingKey a' h', i')"
            by (metis pending_key.exhaust surj_pair)
          have "k < PendingKey a' h'"
            using Suc.prems(3,4) \<open>ri_inner it = e # rest\<close> Cons e e' by auto
          then have "a' \<noteq> a"
            using True inc_None [OF that, of h'] by (cases k) (auto simp: less_pending_key_iff)
          then show ?thesis
            by (simp add: Cons e')
        qed simp
        have "receivable_take n t ?it = take n (takeWhile (of_account a) rest)"
          using Suc.IH [of ?it] Suc.prems Cons last by simp
        then show ?thesis
          using Suc.prems True by (simp add: receivable_next_def Some Cons e)
      next
        case False
        then show ?thesis
          using Suc.prems by (simp add: receivable_next_def Some Cons e)
      qed
    qed
  qed
qed simp

lemma takeWhile_of_account:
  assumes "sorted (map fst xs)" and "\<forall>e\<in>set xs. a \<le> receiving_account (fst e)"
  shows "takeWhile (of_account a) xs = filter (of_account a) xs"
  using assms
proof (induction xs)
  case (Cons x xs)
  obtain k i where x: "x = (k, i)"
    by (cases x)
  show ?case
  proof (cases "receiving_account k = a")
    case True
    then show ?thesis
      using Cons x by simp
  next
    case False
    have "receiving_account k < receiving_account k' \<or> receiving_account k = receiving_account k'"
      if "(k', i') \<in> set xs" for k' i'
    proof -
      have "k \<le> k'"
        using Cons.prems(1) that x by force
      then show ?thesis
        by (cases k; cases k') (auto split: if_splits)
    qed
    then have "filter (of_account a) xs = []"
      using False Cons.prems(2) x by (fastforce simp: filter_empty_conv)
    with False show ?thesis
      by (simp add: x)
  qed
qed simp

lemma receivable_take_account:
  "receivable_take n t (account_receivable_upper_bound t a h)
   = take n (filter (\<lambda>(k, _). receiving_account k = a \<and> h < send_block_hash k) (sorted_list_of_fmap t))"
proof (cases "inc h")
  case None
  then have "filter (\<lambda>(k, _). receiving_account k = a \<and> h < send_block_hash k) (sorted_list_of_fmap t) = []"
    using inc_None [OF None] by (simp add: filter_empty_conv split_beta)
  then show ?thesis
    by (cases n) (simp_all add: account_receivable_upper_bound_def receivable_iterator_new_def
        receivable_next_def None)
next
  case (Some h')
  let ?xs = "entries_from (PendingKey a h') t"
  have ge: "\<forall>e\<in>set ?xs. a \<le> receiving_account (fst e)"
  proof
    fix e
    assume "e \<in> set ?xs"
    then have "PendingKey a h' \<le> fst e"
      using set_entries_from [of "fst e" "snd e" "PendingKey a h'" t] by simp
    then show "a \<le> receiving_account (fst e)"
      by (cases "fst e") (auto split: if_splits)
  qed
  have "filter (\<lambda>(k, _). receiving_account k = a \<and> h < send_block_hash k) (sorted_list_of_fmap t)
      = filter (of_account a) ?xs"
    unfolding entries_from_filter filter_filter
  proof (rule filter_cong)
    fix e
    show "(case e of (k, _) \<Rightarrow> receiving_account k = a \<and> h < send_block_hash k)
        = ((case e of (k', _) \<Rightarrow> PendingKey a h' \<le> k') \<and> of_account a e)"
      using inc_Some [OF Some] by (cases e; cases "fst e") auto
  qed simp
  also have "\<dots> = takeWhile (of_account a) ?xs"
    by (rule takeWhile_of_account [symmetric]) (use ge in \<open>simp_all add: sorted_entries_from\<close>)
  also have "receivable_take n t (account_receivable_upper_bound t a h) = take n \<dots>"
  proof (cases n)
    case (Suc m)
    let ?it = "account_receivable_upper_bound t a h"
    show ?thesis
    proof (cases ?xs)
      case Nil
      then show ?thesis
        by (simp add: Suc account_receivable_upper_bound_def receivable_iterator_new_def
            receivable_next_def Some)
    next
      case (Cons e rest)
      obtain k i where e: "e = (k, i)"
        by (cases e)
      have "sorted (map fst rest)" "distinct (map fst rest)"
        using sorted_entries_from [of "PendingKey a h'" t]
          distinct_entries_from [of "PendingKey a h'" t] Cons by simp_all
      then have "receivable_take m t (?it\<lparr>ri_is_first := False, ri_inner := rest\<rparr>)
          = take m (takeWhile (of_account a) rest)"
        by (subst receivable_take_later [where a = a])
          (simp_all add: account_receivable_upper_bound_def receivable_iterator_new_def Some)
      then show ?thesis
        using Cons e by (simp add: Suc account_receivable_upper_bound_def
            receivable_iterator_new_def receivable_next_def Some)
    qed
  qed simp
  finally show ?thesis
    by simp
qed

lemma receivable_exists_iff:
  "receivable_exists l a \<longleftrightarrow> (\<exists>h. h \<noteq> 0 \<and> fmlookup (l_pending l) (PendingKey a h) \<noteq> None)"
proof -
  let ?t = "l_pending l"
  let ?f = "filter (\<lambda>(k, _). receiving_account k = a \<and> 0 < send_block_hash k) (sorted_list_of_fmap ?t)"
  have "receivable_exists l a \<longleftrightarrow> receivable_take 1 ?t (account_receivable_upper_bound ?t a 0) \<noteq> []"
    by (simp add: receivable_exists_def split: prod.splits option.splits)
  also have "\<dots> \<longleftrightarrow> ?f \<noteq> []"
    by (simp add: receivable_take_account take_eq_Nil)
  also have "\<dots> \<longleftrightarrow> (\<exists>k i. (k, i) \<in> set (sorted_list_of_fmap ?t) \<and> receiving_account k = a \<and> 0 < send_block_hash k)"
    by (auto simp: filter_empty_conv)
  also have "\<dots> \<longleftrightarrow> (\<exists>h. h \<noteq> 0 \<and> fmlookup ?t (PendingKey a h) \<noteq> None)"
    by (simp add: set_sorted_list_of_fmap word_gt_0 ex_simps)
      (metis pending_key.collapse pending_key.sel not_Some_eq)
  finally show ?thesis .
qed

section \<open>Properties\<close>

text \<open>
  C34. Listing what an account can receive after a given hash, the way the iterator walks the table
  from one entry to the next, gives exactly the entries of that account with a larger hash, in the
  order of the table; and the test whether an account can receive anything agrees with the table.
\<close>

theorem receivable_listing_exact:
  "receivable_take n (l_pending l) (account_receivable_upper_bound (l_pending l) a h)
     = take n (filter (\<lambda>(k, _). receiving_account k = a \<and> h < send_block_hash k) (sorted_list_of_fmap (l_pending l))) \<and>
   (receivable_exists l a \<longleftrightarrow> (\<exists>g. g \<noteq> 0 \<and> fmlookup (l_pending l) (PendingKey a g) \<noteq> None))"
  using receivable_take_account receivable_exists_iff by blast

end
