(* ===== verification/Confirmed_Set.thy ===== *)
theory Confirmed_Set
  imports Receivables
begin

text \<open>
  The confirmed part of the ledger: \<open>LedgerSetConfirmed\<close> and its receivable iterator
  (\<open>ledger/src/ledger_set_confirmed.rs\<close>), the dependencies of a block
  (\<open>dependent_blocks_finder.rs\<close>), and the balance queries of \<open>ledger.rs\<close> built on them.
\<close>

definition confirmed_get_block :: "ledger \<Rightarrow> block_hash \<Rightarrow> saved_block option" where
  "confirmed_get_block l h =
     do {
       b \<leftarrow> fmlookup (l_block l) h;
       i \<leftarrow> fmlookup (l_conf l) (saved_account b);
       if saved_height b \<le> ch_height i then Some b else None
     }"

definition confirmed_account_head :: "ledger \<Rightarrow> account \<Rightarrow> block_hash option" where
  "confirmed_account_head l a = map_option ch_frontier (fmlookup (l_conf l) a)"

text \<open>The outer \<open>None\<close> is the panic "Head block not in ledger!".\<close>

definition confirmed_account_height :: "ledger \<Rightarrow> account \<Rightarrow> u64 option" where
  "confirmed_account_height l a =
     (case confirmed_account_head l a of
        None \<Rightarrow> Some 0
      | Some h \<Rightarrow> map_option saved_height (confirmed_get_block l h))"

definition confirmed_block_balance :: "ledger \<Rightarrow> block_hash \<Rightarrow> amount option" where
  "confirmed_block_balance l h =
     (if h = 0 then None else map_option saved_balance (confirmed_get_block l h))"

definition confirmed_block_exists :: "ledger \<Rightarrow> block_hash \<Rightarrow> bool" where
  "confirmed_block_exists l h \<longleftrightarrow> confirmed_get_block l h \<noteq> None"

definition confirmed_exists_or_pruned :: "ledger \<Rightarrow> block_hash \<Rightarrow> bool" where
  "confirmed_exists_or_pruned l h =
     (if fmlookup (l_pruned l) h \<noteq> None then True else confirmed_block_exists l h)"

definition confirmed_account_balance :: "ledger \<Rightarrow> account \<Rightarrow> amount option" where
  "confirmed_account_balance l a =
     do { h \<leftarrow> confirmed_account_head l a; map_option saved_balance (confirmed_get_block l h) }"

section \<open>Confirmed receivable entries\<close>

text \<open>The loop over the cursor skips the entries whose send block is not confirmed.\<close>

fun skip_unconfirmed :: "ledger \<Rightarrow> (pending_key \<times> pending_info) list \<Rightarrow> (pending_key \<times> pending_info) option" where
  "skip_unconfirmed l [] = None"
| "skip_unconfirmed l ((k, i) # rest) =
     (if \<not> confirmed_block_exists l (send_block_hash k) then skip_unconfirmed l rest else Some (k, i))"

definition first_receivable_lower_bound ::
  "ledger \<Rightarrow> account \<Rightarrow> block_hash \<Rightarrow> (pending_key \<times> pending_info) option" where
  "first_receivable_lower_bound l a h = skip_unconfirmed l (entries_from (PendingKey a h) (l_pending l))"

record confirmed_receivable_iterator =
  cri_requested_account :: account
  cri_actual_account :: "account option"
  cri_next_hash :: "block_hash option"

definition confirmed_receivable_lower_bound :: "account \<Rightarrow> confirmed_receivable_iterator" where
  "confirmed_receivable_lower_bound a =
     \<lparr>cri_requested_account = a, cri_actual_account = None, cri_next_hash = Some 0\<rparr>"

definition confirmed_receivable_next ::
  "ledger \<Rightarrow> confirmed_receivable_iterator
    \<Rightarrow> (pending_key \<times> pending_info) option \<times> confirmed_receivable_iterator" where
  "confirmed_receivable_next l it =
     (case cri_next_hash it of
        None \<Rightarrow> (None, it)
      | Some h \<Rightarrow>
          (case first_receivable_lower_bound l
                  (unwrap_or (cri_actual_account it) (cri_requested_account it)) h of
             None \<Rightarrow> (None, it)
           | Some (k, i) \<Rightarrow>
               (case cri_actual_account it of
                  Some a \<Rightarrow>
                    if receiving_account k = a
                    then (Some (k, i), it\<lparr>cri_next_hash := inc (send_block_hash k)\<rparr>)
                    else (None, it)
                | None \<Rightarrow>
                    (Some (k, i), it\<lparr>cri_actual_account := Some (receiving_account k),
                                    cri_next_hash := inc (send_block_hash k)\<rparr>))))"

section \<open>Dependencies\<close>

definition find_dependent_blocks :: "ledger_constants \<Rightarrow> saved_block \<Rightarrow> dependent_blocks" where
  "find_dependent_blocks c b = saved_dependent_blocks (lc_epochs c) (lc_genesis_account c) b"

definition dependents_is_send :: "ledger \<Rightarrow> state_block \<Rightarrow> bool" where
  "dependents_is_send l st =
     (if sth_previous (stb_hashables st) = 0 then False
      else sth_balance (stb_hashables st)
             < unwrap_or (block_balance l (sth_previous (stb_hashables st))) 0)"

definition find_dependent_blocks_for_unsaved_block ::
  "ledger_constants \<Rightarrow> ledger \<Rightarrow> block \<Rightarrow> dependent_blocks" where
  "find_dependent_blocks_for_unsaved_block c l b =
     (case b of
        LegacySend i \<Rightarrow> \<lparr>dep_previous = sh_previous (sb_hashables i), dep_link = 0\<rparr>
      | LegacyChange i \<Rightarrow> \<lparr>dep_previous = ch_previous (cb_hashables i), dep_link = 0\<rparr>
      | LegacyReceive i \<Rightarrow>
          \<lparr>dep_previous = rh_previous (rb_hashables i), dep_link = rh_source (rb_hashables i)\<rparr>
      | LegacyOpen i \<Rightarrow>
          if oh_account (ob_hashables i) = lc_genesis_account c
          then \<lparr>dep_previous = 0, dep_link = 0\<rparr>
          else \<lparr>dep_previous = oh_source (ob_hashables i), dep_link = 0\<rparr>
      | State st \<Rightarrow>
          \<lparr>dep_previous = sth_previous (stb_hashables st),
           dep_link = (if \<not> is_epoch_link (lc_epochs c) (sth_link (stb_hashables st))
                          \<and> \<not> dependents_is_send l st
                       then sth_link (stb_hashables st) else 0)\<rparr>)"

definition dependents_confirmed :: "ledger_constants \<Rightarrow> ledger \<Rightarrow> saved_block \<Rightarrow> bool" where
  "dependents_confirmed c l b \<longleftrightarrow>
     list_all (confirmed_exists_or_pruned l) (dependent_iter (find_dependent_blocks c b))"

definition dependents_confirmed_for_unsaved_block :: "ledger_constants \<Rightarrow> ledger \<Rightarrow> block \<Rightarrow> bool" where
  "dependents_confirmed_for_unsaved_block c l b \<longleftrightarrow>
     list_all (confirmed_exists_or_pruned l)
       (dependent_iter (find_dependent_blocks_for_unsaved_block c l b))"

section \<open>Balance queries\<close>

text \<open>\<open>account_receivable\<close>: the sum over the iterator, which ends after at most all entries.\<close>

definition account_receivable :: "ledger \<Rightarrow> account \<Rightarrow> bool \<Rightarrow> amount" where
  "account_receivable l a only_confirmed =
     fold (\<lambda>(k, i) result.
         if \<not> only_confirmed \<or> confirmed_exists_or_pruned l (send_block_hash k)
         then result + pi_amount i else result)
       (receivable_take (Suc (length (sorted_list_of_fmap (l_pending l)))) (l_pending l)
          (account_receivable_upper_bound (l_pending l) a 0))
       0"

definition weight_exact :: "ledger \<Rightarrow> public_key \<Rightarrow> amount" where
  "weight_exact l r = unwrap_or (fmlookup (rw_store (l_weights l)) r) 0"

definition latest_root :: "ledger \<Rightarrow> account \<Rightarrow> root" where
  "latest_root l a = (case get_account l a of Some i \<Rightarrow> ai_head i | None \<Rightarrow> a)"

definition version :: "ledger \<Rightarrow> block_hash \<Rightarrow> epoch" where
  "version l h = unwrap_or (map_option saved_epoch (get_block l h)) Epoch0"

text \<open>The walk down the chain from the cemented frontier.\<close>

partial_function (option) find_receive_walk ::
  "ledger \<Rightarrow> block_hash \<Rightarrow> saved_block option \<Rightarrow> saved_block option option" where
  "find_receive_walk l send_hash current =
     (case current of
        None \<Rightarrow> Some None
      | Some b \<Rightarrow>
          if bd_is_receive (sd_details (svb_sideband b)) \<and> saved_source b = Some send_hash
          then Some (Some b)
          else find_receive_walk l send_hash (get_block l (previous (svb_block b))))"

definition find_receive_block_by_send_hash ::
  "ledger \<Rightarrow> account \<Rightarrow> block_hash \<Rightarrow> saved_block option option" where
  "find_receive_block_by_send_hash l destination send_hash =
     (case fmlookup (l_conf l) destination of
        None \<Rightarrow> Some None
      | Some i \<Rightarrow> find_receive_walk l send_hash (get_block l (ch_frontier i)))"

section \<open>Properties\<close>

lemma confirmed_get_block_iff:
  "confirmed_get_block l h = Some b \<longleftrightarrow>
     fmlookup (l_block l) h = Some b \<and>
     (\<exists>i. fmlookup (l_conf l) (saved_account b) = Some i \<and> saved_height b \<le> ch_height i)"
  by (auto simp: confirmed_get_block_def bind_eq_Some_conv)

lemma confirmed_subset: "confirmed_block_exists l h \<Longrightarrow> block_exists l h"
  by (auto simp: confirmed_block_exists_def block_exists_def confirmed_get_block_def bind_eq_Some_conv
      split: option.splits)

lemma skip_unconfirmed_Some:
  "skip_unconfirmed l xs = Some (k, i) \<Longrightarrow> (k, i) \<in> set xs \<and> confirmed_block_exists l (send_block_hash k)"
  by (induction l xs rule: skip_unconfirmed.induct) (auto split: if_splits)

text \<open>Every entry the confirmed iterator returns belongs to a confirmed send block.\<close>

lemma confirmed_receivable_next_confirmed:
  assumes "confirmed_receivable_next l it = (Some (k, i), it')"
  shows "fmlookup (l_pending l) k = Some i \<and> confirmed_block_exists l (send_block_hash k)
    \<and> cri_actual_account it' = Some (receiving_account k)"
  using assms
  by (auto simp: confirmed_receivable_next_def first_receivable_lower_bound_def set_entries_from
      split: option.splits if_splits dest!: skip_unconfirmed_Some)

lemma account_receivable_sum:
  assumes "\<not> only_confirmed"
  shows "account_receivable l a only_confirmed =
    (\<Sum>(k, i)\<leftarrow>filter (\<lambda>(k, _). receiving_account k = a \<and> 0 < send_block_hash k)
        (sorted_list_of_fmap (l_pending l)). pi_amount i)"
proof -
  have sum: "fold (\<lambda>(k, i) r. r + pi_amount i) xs r = r + (\<Sum>(k, i)\<leftarrow>xs. pi_amount i)"
    for xs :: "(pending_key \<times> pending_info) list" and r
    by (induction xs arbitrary: r) (auto simp: add.assoc)
  have "length (filter P xs) \<le> Suc (length xs)" for P and xs :: "(pending_key \<times> pending_info) list"
    by (rule le_SucI) (rule length_filter_le)
  then show ?thesis
    using assms by (simp add: account_receivable_def receivable_take_account sum)
qed

end
