(* ===== verification/Cementing.thy ===== *)
theory Cementing
  imports Confirmed_Set
begin

text \<open>
  Cementing confirmed blocks (\<open>ledger/src/block_cementer.rs\<close>): a depth-first walk over
  unconfirmed dependencies with a bounded stack. The stack is a list with its back first.
  While the walk runs, the write transaction may be refreshed and other writers may change the
  ledger: \<open>refresh n l\<close> is what round \<open>n\<close> finds after it, or \<open>None\<close> if it did not refresh.
\<close>

record cementer =
  cm_ledger :: ledger
  cm_stack :: "block_hash list"
  cm_result :: "saved_block list"

definition push_dependent :: "ledger \<Rightarrow> nat \<Rightarrow> block_hash \<Rightarrow> block_hash list \<Rightarrow> block_hash list" where
  "push_dependent l max_blocks d stack =
     (if d \<noteq> 0 \<and> \<not> confirmed_exists_or_pruned l d then
        (if length (d # stack) > max_blocks then butlast (d # stack) else d # stack)
      else stack)"

definition cement_block :: "saved_block \<Rightarrow> ledger \<Rightarrow> ledger" where
  "cement_block b l =
     (conf_put (saved_account b) \<lparr>ch_height = saved_height b, ch_frontier = hash (svb_block b)\<rparr> l)
       \<lparr>l_cemented_count := l_cemented_count l + 1\<rparr>"

text \<open>One round for the block on top of the stack; \<open>None\<close> is the panic on a missing block.\<close>

definition cement_round :: "ledger_constants \<Rightarrow> nat \<Rightarrow> cementer \<Rightarrow> cementer option" where
  "cement_round c max_blocks s =
     (case cm_stack s of
        [] \<Rightarrow> Some s
      | h # rest \<Rightarrow>
          (case get_block (cm_ledger s) h of
             None \<Rightarrow> None
           | Some b \<Rightarrow>
               (let stack = fold (push_dependent (cm_ledger s) max_blocks)
                              (dependent_iter (find_dependent_blocks c b)) (h # rest)
                in if stack \<noteq> [] \<and> hd stack = h then
                     (if \<not> confirmed_exists_or_pruned (cm_ledger s) h
                      then Some \<lparr>cm_ledger = cement_block b (cm_ledger s), cm_stack = tl stack,
                                 cm_result = cm_result s @ [b]\<rparr>
                      else Some (s\<lparr>cm_stack := tl stack\<rparr>))
                   else Some (s\<lparr>cm_stack := stack\<rparr>))))"

partial_function (option) cement_loop ::
  "ledger_constants \<Rightarrow> (nat \<Rightarrow> ledger \<Rightarrow> ledger option) \<Rightarrow> block_hash \<Rightarrow> nat \<Rightarrow> nat \<Rightarrow> cementer
    \<Rightarrow> cementer option option" where
  "cement_loop c refresh target max_blocks n s =
     (if cm_stack s = [] then Some (Some s)
      else case cement_round c max_blocks s of
        None \<Rightarrow> Some None
      | Some s' \<Rightarrow>
          (case refresh n (cm_ledger s') of
             Some l \<Rightarrow>
               if \<not> block_exists l target then Some (Some (s'\<lparr>cm_ledger := l\<rparr>))
               else if length (cm_result s') \<ge> max_blocks then Some (Some (s'\<lparr>cm_ledger := l\<rparr>))
               else cement_loop c refresh target max_blocks (Suc n) (s'\<lparr>cm_ledger := l\<rparr>)
           | None \<Rightarrow>
               if length (cm_result s') \<ge> max_blocks then Some (Some s')
               else cement_loop c refresh target max_blocks (Suc n) s'))"

definition confirm_max ::
  "ledger_constants \<Rightarrow> (nat \<Rightarrow> ledger \<Rightarrow> ledger option) \<Rightarrow> ledger \<Rightarrow> block_hash \<Rightarrow> nat
    \<Rightarrow> cementer option option" where
  "confirm_max c refresh l target max_blocks =
     cement_loop c refresh target max_blocks 0
       \<lparr>cm_ledger = l, cm_stack = [target], cm_result = []\<rparr>"

definition confirm :: "ledger_constants \<Rightarrow> (nat \<Rightarrow> ledger \<Rightarrow> ledger option) \<Rightarrow> ledger \<Rightarrow> block_hash
    \<Rightarrow> cementer option option" where
  "confirm c refresh l target = confirm_max c refresh l target (1024 * 128)"

end
