(* ===== verification/Validation.thy ===== *)
theory Validation
  imports Receivables
begin

text \<open>
  Validation of a block before it enters the ledger:
  \<open>ledger/src/block_insertion/validation\<close>, and the factory that gathers what the validator
  looks at (\<open>validator_factory.rs\<close>). One definition per method of \<open>BlockValidator\<close>, in the
  order of the source files. \<open>verify\<close> is the Ed25519 check of the third-party crate.
\<close>

datatype block_status =
    Progress
  | BadSignature
  | Old
  | NegativeSpend
  | Fork
  | Unreceivable
  | GapPrevious
  | GapSource
  | GapEpochOpenPending
  | OpenedBurnAccount
  | BalanceMismatch
  | RepresentativeMismatch
  | BlockPosition
  | InsufficientWork

type_synonym ed25519_verify = "public_key \<Rightarrow> block_hash \<Rightarrow> signature \<Rightarrow> bool"

record block_validator =
  bv_block :: block
  bv_epochs :: epochs
  bv_work :: work_thresholds
  bv_block_exists :: bool
  bv_account :: account
  bv_previous_block :: "saved_block option"
  bv_old_account_info :: "account_info option"
  bv_pending_receive_info :: "pending_info option"
  bv_any_pending_exists :: bool
  bv_source_block_exists :: bool
  bv_seconds_since_epoch :: u64

record block_insert_instructions =
  ii_account :: account
  ii_old_account_info :: account_info
  ii_set_account_info :: account_info
  ii_delete_pending :: "pending_key option"
  ii_insert_pending :: "(pending_key \<times> pending_info) option"
  ii_set_sideband :: block_sideband
  ii_is_epoch_block :: bool

section \<open>Helpers\<close>

definition account_exists :: "block_validator \<Rightarrow> bool" where
  "account_exists v \<longleftrightarrow> bv_old_account_info v \<noteq> None"

definition is_new_account :: "block_validator \<Rightarrow> bool" where
  "is_new_account v \<longleftrightarrow> bv_old_account_info v = None"

definition previous_balance :: "block_validator \<Rightarrow> amount" where
  "previous_balance v = unwrap_or (map_option saved_balance (bv_previous_block v)) 0"

definition has_epoch_link :: "block_validator \<Rightarrow> state_block \<Rightarrow> bool" where
  "has_epoch_link v st \<longleftrightarrow> is_epoch_link (bv_epochs v) (sth_link (stb_hashables st))"

definition bv_is_send :: "block_validator \<Rightarrow> bool" where
  "bv_is_send v =
     (case bv_block v of
        LegacySend _ \<Rightarrow> True
      | State st \<Rightarrow>
          (case bv_old_account_info v of
             Some info \<Rightarrow> sth_balance (stb_hashables st) < ai_balance info
           | None \<Rightarrow> False)
      | _ \<Rightarrow> False)"

definition bv_is_receive :: "block_validator \<Rightarrow> bool" where
  "bv_is_receive v =
     (case bv_block v of
        LegacyReceive _ \<Rightarrow> True
      | LegacyOpen _ \<Rightarrow> True
      | State st \<Rightarrow>
          if has_epoch_link v st then False
          else (case bv_old_account_info v of
             Some info \<Rightarrow> sth_balance (stb_hashables st) \<ge> ai_balance info
               \<and> sth_link (stb_hashables st) \<noteq> 0
           | None \<Rightarrow> True)
      | _ \<Rightarrow> False)"

definition bv_source_epoch :: "block_validator \<Rightarrow> epoch" where
  "bv_source_epoch v = unwrap_or (map_option pi_epoch (bv_pending_receive_info v)) Epoch0"

definition pending_amount :: "block_validator \<Rightarrow> amount" where
  "pending_amount v = unwrap_or (map_option pi_amount (bv_pending_receive_info v)) 0"

definition amount_received :: "block_validator \<Rightarrow> amount" where
  "amount_received v =
     (case bv_block v of
        LegacyReceive _ \<Rightarrow> pending_amount v
      | LegacyOpen _ \<Rightarrow> pending_amount v
      | State st \<Rightarrow>
          if previous_balance v < sth_balance (stb_hashables st)
          then sth_balance (stb_hashables st) - previous_balance v else 0
      | _ \<Rightarrow> 0)"

definition amount_sent :: "block_validator \<Rightarrow> amount" where
  "amount_sent v =
     (case bv_old_account_info v of
        None \<Rightarrow> 0
      | Some info \<Rightarrow>
          (case (case bv_block v of
                   LegacySend b \<Rightarrow> Some (sh_balance (sb_hashables b))
                 | State b \<Rightarrow> Some (sth_balance (stb_hashables b))
                 | _ \<Rightarrow> None) of
             None \<Rightarrow> 0
           | Some bal \<Rightarrow> if bal < ai_balance info then ai_balance info - bal else 0))"

definition old_balance :: "block_validator \<Rightarrow> amount" where
  "old_balance v = unwrap_or (map_option ai_balance (bv_old_account_info v)) 0"

definition new_balance :: "block_validator \<Rightarrow> amount" where
  "new_balance v = old_balance v + amount_received v - amount_sent v"

definition is_epoch_block :: "block_validator \<Rightarrow> bool" where
  "is_epoch_block v =
     (case bv_block v of
        State st \<Rightarrow> has_epoch_link v st \<and> previous_balance v = sth_balance (stb_hashables st)
      | _ \<Rightarrow> False)"

definition block_epoch_version :: "block_validator \<Rightarrow> epoch" where
  "block_epoch_version v =
     (case bv_block v of
        State st \<Rightarrow> unwrap_or (epochs_epoch (bv_epochs v) (sth_link (stb_hashables st))) Invalid
      | _ \<Rightarrow> Epoch0)"

definition old_epoch_version :: "block_validator \<Rightarrow> epoch" where
  "old_epoch_version v = unwrap_or (map_option ai_epoch (bv_old_account_info v)) Epoch0"

definition bv_epoch :: "block_validator \<Rightarrow> epoch" where
  "bv_epoch v =
     (if is_epoch_block v then block_epoch_version v
      else max (old_epoch_version v) (bv_source_epoch v))"

definition bv_open_block :: "block_validator \<Rightarrow> block_hash" where
  "bv_open_block v =
     (case bv_old_account_info v of
        Some info \<Rightarrow> ai_open_block info
      | None \<Rightarrow> hash (bv_block v))"

definition old_representative :: "block_validator \<Rightarrow> public_key" where
  "old_representative v = unwrap_or (map_option ai_representative (bv_old_account_info v)) 0"

definition new_representative :: "block_validator \<Rightarrow> public_key" where
  "new_representative v = unwrap_or (representative_field (bv_block v)) (old_representative v)"

definition bv_amount :: "block_validator \<Rightarrow> amount" where
  "bv_amount v =
     (if old_balance v > new_balance v then old_balance v - new_balance v
      else new_balance v - old_balance v)"

definition delete_received_pending_info :: "block_validator \<Rightarrow> pending_key option" where
  "delete_received_pending_info v =
     (if bv_is_receive v then Some (PendingKey (bv_account v) (source_or_link (bv_block v))) else None)"

definition new_pending_info :: "block_validator \<Rightarrow> (pending_key \<times> pending_info) option" where
  "new_pending_info v =
     (case bv_block v of
        State _ \<Rightarrow>
          (if bv_is_send v
           then Some (pending_key_for_send_block (bv_block v),
                      \<lparr>pi_source = bv_account v, pi_amount = bv_amount v, pi_epoch = bv_epoch v\<rparr>)
           else None)
      | LegacySend b \<Rightarrow>
          Some (PendingKey (sh_destination (sb_hashables b)) (sb_hash b),
                \<lparr>pi_source = bv_account v, pi_amount = amount_sent v, pi_epoch = Epoch0\<rparr>)
      | _ \<Rightarrow> None)"

definition new_block_count :: "block_validator \<Rightarrow> u64" where
  "new_block_count v = unwrap_or (map_option ai_block_count (bv_old_account_info v)) 0 + 1"

definition bv_block_details :: "block_validator \<Rightarrow> block_details" where
  "bv_block_details v =
     block_details_new (bv_epoch v) (bv_is_send v) (bv_is_receive v) (is_epoch_block v)"

definition new_sideband :: "block_validator \<Rightarrow> block_sideband" where
  "new_sideband v =
     \<lparr>sd_height = new_block_count v, sd_timestamp = bv_seconds_since_epoch v, sd_successor = 0,
      sd_account = bv_account v, sd_balance = new_balance v, sd_details = bv_block_details v,
      sd_source_epoch = bv_source_epoch v\<rparr>"

definition new_account_info :: "block_validator \<Rightarrow> account_info" where
  "new_account_info v =
     \<lparr>ai_head = hash (bv_block v), ai_representative = new_representative v,
      ai_open_block = bv_open_block v, ai_balance = new_balance v,
      ai_modified = bv_seconds_since_epoch v, ai_block_count = new_block_count v,
      ai_epoch = bv_epoch v\<rparr>"

definition balance_changed :: "block_validator \<Rightarrow> bool" where
  "balance_changed v =
     (case bv_old_account_info v of
        Some info \<Rightarrow> new_balance v \<noteq> ai_balance info
      | None \<Rightarrow> False)"

section \<open>Signatures\<close>

text \<open>\<open>Epochs::validate_epoch_signature\<close>: fails for a link that is no epoch link.\<close>

definition validate_epoch_signature :: "ed25519_verify \<Rightarrow> epochs \<Rightarrow> block \<Rightarrow> bool" where
  "validate_epoch_signature verify es b =
     (case epoch_signer es (unwrap_or (link_field b) 0) of
        None \<Rightarrow> False
      | Some s \<Rightarrow> verify s (hash b) (signature b))"

definition verify_signature :: "ed25519_verify \<Rightarrow> state_block \<Rightarrow> bool" where
  "verify_signature verify st \<longleftrightarrow>
     verify (sth_account (stb_hashables st)) (stb_hash st) (stb_signature st)"

section \<open>Rules\<close>

definition ensure_epoch_block_candidate_is_signed_by_owner_or_epoch_account ::
  "ed25519_verify \<Rightarrow> block_validator \<Rightarrow> block_status + unit" where
  "ensure_epoch_block_candidate_is_signed_by_owner_or_epoch_account verify v =
     (case bv_block v of
        State st \<Rightarrow>
          if has_epoch_link v st \<and> (\<not> verify_signature verify st
               \<and> \<not> validate_epoch_signature verify (bv_epochs v) (bv_block v))
          then Inl BadSignature else Inr ()
      | _ \<Rightarrow> Inr ())"

definition ensure_previous_block_exists_for_epoch_block_candidate ::
  "block_validator \<Rightarrow> block_status + unit" where
  "ensure_previous_block_exists_for_epoch_block_candidate v =
     (case bv_block v of
        State st \<Rightarrow>
          if has_epoch_link v st \<and> previous (bv_block v) \<noteq> 0 \<and> bv_previous_block v = None
          then Inl GapPrevious else Inr ()
      | _ \<Rightarrow> Inr ())"

definition epoch_block_pre_checks :: "ed25519_verify \<Rightarrow> block_validator \<Rightarrow> block_status + unit" where
  "epoch_block_pre_checks verify v =
     check_all [ensure_epoch_block_candidate_is_signed_by_owner_or_epoch_account verify v,
                ensure_previous_block_exists_for_epoch_block_candidate v]"

definition ensure_block_does_not_exist_yet :: "block_validator \<Rightarrow> block_status + unit" where
  "ensure_block_does_not_exist_yet v = (if bv_block_exists v then Inl Old else Inr ())"

definition ensure_valid_predecessor :: "block_validator \<Rightarrow> block_status + unit" where
  "ensure_valid_predecessor v =
     (if previous (bv_block v) = 0 then Inr ()
      else case bv_previous_block v of
        None \<Rightarrow> Inl GapPrevious
      | Some p \<Rightarrow>
          if \<not> valid_predecessor (bv_block v) (block_type (svb_block p)) then Inl BlockPosition
          else Inr ())"

definition ensure_valid_signature :: "ed25519_verify \<Rightarrow> block_validator \<Rightarrow> block_status + unit" where
  "ensure_valid_signature verify v =
     ensure (if is_epoch_block v then validate_epoch_signature verify (bv_epochs v) (bv_block v)
             else verify (bv_account v) (hash (bv_block v)) (signature (bv_block v)))
       BadSignature"

definition ensure_block_is_not_for_burn_account :: "block_validator \<Rightarrow> block_status + unit" where
  "ensure_block_is_not_for_burn_account v =
     (if bv_account v = 0 then Inl OpenedBurnAccount else Inr ())"

definition ensure_account_exists_for_none_open_block :: "block_validator \<Rightarrow> block_status + unit" where
  "ensure_account_exists_for_none_open_block v =
     (if \<not> is_open (bv_block v) \<and> is_new_account v then Inl GapPrevious else Inr ())"

definition ensure_no_double_account_open :: "block_validator \<Rightarrow> block_status + unit" where
  "ensure_no_double_account_open v =
     (if account_exists v \<and> is_open (bv_block v) then Inl Fork else Inr ())"

definition ensure_previous_block_exists :: "block_validator \<Rightarrow> block_status + unit" where
  "ensure_previous_block_exists v =
     (if account_exists v \<and> bv_previous_block v = None then Inl GapPrevious
      else if is_new_account v \<and> previous (bv_block v) \<noteq> 0 then Inl GapPrevious
      else Inr ())"

definition ensure_previous_block_is_account_head :: "block_validator \<Rightarrow> block_status + unit" where
  "ensure_previous_block_is_account_head v =
     (case bv_old_account_info v of
        Some info \<Rightarrow> if previous (bv_block v) \<noteq> ai_head info then Inl Fork else Inr ()
      | None \<Rightarrow> Inr ())"

definition ensure_previous_block_is_correct :: "block_validator \<Rightarrow> block_status + unit" where
  "ensure_previous_block_is_correct v =
     check_all [ensure_previous_block_exists v, ensure_previous_block_is_account_head v]"

definition ensure_open_block_has_link :: "block_validator \<Rightarrow> block_status + unit" where
  "ensure_open_block_has_link v =
     (case bv_block v of
        State st \<Rightarrow>
          if is_open (bv_block v) \<and> sth_link (stb_hashables st) = 0 then Inl GapSource else Inr ()
      | _ \<Rightarrow> Inr ())"

definition ensure_no_reveive_balance_change_without_link :: "block_validator \<Rightarrow> block_status + unit" where
  "ensure_no_reveive_balance_change_without_link v =
     (case bv_block v of
        State st \<Rightarrow>
          if sth_link (stb_hashables st) = 0 \<and> amount_received v \<noteq> 0 then Inl BalanceMismatch
          else Inr ()
      | _ \<Rightarrow> Inr ())"

definition ensure_source_block_exists :: "block_validator \<Rightarrow> block_status + unit" where
  "ensure_source_block_exists v =
     (if bv_is_receive v \<and> \<not> bv_source_block_exists v then Inl GapSource else Inr ())"

definition ensure_receive_block_receives_pending_amount :: "block_validator \<Rightarrow> block_status + unit" where
  "ensure_receive_block_receives_pending_amount v =
     (if bv_is_receive v then
        (case bv_pending_receive_info v of
           Some p \<Rightarrow> if amount_received v \<noteq> pi_amount p then Inl BalanceMismatch else Inr ()
         | None \<Rightarrow> Inl Unreceivable)
      else Inr ())"

definition ensure_legacy_source_is_epoch_0 :: "block_validator \<Rightarrow> block_status + unit" where
  "ensure_legacy_source_is_epoch_0 v =
     (if (case bv_block v of LegacyReceive _ \<Rightarrow> True | LegacyOpen _ \<Rightarrow> True | _ \<Rightarrow> False)
         \<and> unwrap_or (map_option pi_epoch (bv_pending_receive_info v)) Unspecified \<noteq> Epoch0
      then Inl Unreceivable else Inr ())"

definition ensure_pending_receive_is_correct :: "block_validator \<Rightarrow> block_status + unit" where
  "ensure_pending_receive_is_correct v =
     check_all [ensure_source_block_exists v, ensure_receive_block_receives_pending_amount v,
                ensure_legacy_source_is_epoch_0 v]"

definition ensure_sufficient_work :: "block_validator \<Rightarrow> block_status + unit" where
  "ensure_sufficient_work v =
     (if \<not> is_valid_pow (bv_work v) (bv_block v) (bv_block_details v) then Inl InsufficientWork
      else Inr ())"

definition ensure_no_negative_amount_send :: "block_validator \<Rightarrow> block_status + unit" where
  "ensure_no_negative_amount_send v =
     (case bv_block v of
        LegacySend b \<Rightarrow>
          if previous_balance v < sh_balance (sb_hashables b) then Inl NegativeSpend else Inr ()
      | _ \<Rightarrow> Inr ())"

definition ensure_epoch_block_does_not_change_representative :: "block_validator \<Rightarrow> block_status + unit" where
  "ensure_epoch_block_does_not_change_representative v =
     (case bv_block v of
        State st \<Rightarrow>
          if is_epoch_block v then
            (case bv_old_account_info v of
               Some info \<Rightarrow>
                 if sth_representative (stb_hashables st) \<noteq> ai_representative info
                 then Inl RepresentativeMismatch else Inr ()
             | None \<Rightarrow> Inr ())
          else Inr ()
      | _ \<Rightarrow> Inr ())"

definition ensure_epoch_open_has_burn_account_as_rep :: "block_validator \<Rightarrow> block_status + unit" where
  "ensure_epoch_open_has_burn_account_as_rep v =
     (case bv_block v of
        State st \<Rightarrow>
          if is_epoch_block v \<and> is_open (bv_block v) \<and> sth_representative (stb_hashables st) \<noteq> 0
          then Inl RepresentativeMismatch else Inr ()
      | _ \<Rightarrow> Inr ())"

definition ensure_epoch_open_has_pending_entry :: "block_validator \<Rightarrow> block_status + unit" where
  "ensure_epoch_open_has_pending_entry v =
     (if is_open (bv_block v) \<and> is_epoch_block v \<and> \<not> bv_any_pending_exists v
      then Inl GapEpochOpenPending else Inr ())"

definition ensure_valid_epoch_for_unopened_account :: "block_validator \<Rightarrow> block_status + unit" where
  "ensure_valid_epoch_for_unopened_account v =
     (if is_open (bv_block v) \<and> is_epoch_block v \<and> block_epoch_version v = Invalid
      then Inl BlockPosition else Inr ())"

definition ensure_epoch_upgrade_is_sequential_for_existing_account ::
  "block_validator \<Rightarrow> block_status + unit" where
  "ensure_epoch_upgrade_is_sequential_for_existing_account v =
     (if is_epoch_block v then
        (case bv_old_account_info v of
           Some info \<Rightarrow>
             if \<not> is_sequential (ai_epoch info) (block_epoch_version v) then Inl BlockPosition
             else Inr ()
         | None \<Rightarrow> Inr ())
      else Inr ())"

definition ensure_epoch_block_does_not_change_balance :: "block_validator \<Rightarrow> block_status + unit" where
  "ensure_epoch_block_does_not_change_balance v =
     (if is_epoch_block v \<and> balance_changed v then Inl BalanceMismatch else Inr ())"

definition ensure_valid_epoch_block :: "block_validator \<Rightarrow> block_status + unit" where
  "ensure_valid_epoch_block v =
     check_all [ensure_epoch_block_does_not_change_representative v,
                ensure_epoch_open_has_burn_account_as_rep v,
                ensure_epoch_open_has_pending_entry v,
                ensure_valid_epoch_for_unopened_account v,
                ensure_epoch_upgrade_is_sequential_for_existing_account v,
                ensure_epoch_block_does_not_change_balance v]"

definition create_instructions :: "block_validator \<Rightarrow> block_insert_instructions" where
  "create_instructions v =
     \<lparr>ii_account = bv_account v,
      ii_old_account_info = unwrap_or (bv_old_account_info v) account_info_default,
      ii_set_account_info = new_account_info v,
      ii_delete_pending = delete_received_pending_info v,
      ii_insert_pending = new_pending_info v,
      ii_set_sideband = new_sideband v,
      ii_is_epoch_block = is_epoch_block v\<rparr>"

definition validate :: "ed25519_verify \<Rightarrow> block_validator \<Rightarrow> block_status + block_insert_instructions" where
  "validate verify v =
     and_then (check_all
       [epoch_block_pre_checks verify v,
        ensure_block_does_not_exist_yet v,
        ensure_valid_predecessor v,
        ensure_valid_signature verify v,
        ensure_block_is_not_for_burn_account v,
        ensure_account_exists_for_none_open_block v,
        ensure_no_double_account_open v,
        ensure_previous_block_is_correct v,
        ensure_open_block_has_link v,
        ensure_no_reveive_balance_change_without_link v,
        ensure_pending_receive_is_correct v,
        ensure_sufficient_work v,
        ensure_no_negative_amount_send v,
        ensure_valid_epoch_block v])
     (\<lambda>_. Inr (create_instructions v))"

section \<open>The factory\<close>

definition load_previous_block :: "ledger \<Rightarrow> block \<Rightarrow> saved_block option" where
  "load_previous_block l b = (if previous b \<noteq> 0 then get_block l (previous b) else None)"

definition factory_get_account :: "block \<Rightarrow> saved_block option \<Rightarrow> account option" where
  "factory_get_account b prev =
     (case account_field b of
        Some a \<Rightarrow> Some a
      | None \<Rightarrow> map_option saved_account prev)"

definition create_validator :: "ledger_constants \<Rightarrow> u64 \<Rightarrow> ledger \<Rightarrow> block \<Rightarrow> block_validator" where
  "create_validator c now l b =
     (let previous_block = load_previous_block l b;
          account = unwrap_or (factory_get_account b previous_block) 0;
          source_block = source_or_link b;
          source_block_exists = (source_block \<noteq> 0 \<and> block_exists_or_pruned l source_block);
          pending_receive_info =
            (if source_block = 0 then None else get_pending l (PendingKey account source_block))
      in \<lparr>bv_block = b,
          bv_epochs = lc_epochs c,
          bv_work = lc_work c,
          bv_block_exists = block_exists_or_pruned l (hash b),
          bv_account = account,
          bv_previous_block = previous_block,
          bv_old_account_info = get_account l account,
          bv_pending_receive_info = pending_receive_info,
          bv_any_pending_exists = receivable_exists l account,
          bv_source_block_exists = source_block_exists,
          bv_seconds_since_epoch = now\<rparr>)"

end
