(* ===== verification/Insertion.thy ===== *)
theory Insertion
  imports Validation
begin

text \<open>
  Insertion of a validated block (\<open>ledger/src/block_insertion/block_inserter.rs\<close>), the account
  update of \<open>ledger/src/ledger.rs\<close>, and \<open>Ledger::process\<close>. The outer \<open>None\<close> of the results is
  a panic of the source; \<open>process\<close> returns the status of the first rule that fails, or the saved
  block and the new ledger. The clock is the parameter \<open>now\<close>.
\<close>

definition update_account :: "account \<Rightarrow> account_info \<Rightarrow> account_info \<Rightarrow> ledger \<Rightarrow> ledger option" where
  "update_account a old_info new_info l =
     (if ai_head new_info \<noteq> 0 then
        do {
          let l = (if ai_head old_info = 0 \<and> ai_open_block new_info = ai_head new_info
                   then l\<lparr>l_account_count := l_account_count l + 1\<rparr> else l);
          l \<leftarrow> (if ai_head old_info \<noteq> 0 \<and> ai_epoch old_info \<noteq> ai_epoch new_info
                then account_del a l else Some l);
          Some (account_put a new_info l)
        }
      else
        do {
          l \<leftarrow> account_del a l;
          Some (l\<lparr>l_account_count := l_account_count l - 1\<rparr>)
        })"

definition delete_old_pending_info :: "block_insert_instructions \<Rightarrow> ledger \<Rightarrow> ledger option" where
  "delete_old_pending_info ins l =
     (case ii_delete_pending ins of None \<Rightarrow> Some l | Some k \<Rightarrow> pending_del k l)"

definition insert_new_pending_info :: "block_insert_instructions \<Rightarrow> ledger \<Rightarrow> ledger" where
  "insert_new_pending_info ins l =
     (case ii_insert_pending ins of None \<Rightarrow> l | Some (k, i) \<Rightarrow> pending_put k i l)"

definition update_representative_cache :: "block_insert_instructions \<Rightarrow> ledger \<Rightarrow> ledger option" where
  "update_representative_cache ins l =
     map_option (\<lambda>w. l\<lparr>l_weights := w\<rparr>)
       (if ai_head (ii_old_account_info ins) \<noteq> 0 then
          representation_add_dual (l_weights l)
            (ai_representative (ii_old_account_info ins)) (0 - ai_balance (ii_old_account_info ins))
            (ai_representative (ii_set_account_info ins)) (ai_balance (ii_set_account_info ins))
        else
          representation_add (l_weights l)
            (ai_representative (ii_set_account_info ins)) (ai_balance (ii_set_account_info ins)))"

definition insert_block :: "block \<Rightarrow> block_insert_instructions \<Rightarrow> ledger \<Rightarrow> (saved_block \<times> ledger) option" where
  "insert_block b ins l =
     do {
       let saved = \<lparr>svb_block = b, svb_sideband = ii_set_sideband ins\<rparr>;
       l \<leftarrow> ledger_block_put saved l;
       l \<leftarrow> update_account (ii_account ins) (ii_old_account_info ins) (ii_set_account_info ins) l;
       l \<leftarrow> delete_old_pending_info ins l;
       let l = insert_new_pending_info ins l;
       l \<leftarrow> update_representative_cache ins l;
       Some (saved, l\<lparr>l_block_count := l_block_count l + 1\<rparr>)
     }"

definition process ::
  "ed25519_verify \<Rightarrow> ledger_constants \<Rightarrow> u64 \<Rightarrow> ledger \<Rightarrow> block \<Rightarrow> (block_status + saved_block \<times> ledger) option" where
  "process verify c now l b =
     (case validate verify (create_validator c now l b) of
        Inl e \<Rightarrow> Some (Inl e)
      | Inr ins \<Rightarrow> map_option Inr (insert_block b ins l))"

section \<open>What an accepted block satisfies\<close>

lemma ensure_rules_iff [simp]:
  "ensure_block_does_not_exist_yet v = Inr () \<longleftrightarrow> \<not> bv_block_exists v"
  "ensure_valid_predecessor v = Inr () \<longleftrightarrow>
     (previous (bv_block v) \<noteq> 0 \<longrightarrow>
        (\<exists>p. bv_previous_block v = Some p \<and> valid_predecessor (bv_block v) (block_type (svb_block p))))"
  "ensure_block_is_not_for_burn_account v = Inr () \<longleftrightarrow> bv_account v \<noteq> 0"
  "ensure_account_exists_for_none_open_block v = Inr () \<longleftrightarrow> (is_open (bv_block v) \<or> account_exists v)"
  "ensure_no_double_account_open v = Inr () \<longleftrightarrow> \<not> (account_exists v \<and> is_open (bv_block v))"
  "ensure_source_block_exists v = Inr () \<longleftrightarrow> (bv_is_receive v \<longrightarrow> bv_source_block_exists v)"
  "ensure_receive_block_receives_pending_amount v = Inr () \<longleftrightarrow>
     (bv_is_receive v \<longrightarrow> (\<exists>p. bv_pending_receive_info v = Some p \<and> amount_received v = pi_amount p))"
  "ensure_sufficient_work v = Inr () \<longleftrightarrow> is_valid_pow (bv_work v) (bv_block v) (bv_block_details v)"
  "ensure_previous_block_is_account_head v = Inr () \<longleftrightarrow>
     (\<forall>i. bv_old_account_info v = Some i \<longrightarrow> previous (bv_block v) = ai_head i)"
  "ensure_previous_block_exists v = Inr () \<longleftrightarrow>
     (account_exists v \<longrightarrow> bv_previous_block v \<noteq> None)
     \<and> (\<not> account_exists v \<longrightarrow> previous (bv_block v) = 0)"
  by (auto simp: ensure_block_does_not_exist_yet_def ensure_valid_predecessor_def
      ensure_block_is_not_for_burn_account_def ensure_account_exists_for_none_open_block_def
      ensure_no_double_account_open_def ensure_source_block_exists_def account_exists_def
      is_new_account_def ensure_receive_block_receives_pending_amount_def ensure_sufficient_work_def
      ensure_previous_block_is_account_head_def ensure_previous_block_exists_def
      split: option.splits if_splits)

lemma validate_Inr:
  "validate verify v = Inr ins \<longleftrightarrow> ins = create_instructions v
     \<and> epoch_block_pre_checks verify v = Inr ()
     \<and> ensure_block_does_not_exist_yet v = Inr ()
     \<and> ensure_valid_predecessor v = Inr ()
     \<and> ensure_valid_signature verify v = Inr ()
     \<and> ensure_block_is_not_for_burn_account v = Inr ()
     \<and> ensure_account_exists_for_none_open_block v = Inr ()
     \<and> ensure_no_double_account_open v = Inr ()
     \<and> ensure_previous_block_is_correct v = Inr ()
     \<and> ensure_open_block_has_link v = Inr ()
     \<and> ensure_no_reveive_balance_change_without_link v = Inr ()
     \<and> ensure_pending_receive_is_correct v = Inr ()
     \<and> ensure_sufficient_work v = Inr ()
     \<and> ensure_no_negative_amount_send v = Inr ()
     \<and> ensure_valid_epoch_block v = Inr ()"
  unfolding validate_def and_then_eq_Inr check_all_eq_Inr by auto

lemma create_validator_fields [simp]:
  "bv_block (create_validator c now l b) = b"
  "bv_epochs (create_validator c now l b) = lc_epochs c"
  "bv_work (create_validator c now l b) = lc_work c"
  "bv_block_exists (create_validator c now l b) = block_exists_or_pruned l (hash b)"
  "bv_previous_block (create_validator c now l b) = load_previous_block l b"
  "bv_seconds_since_epoch (create_validator c now l b) = now"
  "bv_old_account_info (create_validator c now l b) =
     fmlookup (l_account l) (bv_account (create_validator c now l b))"
  "bv_pending_receive_info (create_validator c now l b) =
     (if source_or_link b = 0 then None
      else fmlookup (l_pending l) (PendingKey (bv_account (create_validator c now l b)) (source_or_link b)))"
  "bv_source_block_exists (create_validator c now l b) =
     (source_or_link b \<noteq> 0 \<and> block_exists_or_pruned l (source_or_link b))"
  "bv_any_pending_exists (create_validator c now l b) =
     receivable_exists l (bv_account (create_validator c now l b))"
  by (simp_all add: create_validator_def Let_def get_account_def get_pending_def)

lemma bv_account_create_validator:
  "bv_account (create_validator c now l b) =
     (case account_field b of
        Some a \<Rightarrow> a
      | None \<Rightarrow> unwrap_or (map_option saved_account (load_previous_block l b)) 0)"
  by (simp add: create_validator_def Let_def factory_get_account_def split: option.splits)

lemma create_instructions_fields [simp]:
  "ii_account (create_instructions v) = bv_account v"
  "ii_old_account_info (create_instructions v) = unwrap_or (bv_old_account_info v) account_info_default"
  "ii_set_account_info (create_instructions v) = new_account_info v"
  "ii_delete_pending (create_instructions v) = delete_received_pending_info v"
  "ii_insert_pending (create_instructions v) = new_pending_info v"
  "ii_set_sideband (create_instructions v) = new_sideband v"
  "ii_is_epoch_block (create_instructions v) = is_epoch_block v"
  by (simp_all add: create_instructions_def)

lemma new_account_info_fields [simp]:
  "ai_head (new_account_info v) = hash (bv_block v)"
  "ai_representative (new_account_info v) = new_representative v"
  "ai_open_block (new_account_info v) = bv_open_block v"
  "ai_balance (new_account_info v) = new_balance v"
  "ai_block_count (new_account_info v) = new_block_count v"
  "ai_epoch (new_account_info v) = bv_epoch v"
  by (simp_all add: new_account_info_def)

lemma account_info_default_fields [simp]:
  "ai_head account_info_default = 0"
  "ai_representative account_info_default = 0"
  "ai_balance account_info_default = 0"
  by (simp_all add: account_info_default_def)

end
