(* ===== verification/Ledger_Inv.thy ===== *)
theory Ledger_Inv
  imports Insertion
begin

text \<open>
  The invariant of the ledger and its preservation by \<open>process\<close>. Every account entry points to
  a stored head block that agrees with it; every receivable entry belongs to a block that was
  processed; the weight of a representative is the sum of the balances delegated to it; all
  funds together fit in an \<open>Amount\<close>. \<open>mints\<close> describes the blocks that the rules accept
  although they create funds; the conservation lemmas exclude them.
\<close>

section \<open>The invariant\<close>

definition blocks_ok :: "ledger \<Rightarrow> bool" where
  "blocks_ok l \<longleftrightarrow>
     (\<forall>h b. fmlookup (l_block l) h = Some b \<longrightarrow> h \<noteq> 0 \<and> hash (svb_block b) = h \<and> normalised b)"

definition head_of :: "block_table \<Rightarrow> account \<Rightarrow> account_info \<Rightarrow> bool" where
  "head_of t a i \<longleftrightarrow> a \<noteq> 0 \<and> ai_head i \<noteq> 0 \<and>
     (\<exists>p. fmlookup t (ai_head i) = Some p \<and> saved_account p = a \<and> saved_balance p = ai_balance i
        \<and> saved_height p = ai_block_count i \<and> saved_epoch p = ai_epoch i
        \<and> sd_successor (svb_sideband p) = 0)"

definition accounts_ok :: "ledger \<Rightarrow> bool" where
  "accounts_ok l \<longleftrightarrow> (\<forall>a i. fmlookup (l_account l) a = Some i \<longrightarrow> head_of (l_block l) a i)"

definition pending_ok :: "ledger \<Rightarrow> bool" where
  "pending_ok l \<longleftrightarrow>
     (\<forall>k i. fmlookup (l_pending l) k = Some i \<longrightarrow> block_exists_or_pruned l (send_block_hash k))"

definition delegated :: "(account, account_info) fmap \<Rightarrow> public_key \<Rightarrow> amount" where
  "delegated t r = table_sum (\<lambda>_ i. if r = ai_representative i then ai_balance i else 0) t"

definition rep_weights_ok :: "ledger \<Rightarrow> bool" where
  "rep_weights_ok l \<longleftrightarrow>
     weights_ok (l_weights l) \<and> (\<forall>r. stored_weight (l_weights l) r = delegated (l_account l) r)"

definition total_supply :: "ledger \<Rightarrow> nat" where
  "total_supply l =
     table_sum (\<lambda>_ i. unat (ai_balance i)) (l_account l)
     + table_sum (\<lambda>_ i. unat (pi_amount i)) (l_pending l)"

definition ledger_inv :: "ledger \<Rightarrow> bool" where
  "ledger_inv l \<longleftrightarrow> blocks_ok l \<and> accounts_ok l \<and> pending_ok l \<and> rep_weights_ok l
     \<and> total_supply l < 2 ^ 128"

section \<open>Accepted blocks\<close>

definition accepted :: "ed25519_verify \<Rightarrow> ledger_constants \<Rightarrow> u64 \<Rightarrow> ledger \<Rightarrow> block \<Rightarrow> bool" where
  "accepted verify c now l b \<longleftrightarrow>
     (\<exists>ins. validate verify (create_validator c now l b) = Inr ins)"

lemma accepted_iff:
  "accepted verify c now l b \<longleftrightarrow>
     validate verify (create_validator c now l b)
       = Inr (create_instructions (create_validator c now l b))"
  unfolding accepted_def by (auto simp: validate_Inr)

lemma accepted_new_hash: "accepted verify c now l b \<Longrightarrow> \<not> block_exists_or_pruned l (hash b)"
  by (auto simp: accepted_def validate_Inr)

lemma accepted_account: "accepted verify c now l b \<Longrightarrow> bv_account (create_validator c now l b) \<noteq> 0"
  by (auto simp: accepted_def validate_Inr)

lemma accepted_predecessor:
  assumes "accepted verify c now l b" and "previous b \<noteq> 0"
  obtains p where "fmlookup (l_block l) (previous b) = Some p"
    "load_previous_block l b = Some p" "valid_predecessor b (block_type (svb_block p))"
  using assms by (auto simp: accepted_def validate_Inr load_previous_block_def get_block_def)

lemma accepted_new_account:
  assumes "accepted verify c now l b"
    and "fmlookup (l_account l) (bv_account (create_validator c now l b)) = None"
  shows "is_open b" "previous b = 0" "load_previous_block l b = None"
  using assms
  by (auto simp: accepted_def validate_Inr account_exists_def ensure_previous_block_is_correct_def
      load_previous_block_def)

lemma accepted_old_account:
  assumes "accepted verify c now l b" and "accounts_ok l"
    and "fmlookup (l_account l) (bv_account (create_validator c now l b)) = Some i"
  obtains p where "\<not> is_open b" "previous b = ai_head i" "previous b \<noteq> 0"
    "fmlookup (l_block l) (previous b) = Some p" "load_previous_block l b = Some p"
    "saved_account p = bv_account (create_validator c now l b)" "saved_balance p = ai_balance i"
    "saved_height p = ai_block_count i" "saved_epoch p = ai_epoch i"
    "valid_predecessor b (block_type (svb_block p))"
proof -
  from assms(2,3) have head: "head_of (l_block l) (bv_account (create_validator c now l b)) i"
    by (simp add: accounts_ok_def)
  from assms(1,3) have o: "\<not> is_open b" "previous b = ai_head i"
    by (auto simp: accepted_def validate_Inr account_exists_def ensure_previous_block_is_correct_def)
  with head have nz: "previous b \<noteq> 0"
    by (simp add: head_of_def)
  from accepted_predecessor [OF assms(1) nz] obtain p where p:
    "fmlookup (l_block l) (previous b) = Some p" "load_previous_block l b = Some p"
    "valid_predecessor b (block_type (svb_block p))"
    by blast
  show ?thesis
    by (rule that [OF o nz p(1,2) _ _ _ _ p(3)]) (use head o p in \<open>auto simp: head_of_def\<close>)
qed

lemma previous_balance_old:
  assumes "accepted verify c now l b" and "accounts_ok l"
  shows "previous_balance (create_validator c now l b) = old_balance (create_validator c now l b)"
proof (cases "fmlookup (l_account l) (bv_account (create_validator c now l b))")
  case None
  then show ?thesis
    using accepted_new_account [OF assms(1) None] by (simp add: previous_balance_def old_balance_def)
next
  case (Some i)
  from accepted_old_account [OF assms Some] obtain p where
    "load_previous_block l b = Some p" "saved_balance p = ai_balance i"
    by blast
  then show ?thesis
    using Some by (simp add: previous_balance_def old_balance_def)
qed

section \<open>Balances\<close>

lemma new_balance_state:
  assumes "bv_block v = State st" and "previous_balance v = old_balance v"
  shows "new_balance v = sth_balance (stb_hashables st)"
  using assms
  by (cases "bv_old_account_info v")
    (auto simp: new_balance_def amount_received_def amount_sent_def old_balance_def not_less)

lemma new_balance_send:
  assumes "bv_block v = LegacySend s" and "previous_balance v = old_balance v"
    and "ensure_no_negative_amount_send v = Inr ()" and "bv_old_account_info v = Some i"
  shows "new_balance v = sh_balance (sb_hashables s)" "sh_balance (sb_hashables s) \<le> old_balance v"
  using assms
  by (auto simp: new_balance_def amount_received_def amount_sent_def old_balance_def
      ensure_no_negative_amount_send_def split: if_splits)

lemma new_balance_receive:
  assumes "(\<exists>r. bv_block v = LegacyReceive r) \<or> (\<exists>r. bv_block v = LegacyOpen r)"
  shows "new_balance v = old_balance v + pending_amount v"
  using assms
  by (auto simp: new_balance_def amount_received_def amount_sent_def split: option.splits)

lemma new_balance_change:
  assumes "bv_block v = LegacyChange r"
  shows "new_balance v = old_balance v"
  using assms
  by (auto simp: new_balance_def amount_received_def amount_sent_def split: option.splits)

text \<open>
  A state block with an epoch link that raises the balance: no rule asks for a receivable
  entry, so accepting it creates funds.
\<close>

definition mints :: "block_validator \<Rightarrow> bool" where
  "mints v =
     (case bv_block v of
        State st \<Rightarrow> has_epoch_link v st \<and> previous_balance v < sth_balance (stb_hashables st)
      | _ \<Rightarrow> False)"

definition sent_amount :: "block_validator \<Rightarrow> nat" where
  "sent_amount v = (case new_pending_info v of None \<Rightarrow> 0 | Some (_, i) \<Rightarrow> unat (pi_amount i))"

definition collected_amount :: "block_validator \<Rightarrow> nat" where
  "collected_amount v = (if bv_is_receive v then unat (pending_amount v) else 0)"

lemma conservation_state:
  assumes "bv_block v = State st" and "previous_balance v = old_balance v" and "\<not> mints v"
    and "ensure_no_reveive_balance_change_without_link v = Inr ()"
    and "ensure_receive_block_receives_pending_amount v = Inr ()"
  shows "unat (new_balance v) + sent_amount v = unat (old_balance v) + collected_amount v"
proof -
  let ?bal = "sth_balance (stb_hashables st)"
  have nb: "new_balance v = ?bal"
    using assms(1,2) by (rule new_balance_state)
  consider "?bal < old_balance v" | "?bal = old_balance v" | "old_balance v < ?bal"
    by fastforce
  then show ?thesis
  proof cases
    case 1
    then have "bv_is_send v" "\<not> bv_is_receive v"
      using assms(1) by (cases "bv_old_account_info v"; auto simp: bv_is_send_def bv_is_receive_def old_balance_def)+
    with 1 show ?thesis
      using assms(1) nb
      by (simp add: sent_amount_def collected_amount_def new_pending_info_def bv_amount_def
          unat_amount_sub less_imp_le word_less_nat_alt)
  next
    case 2
    then have "\<not> bv_is_send v"
      using assms(1) by (cases "bv_old_account_info v") (auto simp: bv_is_send_def old_balance_def)
    moreover have "collected_amount v = 0"
      using assms(1,2,5) 2 by (auto simp: collected_amount_def amount_received_def pending_amount_def)
    ultimately show ?thesis
      using assms(1) nb 2 by (simp add: sent_amount_def new_pending_info_def)
  next
    case 3
    then have ns: "\<not> bv_is_send v"
      using assms(1) by (cases "bv_old_account_info v") (auto simp: bv_is_send_def old_balance_def)
    have "\<not> has_epoch_link v st"
      using assms(1,2,3) 3 by (simp add: mints_def)
    moreover have "amount_received v = ?bal - old_balance v"
      using assms(1,2) 3 by (simp add: amount_received_def)
    moreover from this have "sth_link (stb_hashables st) \<noteq> 0"
      using assms(1,4) 3 by (auto simp: ensure_no_reveive_balance_change_without_link_def split: if_splits)
    ultimately have "bv_is_receive v"
      using assms(1) 3 by (cases "bv_old_account_info v") (auto simp: bv_is_receive_def old_balance_def)
    moreover from this have "pending_amount v = ?bal - old_balance v"
      using assms(5) \<open>amount_received v = _\<close> by (auto simp: pending_amount_def)
    ultimately show ?thesis
      using assms(1) nb ns 3
      by (simp add: sent_amount_def collected_amount_def new_pending_info_def
          unat_amount_sub less_imp_le word_less_nat_alt)
  qed
qed

lemma receivable_no_wrap:
  assumes "fmlookup (l_account l) a = Some i" and "fmlookup (l_pending l) k = Some p"
    and "total_supply l < 2 ^ 128"
  shows "unat (ai_balance i) + unat (pi_amount p) < 2 ^ 128"
proof -
  have "unat (ai_balance i) \<le> table_sum (\<lambda>_ i. unat (ai_balance i)) (l_account l)"
    using assms(1) by (rule table_sum_entry_le)
  moreover have "unat (pi_amount p) \<le> table_sum (\<lambda>_ i. unat (pi_amount i)) (l_pending l)"
    using assms(2) by (rule table_sum_entry_le)
  ultimately show ?thesis
    using assms(3) by (simp add: total_supply_def)
qed

lemma old_balance_plus_pending_no_wrap:
  assumes "total_supply l < 2 ^ 128"
  shows "unat (old_balance (create_validator c now l b)) + unat (pending_amount (create_validator c now l b))
    < 2 ^ 128"
  using receivable_no_wrap [OF _ _ assms] unat_amount_bound
  by (auto simp: old_balance_def pending_amount_def unwrap_or_def split: option.splits)

lemma conservation_receive:
  assumes "(\<exists>r. bv_block v = LegacyReceive r) \<or> (\<exists>r. bv_block v = LegacyOpen r)"
    and "unat (old_balance v) + unat (pending_amount v) < 2 ^ 128"
  shows "unat (new_balance v) + sent_amount v = unat (old_balance v) + collected_amount v"
proof -
  have "bv_is_receive v" "new_pending_info v = None"
    using assms(1) by (auto simp: bv_is_receive_def new_pending_info_def)
  then show ?thesis
    using new_balance_receive [OF assms(1)] unat_amount_add [OF assms(2)]
    by (simp add: sent_amount_def collected_amount_def)
qed

lemma conservation_send:
  assumes "bv_block v = LegacySend s" and "previous_balance v = old_balance v"
    and "ensure_no_negative_amount_send v = Inr ()" and "bv_old_account_info v = Some i"
  shows "unat (new_balance v) + sent_amount v = unat (old_balance v) + collected_amount v"
proof -
  have "amount_sent v = old_balance v - new_balance v"
    using assms(1,4) new_balance_send [OF assms]
    by (auto simp: amount_sent_def old_balance_def)
  then show ?thesis
    using new_balance_send [OF assms] assms(1)
    by (simp add: sent_amount_def collected_amount_def new_pending_info_def bv_is_receive_def
        unat_amount_sub word_le_nat_alt)
qed

text \<open>What an account gains or loses is what leaves or enters the receivable table.\<close>

lemma accepted_conservation:
  assumes "accepted verify c now l b" and "accounts_ok l" and "total_supply l < 2 ^ 128"
    and "\<not> mints (create_validator c now l b)"
  shows "unat (new_balance (create_validator c now l b)) + sent_amount (create_validator c now l b)
    = unat (old_balance (create_validator c now l b)) + collected_amount (create_validator c now l b)"
proof -
  let ?v = "create_validator c now l b"
  note eq = previous_balance_old [OF assms(1,2)]
  have rules: "ensure_no_reveive_balance_change_without_link ?v = Inr ()"
    "ensure_receive_block_receives_pending_amount ?v = Inr ()" "ensure_no_negative_amount_send ?v = Inr ()"
    using assms(1) by (auto simp: accepted_def validate_Inr ensure_pending_receive_is_correct_def)
  show ?thesis
  proof (cases b)
    case (State st)
    with eq assms(4) rules show ?thesis
      by (intro conservation_state [of _ st]) simp_all
  next
    case (LegacySend s)
    then have "\<not> is_open b"
      by simp
    with accepted_new_account [OF assms(1)] obtain i where "bv_old_account_info ?v = Some i"
      by (cases "bv_old_account_info ?v") auto
    with eq rules LegacySend show ?thesis
      by (intro conservation_send [of _ s i]) simp_all
  next
    case (LegacyReceive r)
    then show ?thesis
      using old_balance_plus_pending_no_wrap [OF assms(3)] by (intro conservation_receive) simp_all
  next
    case (LegacyOpen r)
    then show ?thesis
      using old_balance_plus_pending_no_wrap [OF assms(3)] by (intro conservation_receive) simp_all
  next
    case (LegacyChange r)
    then show ?thesis
      using new_balance_change [of ?v r]
      by (simp add: sent_amount_def collected_amount_def new_pending_info_def bv_is_receive_def)
  qed
qed

section \<open>The state after an accepted block\<close>

definition new_saved :: "block_validator \<Rightarrow> saved_block" where
  "new_saved v = \<lparr>svb_block = bv_block v, svb_sideband = new_sideband v\<rparr>"

definition blocks_after :: "block_validator \<Rightarrow> block_table \<Rightarrow> block_table" where
  "blocks_after v t =
     (let h = hash (bv_block v); t' = fmupd h (normalise (new_saved v)) t
      in case bv_previous_block v of
           None \<Rightarrow> t'
         | Some p \<Rightarrow> fmupd (previous (bv_block v)) (set_successor h p) t')"

definition pending_after :: "block_validator \<Rightarrow> pending_table \<Rightarrow> pending_table" where
  "pending_after v t =
     (let t' = (case delete_received_pending_info v of None \<Rightarrow> t | Some k \<Rightarrow> fmdrop k t)
      in case new_pending_info v of None \<Rightarrow> t' | Some (k, i) \<Rightarrow> fmupd k i t')"

lemma block_put_accepted:
  assumes "accepted verify c now l b"
  shows "block_put (new_saved (create_validator c now l b)) (l_block l)
    = Some (blocks_after (create_validator c now l b) (l_block l))"
proof (cases "previous b = 0")
  case True
  then show ?thesis
    by (simp add: block_put_def update_predecessor_def new_saved_def blocks_after_def
        load_previous_block_def Let_def)
next
  case False
  from accepted_predecessor [OF assms False] obtain p where
    p: "fmlookup (l_block l) (previous b) = Some p" "load_previous_block l b = Some p"
    by blast
  moreover have "previous b \<noteq> hash b"
    using accepted_new_hash [OF assms] p(1) by (auto simp: block_exists_or_pruned_def split: if_splits)
  ultimately show ?thesis
    using False by (simp add: block_put_def update_predecessor_def new_saved_def blocks_after_def Let_def)
qed

lemma delete_pending_accepted:
  assumes "accepted verify c now l b"
    and "delete_received_pending_info (create_validator c now l b) = Some k"
  obtains i where "fmlookup (l_pending l) k = Some i" "bv_is_receive (create_validator c now l b)"
    "pending_amount (create_validator c now l b) = pi_amount i"
    "k = PendingKey (bv_account (create_validator c now l b)) (source_or_link b)"
proof -
  from assms(2) have r: "bv_is_receive (create_validator c now l b)"
    and k: "k = PendingKey (bv_account (create_validator c now l b)) (source_or_link b)"
    by (auto simp: delete_received_pending_info_def split: if_splits)
  with assms(1) obtain i where "bv_pending_receive_info (create_validator c now l b) = Some i"
    by (auto simp: accepted_def validate_Inr ensure_pending_receive_is_correct_def)
  with r k that show ?thesis
    by (auto simp: pending_amount_def split: if_splits)
qed

lemma new_pending_hash:
  assumes "new_pending_info v = Some (k, i)"
  shows "send_block_hash k = hash (bv_block v)"
  using assms
  by (auto simp: new_pending_info_def pending_key_for_send_block_def block_base_defs
      split: block.splits if_splits)

lemma pending_fresh:
  assumes "accepted verify c now l b" and "pending_ok l"
    and "new_pending_info (create_validator c now l b) = Some (k, i)"
  shows "fmlookup (l_pending l) k = None"
proof (rule ccontr)
  assume "fmlookup (l_pending l) k \<noteq> None"
  then have "block_exists_or_pruned l (send_block_hash k)"
    using assms(2) by (auto simp: pending_ok_def)
  then show False
    using accepted_new_hash [OF assms(1)] new_pending_hash [OF assms(3)] by simp
qed

definition account_count_after :: "block_validator \<Rightarrow> u64 \<Rightarrow> u64" where
  "account_count_after v n = (if bv_old_account_info v = None then n + 1 else n)"

definition ledger_after :: "block_validator \<Rightarrow> rep_weights \<Rightarrow> ledger \<Rightarrow> ledger" where
  "ledger_after v w l =
     l\<lparr>l_block := blocks_after v (l_block l),
       l_account := fmupd (bv_account v) (new_account_info v) (l_account l),
       l_pending := pending_after v (l_pending l),
       l_weights := w,
       l_block_count := l_block_count l + 1,
       l_account_count := account_count_after v (l_account_count l)\<rparr>"

lemma delegated_insert:
  assumes "fmlookup t a = None"
  shows "delegated (fmupd a j t) r
    = delegated t r + (if r = ai_representative j then ai_balance j else 0)"
  using table_sum_insert [OF assms, of "\<lambda>_ i. if r = ai_representative i then ai_balance i else 0" j]
  by (simp add: delegated_def)

lemma delegated_update:
  assumes "fmlookup t a = Some i"
  shows "delegated (fmupd a j t) r
    = delegated t r - (if r = ai_representative i then ai_balance i else 0)
      + (if r = ai_representative j then ai_balance j else 0)"
proof -
  let ?f = "\<lambda>i. if r = ai_representative i then ai_balance i else 0"
  have solve: "x + d' = y + d \<Longrightarrow> d' = d - x + y" for x y d d' :: amount
    by (simp add: algebra_simps)
  show ?thesis
    by (rule solve) (unfold delegated_def, rule table_sum_update [OF assms])
qed

lemma weights_after:
  assumes "accounts_ok l" and "rep_weights_ok l" and that: "l_weights l' = l_weights l"
  shows "\<exists>w. update_representative_cache (create_instructions (create_validator c now l b)) l'
        = Some (l'\<lparr>l_weights := w\<rparr>)
    \<and> weights_ok w \<and> rw_min_weight w = rw_min_weight (l_weights l)
    \<and> (\<forall>r. stored_weight w r = delegated (fmupd (bv_account (create_validator c now l b))
            (new_account_info (create_validator c now l b)) (l_account l)) r)"
proof -
  let ?v = "create_validator c now l b"
  let ?a = "bv_account ?v"
  from assms(2) have ok: "weights_ok (l_weights l)"
    and sum: "\<And>r. stored_weight (l_weights l) r = delegated (l_account l) r"
    by (simp_all add: rep_weights_ok_def)
  show ?thesis
  proof (cases "fmlookup (l_account l) ?a")
    case None
    with representation_add_ok [OF ok, of "new_representative ?v" "new_balance ?v"] that sum show ?thesis
      by (auto simp: update_representative_cache_def delegated_insert)
  next
    case (Some i)
    then have "ai_head i \<noteq> 0"
      using assms(1) by (auto simp: accounts_ok_def head_of_def)
    moreover from representation_add_dual_ok [OF ok, of "ai_representative i" "0 - ai_balance i"
        "new_representative ?v" "new_balance ?v"]
    obtain w where "representation_add_dual (l_weights l) (ai_representative i) (0 - ai_balance i)
        (new_representative ?v) (new_balance ?v) = Some w" "weights_ok w"
      "rw_min_weight w = rw_min_weight (l_weights l)"
      "\<forall>r'. stored_weight w r' = stored_weight (l_weights l) r'
        + (if r' = ai_representative i then 0 - ai_balance i else 0)
        + (if r' = new_representative ?v then new_balance ?v else 0)"
      by blast
    ultimately show ?thesis
      using Some that sum
      by (intro exI [of _ w]) (simp add: update_representative_cache_def delegated_update [OF Some])
  qed
qed

lemma update_account_accepted:
  assumes "accounts_ok l" and "hash b \<noteq> 0" and "l_account l' = l_account l"
  shows "update_account (bv_account (create_validator c now l b))
      (unwrap_or (bv_old_account_info (create_validator c now l b)) account_info_default)
      (new_account_info (create_validator c now l b)) l'
    = Some (l'\<lparr>l_account := fmupd (bv_account (create_validator c now l b))
                 (new_account_info (create_validator c now l b)) (l_account l),
               l_account_count := account_count_after (create_validator c now l b) (l_account_count l')\<rparr>)"
proof (cases "fmlookup (l_account l) (bv_account (create_validator c now l b))")
  case None
  then show ?thesis
    using assms(2,3)
    by (simp add: update_account_def bv_open_block_def account_put_def account_count_after_def Let_def)
next
  case (Some i)
  then have "ai_head i \<noteq> 0"
    using assms(1) by (auto simp: accounts_ok_def head_of_def)
  then show ?thesis
    using Some assms(2,3)
    by (simp add: update_account_def account_put_def account_del_def table_del_def
        account_count_after_def Let_def)
qed

lemma process_accepted:
  assumes "accepted verify c now l b" and "accounts_ok l" and "rep_weights_ok l" and "hash b \<noteq> 0"
  obtains w where
    "process verify c now l b
       = Some (Inr (new_saved (create_validator c now l b), ledger_after (create_validator c now l b) w l))"
    "weights_ok w" "rw_min_weight w = rw_min_weight (l_weights l)"
    "\<And>r. stored_weight w r = delegated (fmupd (bv_account (create_validator c now l b))
            (new_account_info (create_validator c now l b)) (l_account l)) r"
proof -
  let ?v = "create_validator c now l b"
  let ?l1 = "l\<lparr>l_block := blocks_after ?v (l_block l)\<rparr>"
  let ?l2 = "?l1\<lparr>l_account := fmupd (bv_account ?v) (new_account_info ?v) (l_account l),
                 l_account_count := account_count_after ?v (l_account_count l)\<rparr>"
  let ?l3 = "?l2\<lparr>l_pending := pending_after ?v (l_pending l)\<rparr>"
  have saved: "\<lparr>svb_block = b, svb_sideband = new_sideband ?v\<rparr> = new_saved ?v"
    by (simp add: new_saved_def)
  have put: "ledger_block_put (new_saved ?v) l = Some ?l1"
    using block_put_accepted [OF assms(1), of ] by (simp add: ledger_block_put_def)
  have acc: "update_account (bv_account ?v) (unwrap_or (bv_old_account_info ?v) account_info_default)
      (new_account_info ?v) ?l1 = Some ?l2"
    using update_account_accepted [OF assms(2,4), of ?l1] by simp
  have pend: "map_option (insert_new_pending_info (create_instructions ?v))
      (delete_old_pending_info (create_instructions ?v) ?l2) = Some ?l3"
  proof (cases "delete_received_pending_info ?v")
    case None
    then show ?thesis
      by (auto simp: delete_old_pending_info_def insert_new_pending_info_def pending_after_def
          pending_put_def Let_def split: option.splits)
  next
    case (Some k)
    from delete_pending_accepted [OF assms(1) this] obtain i where "fmlookup (l_pending l) k = Some i"
      by blast
    with Some show ?thesis
      by (auto simp: delete_old_pending_info_def insert_new_pending_info_def pending_after_def
          pending_put_def pending_del_def table_del_def Let_def split: option.splits)
  qed
  from weights_after [OF assms(2,3), of ?l3 c now b] obtain w where w:
    "update_representative_cache (create_instructions ?v) ?l3 = Some (?l3\<lparr>l_weights := w\<rparr>)"
    "weights_ok w" "rw_min_weight w = rw_min_weight (l_weights l)"
    "\<And>r. stored_weight w r = delegated (fmupd (bv_account ?v) (new_account_info ?v) (l_account l)) r"
    by auto
  have "insert_block b (create_instructions ?v) l = Some (new_saved ?v, ledger_after ?v w l)"
    using put acc pend w(1)
    by (auto simp: insert_block_def saved Let_def ledger_after_def)
  then have "process verify c now l b = Some (Inr (new_saved ?v, ledger_after ?v w l))"
    using assms(1) by (simp add: process_def accepted_iff)
  then show ?thesis
    using that w(2-4) by blast
qed

section \<open>Conservation of funds\<close>

lemma accounts_sum_after:
  "table_sum (\<lambda>_ i. unat (ai_balance i)) (fmupd (bv_account (create_validator c now l b))
      (new_account_info (create_validator c now l b)) (l_account l))
     + unat (old_balance (create_validator c now l b))
   = table_sum (\<lambda>_ i. unat (ai_balance i)) (l_account l) + unat (new_balance (create_validator c now l b))"
proof (cases "fmlookup (l_account l) (bv_account (create_validator c now l b))")
  case None
  then show ?thesis
    by (simp add: table_sum_insert old_balance_def)
next
  case (Some i)
  then show ?thesis
    using table_sum_update [OF Some, of "\<lambda>_ i. unat (ai_balance i)" "new_account_info (create_validator c now l b)"]
    by (simp add: old_balance_def)
qed

lemma pending_sum_after:
  assumes "accepted verify c now l b" and "pending_ok l"
  shows "table_sum (\<lambda>_ i. unat (pi_amount i)) (pending_after (create_validator c now l b) (l_pending l))
     + collected_amount (create_validator c now l b)
   = table_sum (\<lambda>_ i. unat (pi_amount i)) (l_pending l) + sent_amount (create_validator c now l b)"
proof -
  let ?v = "create_validator c now l b"
  let ?f = "\<lambda>_ i. unat (pi_amount i)"
  let ?t = "case delete_received_pending_info ?v of None \<Rightarrow> l_pending l | Some k \<Rightarrow> fmdrop k (l_pending l)"
  have del: "table_sum ?f ?t + collected_amount ?v = table_sum ?f (l_pending l)"
  proof (cases "delete_received_pending_info ?v")
    case None
    then show ?thesis
      by (simp add: collected_amount_def delete_received_pending_info_def split: if_splits)
  next
    case (Some k)
    from delete_pending_accepted [OF assms(1) this] obtain i where
      "fmlookup (l_pending l) k = Some i" "bv_is_receive ?v" "pending_amount ?v = pi_amount i"
      by blast
    with Some show ?thesis
      using table_sum_remove [of "l_pending l" k i ?f] by (simp add: collected_amount_def)
  qed
  have ins: "table_sum ?f (pending_after ?v (l_pending l)) = table_sum ?f ?t + sent_amount ?v"
  proof (cases "new_pending_info ?v")
    case None
    then show ?thesis
      by (simp add: pending_after_def sent_amount_def Let_def)
  next
    case (Some e)
    obtain k i where e: "e = (k, i)"
      by (cases e)
    have "fmlookup ?t k = None"
      using pending_fresh [OF assms] Some e by (auto split: option.splits)
    with Some e show ?thesis
      by (simp add: pending_after_def sent_amount_def table_sum_insert Let_def)
  qed
  from del ins show ?thesis
    by simp
qed

lemma supply_after:
  assumes "accepted verify c now l b" and "accounts_ok l" and "pending_ok l" and "total_supply l < 2 ^ 128"
    and "\<not> mints (create_validator c now l b)"
  shows "total_supply (ledger_after (create_validator c now l b) w l) = total_supply l"
  using accounts_sum_after [of c now l b] pending_sum_after [OF assms(1,3)]
    accepted_conservation [OF assms(1,2,4,5)]
  by (simp add: total_supply_def ledger_after_def)

section \<open>Preservation of the invariant\<close>

lemma blocks_after_lookup:
  assumes "accepted verify c now l b"
  shows "fmlookup (blocks_after (create_validator c now l b) (l_block l)) h =
    (if h = hash b then Some (normalise (new_saved (create_validator c now l b)))
     else if previous b \<noteq> 0 \<and> h = previous b
     then map_option (set_successor (hash b)) (fmlookup (l_block l) h)
     else fmlookup (l_block l) h)"
proof (cases "previous b = 0")
  case True
  then show ?thesis
    by (simp add: blocks_after_def load_previous_block_def Let_def)
next
  case False
  from accepted_predecessor [OF assms False] obtain p where
    p: "fmlookup (l_block l) (previous b) = Some p" "load_previous_block l b = Some p"
    by blast
  moreover have "previous b \<noteq> hash b"
    using accepted_new_hash [OF assms] p(1) by (auto simp: block_exists_or_pruned_def split: if_splits)
  ultimately show ?thesis
    using False by (simp add: blocks_after_def Let_def)
qed

lemma blocks_ok_after:
  assumes "accepted verify c now l b" and "blocks_ok l" and "hash b \<noteq> 0"
  shows "blocks_ok (ledger_after (create_validator c now l b) w l)"
proof -
  have "normalised (set_successor h p)" if "normalised p" for h p
    using that by (simp add: normalised_def)
  with assms(2,3) show ?thesis
    by (auto simp: blocks_ok_def ledger_after_def blocks_after_lookup [OF assms(1)] new_saved_def
        split: if_splits)
qed

lemma exists_or_pruned_after:
  assumes "accepted verify c now l b"
  shows "block_exists_or_pruned (ledger_after (create_validator c now l b) w l) h
    \<longleftrightarrow> h = hash b \<or> block_exists_or_pruned l h"
  by (auto simp: block_exists_or_pruned_def ledger_after_def blocks_after_lookup [OF assms])

lemma pending_ok_after:
  assumes "accepted verify c now l b" and "pending_ok l"
  shows "pending_ok (ledger_after (create_validator c now l b) w l)"
proof -
  let ?v = "create_validator c now l b"
  have "send_block_hash k = hash b \<or> fmlookup (l_pending l) k = Some i"
    if "fmlookup (pending_after ?v (l_pending l)) k = Some i" for k i
    using that new_pending_hash [of ?v]
    by (auto simp: pending_after_def Let_def split: option.splits if_splits)
  then show ?thesis
    using assms(2) unfolding pending_ok_def exists_or_pruned_after [OF assms(1)]
    by (fastforce simp: ledger_after_def)
qed

lemma legacy_source_epoch:
  assumes "accepted verify c now l b" and "is_legacy b"
  shows "bv_source_epoch (create_validator c now l b) = Epoch0"
proof -
  let ?v = "create_validator c now l b"
  have rule: "ensure_legacy_source_is_epoch_0 ?v = Inr ()"
    using assms(1) by (auto simp: accepted_def validate_Inr ensure_pending_receive_is_correct_def)
  show ?thesis
  proof (cases "bv_pending_receive_info ?v")
    case None
    then show ?thesis
      unfolding bv_source_epoch_def None by simp
  next
    case (Some i)
    have "source_or_link b \<noteq> 0"
      using Some by (auto split: if_splits)
    then have "(\<exists>r. b = LegacyReceive r) \<or> (\<exists>r. b = LegacyOpen r)"
      using assms(2) by (cases b) (simp_all add: source_or_link_def block_base_defs)
    then have "pi_epoch i = Epoch0"
      using rule unfolding ensure_legacy_source_is_epoch_0_def Some by (auto split: if_splits)
    then show ?thesis
      unfolding bv_source_epoch_def Some by simp
  qed
qed

text \<open>Legacy blocks stay in epoch 0, the epoch that their encoding implies.\<close>

lemma legacy_epoch:
  assumes "accepted verify c now l b" and "accounts_ok l" and "blocks_ok l" and "is_legacy b"
  shows "bv_epoch (create_validator c now l b) = Epoch0"
proof -
  let ?v = "create_validator c now l b"
  have "old_epoch_version ?v = Epoch0"
  proof (cases "fmlookup (l_account l) (bv_account ?v)")
    case None
    then show ?thesis
      by (simp add: old_epoch_version_def)
  next
    case (Some i)
    from accepted_old_account [OF assms(1,2) Some] obtain p where p:
      "fmlookup (l_block l) (previous b) = Some p" "saved_epoch p = ai_epoch i"
      "valid_predecessor b (block_type (svb_block p))"
      by blast
    then have "block_type (svb_block p) \<noteq> BT_State"
      using assms(4)
      by (cases b; auto simp: block_base_defs valid_receive_block_predecessor_def
          valid_change_block_predecessor_def)
    moreover have "normalise p = p"
      using assms(3) p(1) by (auto simp: blocks_ok_def normalised_def)
    then have "svb_sideband (normalise p) = svb_sideband p"
      by simp
    ultimately have "saved_epoch p = Epoch0"
      by (cases "svb_block p")
        (auto simp: normalise_def fill_sideband_def block_base_defs block_details_new_def
          dest: arg_cong [where f = sd_details] arg_cong [where f = "\<lambda>s. bd_epoch (sd_details s)"])
    then show ?thesis
      using Some p by (simp add: old_epoch_version_def)
  qed
  moreover have "bv_source_epoch ?v = Epoch0"
    using legacy_source_epoch [OF assms(1,4)] .
  moreover have "\<not> is_epoch_block ?v"
    using assms(4) by (cases b) (simp_all add: is_epoch_block_def)
  ultimately show ?thesis
    by (simp add: bv_epoch_def)
qed

lemma new_saved_account:
  "saved_account (new_saved (create_validator c now l b)) = bv_account (create_validator c now l b)"
  by (cases b)
    (simp_all add: new_saved_def saved_account_def new_sideband_def bv_account_create_validator
      block_base_defs)

lemma new_saved_balance:
  assumes "accepted verify c now l b" and "accounts_ok l"
  shows "saved_balance (new_saved (create_validator c now l b)) = new_balance (create_validator c now l b)"
proof -
  let ?v = "create_validator c now l b"
  note eq = previous_balance_old [OF assms]
  show ?thesis
  proof (cases b)
    case (LegacySend s)
    then have "\<not> is_open b"
      by simp
    with accepted_new_account [OF assms(1)] obtain i where "bv_old_account_info ?v = Some i"
      by (cases "bv_old_account_info ?v") auto
    moreover have "ensure_no_negative_amount_send ?v = Inr ()"
      using assms(1) by (auto simp: accepted_def validate_Inr)
    ultimately have "new_balance ?v = sh_balance (sb_hashables s)"
      using LegacySend eq by (intro new_balance_send(1) [of _ _ i]) simp_all
    then show ?thesis
      by (simp add: new_saved_def saved_balance_def LegacySend)
  next
    case (State st)
    then show ?thesis
      using eq new_balance_state [of ?v st] by (simp add: new_saved_def saved_balance_def)
  qed (simp_all add: new_saved_def saved_balance_def new_sideband_def)
qed

lemma new_saved_height:
  assumes "accepted verify c now l b"
  shows "saved_height (normalise (new_saved (create_validator c now l b)))
    = new_block_count (create_validator c now l b)"
proof (cases "block_type b = BT_LegacyOpen")
  case True
  then have "is_open b"
    by (cases b) (simp_all add: block_base_defs)
  then have "bv_old_account_info (create_validator c now l b) = None"
    using assms by (auto simp: accepted_def validate_Inr account_exists_def)
  then show ?thesis
    unfolding new_block_count_def by (simp add: normalise_height True new_saved_def)
next
  case False
  then show ?thesis
    by (simp add: normalise_height new_saved_def new_sideband_def)
qed

lemma new_saved_epoch:
  assumes "accepted verify c now l b" and "accounts_ok l" and "blocks_ok l"
  shows "saved_epoch (normalise (new_saved (create_validator c now l b)))
    = bv_epoch (create_validator c now l b)"
  using legacy_epoch [OF assms]
  by (cases b)
    (simp_all add: normalise_def fill_sideband_def new_saved_def new_sideband_def
      bv_block_details_def block_details_new_def)

lemma normalise_successor: "sd_successor (svb_sideband (normalise b)) = sd_successor (svb_sideband b)"
  by (cases "svb_block b") (simp_all add: normalise_def fill_sideband_def)

lemma accounts_ok_after:
  assumes "accepted verify c now l b" and "accounts_ok l" and "blocks_ok l" and "hash b \<noteq> 0"
  shows "accounts_ok (ledger_after (create_validator c now l b) w l)"
  unfolding accounts_ok_def
proof (intro allI impI)
  let ?v = "create_validator c now l b"
  let ?t = "blocks_after ?v (l_block l)"
  fix a i
  assume "fmlookup (l_account (ledger_after ?v w l)) a = Some i"
  then consider "a = bv_account ?v" "i = new_account_info ?v"
    | "a \<noteq> bv_account ?v" "fmlookup (l_account l) a = Some i"
    by (auto simp: ledger_after_def split: if_splits)
  then have "head_of ?t a i"
  proof cases
    case 1
    then show ?thesis
      using assms(4) accepted_account [OF assms(1)]
      by (simp add: head_of_def blocks_after_lookup [OF assms(1)] new_saved_account
          new_saved_balance [OF assms(1,2)] new_saved_height [OF assms(1)]
          new_saved_epoch [OF assms(1-3)] normalise_successor)
        (simp add: new_saved_def new_sideband_def)
  next
    case 2
    then have head: "head_of (l_block l) a i"
      using assms(2) by (simp add: accounts_ok_def)
    then obtain p where p: "fmlookup (l_block l) (ai_head i) = Some p" "saved_account p = a"
      by (auto simp: head_of_def)
    have "ai_head i \<noteq> hash b"
      using accepted_new_hash [OF assms(1)] p(1) by (auto simp: block_exists_or_pruned_def split: if_splits)
    moreover have "ai_head i \<noteq> previous b" if nz: "previous b \<noteq> 0"
    proof
      assume eq: "ai_head i = previous b"
      obtain i' where i': "fmlookup (l_account l) (bv_account ?v) = Some i'"
        using accepted_new_account(2) [OF assms(1)] nz
        by (cases "fmlookup (l_account l) (bv_account ?v)") auto
      from accepted_old_account [OF assms(1,2) i'] p eq show False
        using 2(1) by (metis option.inject)
    qed
    ultimately show ?thesis
      using head by (auto simp: head_of_def blocks_after_lookup [OF assms(1)])
  qed
  then show "head_of (l_block (ledger_after ?v w l)) a i"
    by (simp add: ledger_after_def)
qed

text \<open>The central lemma: an accepted block that does not mint is inserted without a panic.\<close>

lemma process_inv:
  assumes "accepted verify c now l b" and "ledger_inv l" and "hash b \<noteq> 0"
    and "\<not> mints (create_validator c now l b)"
  obtains w where
    "process verify c now l b
       = Some (Inr (new_saved (create_validator c now l b), ledger_after (create_validator c now l b) w l))"
    "ledger_inv (ledger_after (create_validator c now l b) w l)"
    "total_supply (ledger_after (create_validator c now l b) w l) = total_supply l"
proof -
  let ?v = "create_validator c now l b"
  from assms(2) have inv: "blocks_ok l" "accounts_ok l" "pending_ok l" "rep_weights_ok l"
    "total_supply l < 2 ^ 128"
    by (simp_all add: ledger_inv_def)
  from process_accepted [OF assms(1) inv(2,4) assms(3)] obtain w where w:
    "process verify c now l b = Some (Inr (new_saved ?v, ledger_after ?v w l))"
    "weights_ok w"
    "\<And>r. stored_weight w r = delegated (fmupd (bv_account ?v) (new_account_info ?v) (l_account l)) r"
    by blast
  have "rep_weights_ok (ledger_after ?v w l)"
    using w(2,3) by (simp add: rep_weights_ok_def ledger_after_def)
  moreover have tot: "total_supply (ledger_after ?v w l) = total_supply l"
    by (rule supply_after [OF assms(1) inv(2,3,5) assms(4)])
  ultimately have "ledger_inv (ledger_after ?v w l)"
    using inv blocks_ok_after [OF assms(1) inv(1) assms(3)]
      accounts_ok_after [OF assms(1) inv(2,1) assms(3)] pending_ok_after [OF assms(1) inv(3)]
    by (simp add: ledger_inv_def)
  with w(1) tot that show ?thesis
    by blast
qed

lemma process_rejected:
  "\<not> accepted verify c now l b \<Longrightarrow> \<exists>e. process verify c now l b = Some (Inl e)"
  by (auto simp: accepted_def process_def split: sum.splits)

lemma process_Inr_accepted:
  "process verify c now l b = Some (Inr r) \<Longrightarrow> accepted verify c now l b"
  by (auto simp: process_def accepted_def split: sum.splits)

end
