(* ===== verification/Chains.thy ===== *)
theory Chains
  imports Ledger_Inv
begin

text \<open>
  The structure of account chains and of the funds that move between them, for a ledger that
  does not prune: every block but the first of an account has its predecessor in the ledger,
  one block up and pointing back to it; every send is receivable or was received once, by a
  block of the destination account and with the same amount; no block depends on itself. The
  theory shows that \<open>process\<close> keeps this structure; rollback and cementing rest on it.
\<close>

section \<open>The chain invariant\<close>

definition genesis_hash :: "ledger_constants \<Rightarrow> block_hash" where
  "genesis_hash c = hash (svb_block (lc_genesis_block c))"

definition prev_balance :: "block_table \<Rightarrow> block \<Rightarrow> amount" where
  "prev_balance t b = (case fmlookup t (previous b) of Some p \<Rightarrow> saved_balance p | None \<Rightarrow> 0)"

text \<open>The genesis block is stored as a receive of a source that does not exist.\<close>

definition is_recv :: "ledger_constants \<Rightarrow> saved_block \<Rightarrow> bool" where
  "is_recv c b \<longleftrightarrow>
     bd_is_receive (sd_details (svb_sideband b)) \<and> hash (svb_block b) \<noteq> genesis_hash c"

definition links_ok :: "block_table \<Rightarrow> bool" where
  "links_ok t \<longleftrightarrow> (\<forall>h b. fmlookup t h = Some b \<longrightarrow>
     (if previous (svb_block b) = 0 then is_open (svb_block b) \<and> saved_height b = 1
      else \<not> is_open (svb_block b) \<and>
        (\<exists>p. fmlookup t (previous (svb_block b)) = Some p \<and> saved_account p = saved_account b
           \<and> unat (saved_height b) = Suc (unat (saved_height p))
           \<and> sd_successor (svb_sideband p) = h)))"

definition ends_ok :: "ledger \<Rightarrow> bool" where
  "ends_ok l \<longleftrightarrow> (\<forall>h b. fmlookup (l_block l) h = Some b \<longrightarrow>
     (\<exists>i. fmlookup (l_account l) (saved_account b) = Some i
        \<and> unat (saved_height b) \<le> unat (ai_block_count i)
        \<and> (if sd_successor (svb_sideband b) = 0 then ai_head i = h
           else \<exists>s. fmlookup (l_block l) (sd_successor (svb_sideband b)) = Some s
                  \<and> previous (svb_block s) = h)))"

definition heights_ok :: "block_table \<Rightarrow> bool" where
  "heights_ok t \<longleftrightarrow> (\<forall>h h' b b'. fmlookup t h = Some b \<longrightarrow> fmlookup t h' = Some b' \<longrightarrow>
     saved_account b = saved_account b' \<longrightarrow> saved_height b = saved_height b' \<longrightarrow> h = h')"

definition send_ok :: "ledger_constants \<Rightarrow> ledger \<Rightarrow> block_hash \<Rightarrow> saved_block \<Rightarrow> bool" where
  "send_ok c l h b \<longleftrightarrow>
     saved_balance b < prev_balance (l_block l) (svb_block b) \<and>
     (case fmlookup (l_pending l) (PendingKey (destination_or_link (svb_block b)) h) of
        Some i \<Rightarrow> pi_amount i = prev_balance (l_block l) (svb_block b) - saved_balance b
          \<and> pi_source i = saved_account b
      | None \<Rightarrow> \<exists>h' r. fmlookup (l_block l) h' = Some r \<and> is_recv c r
          \<and> saved_account r = destination_or_link (svb_block b) \<and> source_or_link (svb_block r) = h)"

definition recv_ok :: "ledger \<Rightarrow> saved_block \<Rightarrow> bool" where
  "recv_ok l b \<longleftrightarrow>
     prev_balance (l_block l) (svb_block b) < saved_balance b \<and>
     fmlookup (l_pending l) (PendingKey (saved_account b) (source_or_link (svb_block b))) = None \<and>
     (\<exists>s. fmlookup (l_block l) (source_or_link (svb_block b)) = Some s \<and> saved_is_send s
        \<and> destination_or_link (svb_block s) = saved_account b
        \<and> prev_balance (l_block l) (svb_block s) - saved_balance s
            = saved_balance b - prev_balance (l_block l) (svb_block b))"

definition flows_ok :: "ledger_constants \<Rightarrow> ledger \<Rightarrow> bool" where
  "flows_ok c l \<longleftrightarrow> (\<forall>h b. fmlookup (l_block l) h = Some b \<longrightarrow> h \<noteq> genesis_hash c \<longrightarrow>
     (if saved_is_send b then send_ok c l h b
      else if is_recv c b then recv_ok l b
      else saved_balance b = prev_balance (l_block l) (svb_block b)))"

definition kinds_ok :: "ledger_constants \<Rightarrow> block_table \<Rightarrow> bool" where
  "kinds_ok c t \<longleftrightarrow> (\<forall>h b st. fmlookup t h = Some b \<longrightarrow> svb_block b = State st \<longrightarrow>
     h \<noteq> genesis_hash c \<longrightarrow>
     (bd_is_receive (sd_details (svb_sideband b)) \<longleftrightarrow>
        \<not> is_epoch_link (lc_epochs c) (sth_link (stb_hashables st))
        \<and> \<not> bd_is_send (sd_details (svb_sideband b)) \<and> sth_link (stb_hashables st) \<noteq> 0))"

definition unique_recv :: "ledger_constants \<Rightarrow> block_table \<Rightarrow> bool" where
  "unique_recv c t \<longleftrightarrow> (\<forall>h h' b b'. fmlookup t h = Some b \<longrightarrow> fmlookup t h' = Some b' \<longrightarrow>
     is_recv c b \<longrightarrow> is_recv c b' \<longrightarrow> source_or_link (svb_block b) = source_or_link (svb_block b') \<longrightarrow> h = h')"

definition pending_sends :: "ledger_constants \<Rightarrow> ledger \<Rightarrow> bool" where
  "pending_sends c l \<longleftrightarrow> (\<forall>k i. fmlookup (l_pending l) k = Some i \<longrightarrow>
     send_block_hash k \<noteq> genesis_hash c \<and>
     (\<exists>s. fmlookup (l_block l) (send_block_hash k) = Some s \<and> saved_is_send s
        \<and> destination_or_link (svb_block s) = receiving_account k))"

text \<open>The blocks that a stored block builds on.\<close>

definition depends_on :: "ledger_constants \<Rightarrow> saved_block \<Rightarrow> block_hash set" where
  "depends_on c b =
     (if previous (svb_block b) \<noteq> 0 then {previous (svb_block b)} else {})
     \<union> (if is_recv c b then {source_or_link (svb_block b)} else {})"

definition ranked :: "ledger_constants \<Rightarrow> block_table \<Rightarrow> (block_hash \<Rightarrow> nat) \<Rightarrow> bool" where
  "ranked c t rank \<longleftrightarrow>
     (\<forall>h b. fmlookup t h = Some b \<longrightarrow> (\<forall>d\<in>depends_on c b. rank d < rank h))"

text \<open>The representative of a chain is the one named by its latest block that names one.\<close>

inductive rep_via :: "block_table \<Rightarrow> block_hash \<Rightarrow> public_key \<Rightarrow> bool" for t where
  rep_here: "fmlookup t h = Some b \<Longrightarrow> representative_field (svb_block b) = Some r \<Longrightarrow> rep_via t h r"
| rep_before: "fmlookup t h = Some b \<Longrightarrow> representative_field (svb_block b) = None \<Longrightarrow>
    rep_via t (previous (svb_block b)) r \<Longrightarrow> rep_via t h r"

inductive_cases rep_viaE: "rep_via t h r"

definition reps_ok :: "ledger \<Rightarrow> bool" where
  "reps_ok l \<longleftrightarrow> (\<forall>a i. fmlookup (l_account l) a = Some i \<longrightarrow>
     rep_via (l_block l) (ai_head i) (ai_representative i))"

text \<open>The open block of an account is stored, belongs to the account and has no predecessor.\<close>

definition opens_ok :: "ledger \<Rightarrow> bool" where
  "opens_ok l \<longleftrightarrow> (\<forall>a i. fmlookup (l_account l) a = Some i \<longrightarrow>
     (\<exists>b. fmlookup (l_block l) (ai_open_block i) = Some b \<and> saved_account b = a \<and> previous (svb_block b) = 0))"

definition chain_inv :: "ledger_constants \<Rightarrow> ledger \<Rightarrow> bool" where
  "chain_inv c l \<longleftrightarrow> ledger_inv l \<and> l_pruned l = fmempty
     \<and> (\<exists>g. fmlookup (l_block l) (genesis_hash c) = Some g \<and> \<not> saved_is_send g)
     \<and> links_ok (l_block l) \<and> ends_ok l \<and> heights_ok (l_block l)
     \<and> flows_ok c l \<and> kinds_ok c (l_block l) \<and> unique_recv c (l_block l) \<and> pending_sends c l
     \<and> (\<exists>rank. ranked c (l_block l) rank) \<and> reps_ok l \<and> opens_ok l"


lemma rep_via_mono:
  assumes "rep_via t h r"
    and "\<And>h b. fmlookup t h = Some b \<Longrightarrow> \<exists>b'. fmlookup t' h = Some b' \<and> svb_block b' = svb_block b"
  shows "rep_via t' h r"
  using assms(1)
proof induction
  case (rep_here h b r)
  with assms(2) [OF rep_here(1)] show ?case
    by (auto intro: rep_via.rep_here)
next
  case (rep_before h b r)
  with assms(2) [OF rep_before(1)] show ?case
    by (auto intro: rep_via.rep_before)
qed

lemma is_recv_set_successor [simp]: "is_recv c (set_successor s b) = is_recv c b"
  by (simp add: is_recv_def)

lemma depends_on_set_successor [simp]: "depends_on c (set_successor s b) = depends_on c b"
  by (simp add: depends_on_def)

section \<open>An accepted block in a well-formed ledger\<close>

text \<open>
  \<open>legacy_zero_send\<close>: a legacy send that leaves the balance as it is. The rules accept it, but the
  rollback planner does not recognise it as a send.
\<close>

definition legacy_zero_send :: "block_validator \<Rightarrow> bool" where
  "legacy_zero_send v =
     (case bv_block v of
        LegacySend s \<Rightarrow> sh_balance (sb_hashables s) = previous_balance v
      | _ \<Rightarrow> False)"

text \<open>
  \<open>regular\<close>: the condition on a block under which the ledger keeps its invariant. The validator does
  not enforce it. The hash is not zero, the block is not a state block with an epoch link that raises
  the balance, it is not a legacy send of amount zero, and the chain of its account is shorter than
  $2^{64} - 1$ blocks.
\<close>

definition regular :: "ledger_constants \<Rightarrow> u64 \<Rightarrow> ledger \<Rightarrow> block \<Rightarrow> bool" where
  "regular c now l b \<longleftrightarrow>
     hash b \<noteq> 0
     \<and> \<not> mints (create_validator c now l b) \<and> \<not> legacy_zero_send (create_validator c now l b)
     \<and> (\<forall>i. fmlookup (l_account l) (bv_account (create_validator c now l b)) = Some i \<longrightarrow>
          ai_block_count i \<noteq> - 1)"

definition good_step :: "ed25519_verify \<Rightarrow> ledger_constants \<Rightarrow> u64 \<Rightarrow> ledger \<Rightarrow> block \<Rightarrow> bool" where
  "good_step verify c now l b \<longleftrightarrow> accepted verify c now l b \<and> regular c now l b"

lemma blocks_ok_zero: "blocks_ok l \<Longrightarrow> fmlookup (l_block l) 0 = None"
  by (metis blocks_ok_def option.exhaust)

lemma chain_invD:
  assumes "chain_inv c l"
  shows "ledger_inv l" "l_pruned l = fmempty" "fmlookup (l_block l) (genesis_hash c) \<noteq> None"
    "links_ok (l_block l)" "ends_ok l" "heights_ok (l_block l)" "flows_ok c l"
    "kinds_ok c (l_block l)" "unique_recv c (l_block l)" "pending_sends c l"
    "\<exists>rank. ranked c (l_block l) rank" "reps_ok l"
    "blocks_ok l" "accounts_ok l" "pending_ok l" "rep_weights_ok l" "total_supply l < 2 ^ 128"
    "fmlookup (l_block l) 0 = None"
    "\<And>g. fmlookup (l_block l) (genesis_hash c) = Some g \<Longrightarrow> \<not> saved_is_send g"
    "opens_ok l"
  using assms by (auto simp: chain_inv_def ledger_inv_def blocks_ok_zero)

lemma new_hash_absent:
  assumes "accepted verify c now l b"
  shows "fmlookup (l_block l) (hash b) = None"
  using accepted_new_hash [OF assms] by (auto simp: block_exists_or_pruned_def split: if_splits)

lemma new_not_genesis:
  assumes "accepted verify c now l b" and "chain_inv c l"
  shows "hash b \<noteq> genesis_hash c"
  using new_hash_absent [OF assms(1)] chain_invD(3) [OF assms(2)] by auto

lemma after_old:
  assumes "accepted verify c now l b" and "fmlookup (l_block l) x = Some y"
  shows "x \<noteq> hash b"
    "\<exists>s. fmlookup (blocks_after (create_validator c now l b) (l_block l)) x = Some (set_successor s y)"
proof -
  show ne: "x \<noteq> hash b"
    using new_hash_absent [OF assms(1)] assms(2) by auto
  have "y = set_successor (sd_successor (svb_sideband y)) y"
    by (simp add: set_successor_same)
  then show "\<exists>s. fmlookup (blocks_after (create_validator c now l b) (l_block l)) x = Some (set_successor s y)"
    using ne assms(2) unfolding blocks_after_lookup [OF assms(1)] by auto
qed

lemma after_cases:
  assumes "accepted verify c now l b"
    and "fmlookup (blocks_after (create_validator c now l b) (l_block l)) x = Some y'"
  obtains (new) "x = hash b" "y' = normalise (new_saved (create_validator c now l b))"
  | (old) s y where "x \<noteq> hash b" "fmlookup (l_block l) x = Some y" "y' = set_successor s y"
      "s = (if previous b \<noteq> 0 \<and> x = previous b then hash b else sd_successor (svb_sideband y))"
  using assms(2) unfolding blocks_after_lookup [OF assms(1)]
  by (fastforce split: if_splits simp: set_successor_same)

lemma prev_balance_after:
  assumes "accepted verify c now l b" and "previous k \<noteq> hash b"
  shows "prev_balance (blocks_after (create_validator c now l b) (l_block l)) k = prev_balance (l_block l) k"
  using assms(2) unfolding prev_balance_def blocks_after_lookup [OF assms(1)]
  by (auto split: option.splits)

lemma stored_previous_ne_new:
  assumes "accepted verify c now l b" and "chain_inv c l" and "hash b \<noteq> 0"
    and "fmlookup (l_block l) x = Some y"
  shows "previous (svb_block y) \<noteq> hash b"
proof
  assume eq: "previous (svb_block y) = hash b"
  with assms(3) chain_invD(4) [OF assms(2)] assms(4) have "fmlookup (l_block l) (hash b) \<noteq> None"
    by (force simp: links_ok_def)
  then show False
    using new_hash_absent [OF assms(1)] by simp
qed

lemma new_previous_ne:
  assumes "accepted verify c now l b" and "hash b \<noteq> 0"
  shows "previous b \<noteq> hash b"
proof
  assume eq: "previous b = hash b"
  with assms(2) have "previous b \<noteq> 0"
    by simp
  from accepted_predecessor [OF assms(1) this] eq new_hash_absent [OF assms(1)] show False
    by simp
qed

lemma prev_balance_new:
  assumes "accepted verify c now l b" and "chain_inv c l"
  shows "prev_balance (l_block l) b = old_balance (create_validator c now l b)"
proof -
  have "prev_balance (l_block l) b = previous_balance (create_validator c now l b)"
    using chain_invD(18) [OF assms(2)]
    by (auto simp: prev_balance_def previous_balance_def load_previous_block_def get_block_def
        unwrap_or_def split: option.splits)
  then show ?thesis
    using previous_balance_old [OF assms(1) chain_invD(14) [OF assms(2)]] by simp
qed

lemma new_saved_is_send:
  "saved_is_send (normalise (new_saved (create_validator c now l b))) = bv_is_send (create_validator c now l b)"
  unfolding normalise_accessors
  by (cases b)
    (simp_all add: saved_is_send_def new_saved_def new_sideband_def bv_block_details_def
      block_details_new_def bv_is_send_def)

lemma new_is_recv:
  assumes "accepted verify c now l b" and "chain_inv c l"
  shows "is_recv c (normalise (new_saved (create_validator c now l b)))
    = bv_is_receive (create_validator c now l b)"
  using new_not_genesis [OF assms]
  by (cases b)
    (simp_all add: is_recv_def normalise_def fill_sideband_def new_saved_def new_sideband_def
      bv_block_details_def block_details_new_def bv_is_receive_def)

lemma new_saved_block [simp]: "svb_block (new_saved (create_validator c now l b)) = b"
  by (simp add: new_saved_def)

text \<open>The account of a stored predecessor is the account of the new block.\<close>

lemma predecessor_account:
  assumes "accepted verify c now l b" and "chain_inv c l" and "previous b \<noteq> 0"
  obtains p i where "fmlookup (l_block l) (previous b) = Some p"
    "fmlookup (l_account l) (bv_account (create_validator c now l b)) = Some i"
    "previous b = ai_head i" "\<not> is_open b" "saved_account p = bv_account (create_validator c now l b)"
    "saved_height p = ai_block_count i" "saved_balance p = ai_balance i"
proof -
  obtain i where i: "fmlookup (l_account l) (bv_account (create_validator c now l b)) = Some i"
    using accepted_new_account(2) [OF assms(1)] assms(3)
    by (cases "fmlookup (l_account l) (bv_account (create_validator c now l b))") auto
  from accepted_old_account [OF assms(1) chain_invD(14) [OF assms(2)] i] that i show ?thesis
    by metis
qed

lemma good_stepD:
  assumes "good_step verify c now l b"
  shows "accepted verify c now l b" "hash b \<noteq> 0" "\<not> mints (create_validator c now l b)"
    "\<not> legacy_zero_send (create_validator c now l b)"
    "\<And>i. fmlookup (l_account l) (bv_account (create_validator c now l b)) = Some i \<Longrightarrow>
       ai_block_count i \<noteq> - 1"
  using assms by (auto simp: good_step_def regular_def)

section \<open>Preservation of the chain structure\<close>

lemma unat_Suc_word: "unat (w + 1 :: 'a::len word) = Suc (unat w)" if "w \<noteq> - 1"
proof -
  have "unat w \<noteq> unat (- 1 :: 'a word)"
    using that word_unat_eq_iff by blast
  then show ?thesis
    using that by (metis add.commute max_word_wrap unatSuc)
qed

lemma new_block_count_Suc:
  assumes "good_step verify c now l b"
    and "fmlookup (l_account l) (bv_account (create_validator c now l b)) = Some i"
  shows "unat (new_block_count (create_validator c now l b)) = Suc (unat (ai_block_count i))"
  using good_stepD(5) [OF assms] assms(2) by (simp add: new_block_count_def unat_Suc_word)

lemma first_block_account:
  assumes "accepted verify c now l b" and "chain_inv c l" and "previous b = 0"
  shows "fmlookup (l_account l) (bv_account (create_validator c now l b)) = None" "is_open b"
proof -
  show none: "fmlookup (l_account l) (bv_account (create_validator c now l b)) = None"
  proof (rule ccontr)
    assume "fmlookup (l_account l) (bv_account (create_validator c now l b)) \<noteq> None"
    then obtain i where i: "fmlookup (l_account l) (bv_account (create_validator c now l b)) = Some i"
      by blast
    from accepted_old_account [OF assms(1) chain_invD(14) [OF assms(2)] i] assms(3) show False
      by metis
  qed
  then show "is_open b"
    using accepted_new_account(1) [OF assms(1)] by simp
qed

lemma links_ok_after:
  assumes "good_step verify c now l b" and "chain_inv c l"
  shows "links_ok (blocks_after (create_validator c now l b) (l_block l))"
  unfolding links_ok_def
proof (intro allI impI)
  let ?v = "create_validator c now l b"
  let ?t = "blocks_after ?v (l_block l)"
  note acc = good_stepD(1) [OF assms(1)]
  fix x y
  assume "fmlookup ?t x = Some y"
  from acc this show "if previous (svb_block y) = 0 then is_open (svb_block y) \<and> saved_height y = 1
    else \<not> is_open (svb_block y) \<and> (\<exists>p. fmlookup ?t (previous (svb_block y)) = Some p
      \<and> saved_account p = saved_account y \<and> unat (saved_height y) = Suc (unat (saved_height p))
      \<and> sd_successor (svb_sideband p) = x)"
  proof (cases rule: after_cases)
    case new
    show ?thesis
    proof (cases "previous b = 0")
      case True
      then show ?thesis
        using first_block_account [OF acc assms(2) True] new
        by (simp add: new_saved_height [OF acc] new_block_count_def)
    next
      case False
      from predecessor_account [OF acc assms(2) False] obtain p i where p:
        "fmlookup (l_block l) (previous b) = Some p" "\<not> is_open b" "saved_account p = bv_account ?v"
        "fmlookup (l_account l) (bv_account ?v) = Some i" "saved_height p = ai_block_count i"
        by blast
      moreover have "fmlookup ?t (previous b) = Some (set_successor (hash b) p)"
        using p(1) False new_previous_ne [OF acc good_stepD(2) [OF assms(1)]]
        by (simp add: blocks_after_lookup [OF acc])
      ultimately show ?thesis
        using new False new_block_count_Suc [OF assms(1) p(4)]
        by (simp add: new_saved_height [OF acc] new_saved_account)
    qed
  next
    case (old s z)
    show ?thesis
    proof (cases "previous (svb_block z) = 0")
      case True
      then show ?thesis
        using old chain_invD(4) [OF assms(2)] by (auto simp: links_ok_def)
    next
      case False
      with chain_invD(4) [OF assms(2)] old(2) obtain p where p:
        "\<not> is_open (svb_block z)" "fmlookup (l_block l) (previous (svb_block z)) = Some p"
        "saved_account p = saved_account z" "unat (saved_height z) = Suc (unat (saved_height p))"
        "sd_successor (svb_sideband p) = x"
        by (force simp: links_ok_def)
      have "x \<noteq> 0"
        using old(2) chain_invD(18) [OF assms(2)] by auto
      have "previous (svb_block z) \<noteq> previous b"
      proof
        assume eq: "previous (svb_block z) = previous b"
        with False obtain i where "fmlookup (l_account l) (bv_account ?v) = Some i" "previous b = ai_head i"
          using predecessor_account [OF acc assms(2)] by metis
        then have "head_of (l_block l) (bv_account ?v) i"
          using chain_invD(14) [OF assms(2)] by (simp add: accounts_ok_def)
        with p(2,5) eq \<open>previous b = ai_head i\<close> \<open>x \<noteq> 0\<close> show False
          by (auto simp: head_of_def)
      qed
      then have "fmlookup ?t (previous (svb_block z)) = Some p"
        using p(2) stored_previous_ne_new [OF acc assms(2) good_stepD(2) [OF assms(1)] old(2)]
        by (simp add: blocks_after_lookup [OF acc])
      then show ?thesis
        using old False p by simp
    qed
  qed
qed

lemma ends_ok_after:
  assumes "good_step verify c now l b" and "chain_inv c l"
  shows "ends_ok (ledger_after (create_validator c now l b) w l)"
  unfolding ends_ok_def
proof (intro allI impI)
  let ?v = "create_validator c now l b"
  let ?l = "ledger_after ?v w l"
  note acc = good_stepD(1) [OF assms(1)]
  have l': "l_block ?l = blocks_after ?v (l_block l)"
    "l_account ?l = fmupd (bv_account ?v) (new_account_info ?v) (l_account l)"
    by (simp_all add: ledger_after_def)
  fix x y
  assume "fmlookup (l_block ?l) x = Some y"
  then have "fmlookup (blocks_after ?v (l_block l)) x = Some y"
    by (simp add: l')
  from acc this show "\<exists>i. fmlookup (l_account ?l) (saved_account y) = Some i
    \<and> unat (saved_height y) \<le> unat (ai_block_count i)
    \<and> (if sd_successor (svb_sideband y) = 0 then ai_head i = x
       else \<exists>s. fmlookup (l_block ?l) (sd_successor (svb_sideband y)) = Some s \<and> previous (svb_block s) = x)"
  proof (cases rule: after_cases)
    case new
    then show ?thesis
      by (simp add: l' new_saved_account new_saved_height [OF acc] normalise_successor)
        (simp add: new_saved_def new_sideband_def)
  next
    case (old s z)
    from chain_invD(5) [OF assms(2)] old(2) obtain i where i:
      "fmlookup (l_account l) (saved_account z) = Some i" "unat (saved_height z) \<le> unat (ai_block_count i)"
      "if sd_successor (svb_sideband z) = 0 then ai_head i = x
       else \<exists>s. fmlookup (l_block l) (sd_successor (svb_sideband z)) = Some s \<and> previous (svb_block s) = x"
      by (fastforce simp: ends_ok_def)
    have succ: "\<exists>s'. fmlookup (l_block ?l) s = Some s' \<and> previous (svb_block s') = x"
      if "x = previous b" "previous b \<noteq> 0"
      using that old(4) by (simp add: l' blocks_after_lookup [OF acc])
    have keep: "\<exists>s'. fmlookup (l_block ?l) q = Some s' \<and> previous (svb_block s') = x"
      if "fmlookup (l_block l) q = Some s0" "previous (svb_block s0) = x" for q s0
      using after_old(2) [OF acc that(1)] that(2) by (auto simp: l')
    show ?thesis
    proof (cases "saved_account z = bv_account ?v")
      case True
      then have eq: "previous b = ai_head i" "previous b \<noteq> 0"
        using i(1) accepted_old_account [OF acc chain_invD(14) [OF assms(2)], of i] by metis+
      have le: "unat (saved_height z) \<le> unat (new_block_count ?v)"
        using new_block_count_Suc [OF assms(1), of i] i(1,2) True by simp
      show ?thesis
      proof (cases "x = previous b")
        case True
        with old eq succ le \<open>saved_account z = _\<close> good_stepD(2) [OF assms(1)] show ?thesis
          by (simp add: l')
      next
        case False
        with i(3) eq have "sd_successor (svb_sideband z) \<noteq> 0"
          by auto
        moreover from this i(3) keep have "\<exists>s'. fmlookup (l_block ?l) (sd_successor (svb_sideband z)) = Some s'
            \<and> previous (svb_block s') = x"
          by auto
        ultimately show ?thesis
          using old False le True by (simp add: l')
      qed
    next
      case False
      have "x \<noteq> previous b" if nz: "previous b \<noteq> 0"
      proof
        assume "x = previous b"
        with old(2) False show False
          using predecessor_account [OF acc assms(2) nz] by (metis option.inject)
      qed
      then have "s = sd_successor (svb_sideband z)"
        using old(4) by auto
      then show ?thesis
        using old False i keep by (auto simp: l' split: if_splits)
    qed
  qed
qed

lemma heights_ok_after:
  assumes "good_step verify c now l b" and "chain_inv c l"
  shows "heights_ok (blocks_after (create_validator c now l b) (l_block l))"
proof -
  let ?v = "create_validator c now l b"
  let ?t = "blocks_after ?v (l_block l)"
  note acc = good_stepD(1) [OF assms(1)]
  have fresh: "saved_height z \<noteq> new_block_count ?v"
    if "fmlookup (l_block l) x = Some z" "saved_account z = bv_account ?v" for x z
  proof -
    from chain_invD(5) [OF assms(2)] that obtain i where
      "fmlookup (l_account l) (bv_account ?v) = Some i" "unat (saved_height z) \<le> unat (ai_block_count i)"
      by (fastforce simp: ends_ok_def)
    with new_block_count_Suc [OF assms(1)] show ?thesis
      by force
  qed
  show ?thesis
    unfolding heights_ok_def
  proof (intro allI impI)
    fix x x' y y'
    assume *: "fmlookup ?t x = Some y" "fmlookup ?t x' = Some y'"
      "saved_account y = saved_account y'" "saved_height y = saved_height y'"
    from acc *(1) show "x = x'"
    proof (cases rule: after_cases)
      case new
      from acc *(2) show ?thesis
        by (cases rule: after_cases)
          (use new * fresh in \<open>auto simp: new_saved_account new_saved_height [OF acc]\<close>)
    next
      case (old s z)
      note o = this
      from acc *(2) show ?thesis
      proof (cases rule: after_cases)
        case new
        with o * fresh show ?thesis
          by (auto simp: new_saved_account new_saved_height [OF acc])
      next
        case (old s' z')
        with o * chain_invD(6) [OF assms(2)] show ?thesis
          by (auto simp: heights_ok_def)
      qed
    qed
  qed
qed

lemma kinds_ok_after:
  assumes "good_step verify c now l b" and "chain_inv c l"
  shows "kinds_ok c (blocks_after (create_validator c now l b) (l_block l))"
  unfolding kinds_ok_def
proof (intro allI impI)
  let ?v = "create_validator c now l b"
  note acc = good_stepD(1) [OF assms(1)]
  fix x y st
  assume *: "fmlookup (blocks_after ?v (l_block l)) x = Some y" "svb_block y = State st" "x \<noteq> genesis_hash c"
  from acc *(1) show "bd_is_receive (sd_details (svb_sideband y)) =
    (\<not> is_epoch_link (lc_epochs c) (sth_link (stb_hashables st))
     \<and> \<not> bd_is_send (sd_details (svb_sideband y)) \<and> sth_link (stb_hashables st) \<noteq> 0)"
  proof (cases rule: after_cases)
    case new
    then have b: "b = State st"
      using *(2) by simp
    have link: "sth_link (stb_hashables st) \<noteq> 0" if "fmlookup (l_account l) (bv_account ?v) = None"
      using acc accepted_new_account(1) [OF acc that] b
      by (auto simp: accepted_def validate_Inr ensure_open_block_has_link_def split: if_splits)
    have "sd_details (svb_sideband y) = bv_block_details ?v"
      using new b by (simp add: normalise_def fill_sideband_def new_saved_def new_sideband_def)
    then show ?thesis
      using b link
      by (auto simp: bv_block_details_def block_details_new_def bv_is_receive_def bv_is_send_def
          has_epoch_link_def split: option.splits)
  next
    case (old s z)
    with *(2,3) chain_invD(8) [OF assms(2)] show ?thesis
      by (auto simp: kinds_ok_def)
  qed
qed

lemma pending_after_lookup:
  "fmlookup (pending_after v t) k =
    (case new_pending_info v of
       Some (k', i) \<Rightarrow> if k = k' then Some i else
         (if delete_received_pending_info v = Some k then None else fmlookup t k)
     | None \<Rightarrow> if delete_received_pending_info v = Some k then None else fmlookup t k)"
  by (auto simp: pending_after_def Let_def split: option.splits)

lemma new_pending_info_dest:
  assumes "new_pending_info (create_validator c now l b) = Some (k, i)"
  shows "bv_is_send (create_validator c now l b)" "k = PendingKey (destination_or_link b) (hash b)"
    "pi_source i = bv_account (create_validator c now l b)"
  using assms
  by (cases b; auto simp: new_pending_info_def bv_is_send_def pending_key_for_send_block_def
      destination_or_link_def block_base_defs split: if_splits)+

lemma new_pending_info_send:
  assumes "bv_is_send v"
  shows "\<exists>k i. new_pending_info v = Some (k, i)"
  using assms by (auto simp: new_pending_info_def bv_is_send_def split: block.splits)

lemma pending_sends_after:
  assumes "good_step verify c now l b" and "chain_inv c l"
  shows "pending_sends c (ledger_after (create_validator c now l b) w l)"
  unfolding pending_sends_def
proof (intro allI impI)
  let ?v = "create_validator c now l b"
  let ?l = "ledger_after ?v w l"
  note acc = good_stepD(1) [OF assms(1)]
  fix k i
  assume "fmlookup (l_pending ?l) k = Some i"
  then have "fmlookup (pending_after ?v (l_pending l)) k = Some i"
    by (simp add: ledger_after_def)
  then consider "new_pending_info ?v = Some (k, i)" | "fmlookup (l_pending l) k = Some i"
    unfolding pending_after_lookup by (auto split: option.splits if_splits prod.splits)
  then show "send_block_hash k \<noteq> genesis_hash c \<and> (\<exists>s. fmlookup (l_block ?l) (send_block_hash k) = Some s
    \<and> saved_is_send s \<and> destination_or_link (svb_block s) = receiving_account k)"
  proof cases
    case 1
    from new_pending_info_dest [OF 1] show ?thesis
      using new_not_genesis [OF acc assms(2)]
      by (auto simp: ledger_after_def blocks_after_lookup [OF acc] new_saved_is_send
          simp del: normalise_accessors)
  next
    case 2
    with chain_invD(10) [OF assms(2)] obtain s where s: "send_block_hash k \<noteq> genesis_hash c"
      "fmlookup (l_block l) (send_block_hash k) = Some s" "saved_is_send s"
      "destination_or_link (svb_block s) = receiving_account k"
      by (auto simp: pending_sends_def)
    from after_old(2) [OF acc s(2)] s show ?thesis
      by (auto simp: ledger_after_def)
  qed
qed

text \<open>A stored receive is no send, and its source is stored.\<close>

lemma stored_recv_not_send:
  assumes "chain_inv c l" and "fmlookup (l_block l) h = Some r" and "is_recv c r"
  shows "\<not> saved_is_send r"
proof -
  have n: "normalise r = r" and h: "hash (svb_block r) = h"
    using chain_invD(13) [OF assms(1)] assms(2) by (auto simp: blocks_ok_def normalised_def)
  show ?thesis
  proof (cases "svb_block r")
    case (LegacySend s)
    then have "\<not> bd_is_receive (sd_details (svb_sideband (normalise r)))"
      by (simp add: normalise_def fill_sideband_def block_details_new_def)
    with n assms(3) show ?thesis
      by (simp add: is_recv_def)
  next
    case (State st)
    then show ?thesis
      using chain_invD(8) [OF assms(1)] assms(2,3) h by (auto simp: kinds_ok_def is_recv_def saved_is_send_def)
  qed (simp_all add: saved_is_send_def)
qed

lemma stored_recv_ok:
  assumes "chain_inv c l" and "fmlookup (l_block l) h = Some r" and "is_recv c r"
  shows "recv_ok l r"
proof -
  have "hash (svb_block r) = h"
    using chain_invD(13) [OF assms(1)] assms(2) by (auto simp: blocks_ok_def)
  then show ?thesis
    using chain_invD(7) [OF assms(1)] assms stored_recv_not_send [OF assms]
    by (auto simp: flows_ok_def is_recv_def)
qed

text \<open>What a new receive collects: the receivable entry of a stored send to its account.\<close>

lemma new_receive_source:
  assumes "accepted verify c now l b" and "chain_inv c l" and "bv_is_receive (create_validator c now l b)"
  obtains i s where
    "fmlookup (l_pending l) (PendingKey (bv_account (create_validator c now l b)) (source_or_link b)) = Some i"
    "fmlookup (l_block l) (source_or_link b) = Some s" "saved_is_send s"
    "destination_or_link (svb_block s) = bv_account (create_validator c now l b)"
    "amount_received (create_validator c now l b) = prev_balance (l_block l) (svb_block s) - saved_balance s"
    "saved_balance s < prev_balance (l_block l) (svb_block s)"
proof -
  let ?v = "create_validator c now l b"
  let ?k = "PendingKey (bv_account ?v) (source_or_link b)"
  from assms(1,3) obtain i where i: "fmlookup (l_pending l) ?k = Some i" "amount_received ?v = pi_amount i"
    by (auto simp: accepted_def validate_Inr ensure_pending_receive_is_correct_def split: if_splits)
  with chain_invD(10) [OF assms(2)] obtain s where s: "source_or_link b \<noteq> genesis_hash c"
    "fmlookup (l_block l) (source_or_link b) = Some s" "saved_is_send s"
    "destination_or_link (svb_block s) = bv_account ?v"
    by (force simp: pending_sends_def)
  then have "send_ok c l (source_or_link b) s"
    using chain_invD(7) [OF assms(2)] by (auto simp: flows_ok_def)
  with s i that show ?thesis
    by (auto simp: send_ok_def)
qed

lemma unique_recv_after:
  assumes "good_step verify c now l b" and "chain_inv c l"
  shows "unique_recv c (blocks_after (create_validator c now l b) (l_block l))"
proof -
  let ?v = "create_validator c now l b"
  let ?t = "blocks_after ?v (l_block l)"
  note acc = good_stepD(1) [OF assms(1)]
  have fresh: "source_or_link (svb_block z) \<noteq> source_or_link b"
    if "fmlookup (l_block l) x = Some z" "is_recv c z" "bv_is_receive ?v" for x z
  proof
    assume eq: "source_or_link (svb_block z) = source_or_link b"
    from new_receive_source [OF acc assms(2) that(3)] obtain i s where
      i: "fmlookup (l_pending l) (PendingKey (bv_account ?v) (source_or_link b)) = Some i"
      "fmlookup (l_block l) (source_or_link b) = Some s"
      "destination_or_link (svb_block s) = bv_account ?v"
      by blast
    from stored_recv_ok [OF assms(2) that(1,2)] i eq show False
      by (auto simp: recv_ok_def)
  qed
  note new_recv = new_is_recv [OF acc assms(2)]
  show ?thesis
    unfolding unique_recv_def
  proof (intro allI impI)
    fix x x' y y'
    assume *: "fmlookup ?t x = Some y" "fmlookup ?t x' = Some y'" "is_recv c y" "is_recv c y'"
      "source_or_link (svb_block y) = source_or_link (svb_block y')"
    from acc *(1) show "x = x'"
    proof (cases rule: after_cases)
      case new
      note n = this
      from acc *(2) show ?thesis
      proof (cases rule: after_cases)
        case (old s z)
        with n * fresh [of x' z] new_recv show ?thesis
          by simp
      qed (use n in simp)
    next
      case (old s z)
      note o = this
      from acc *(2) show ?thesis
      proof (cases rule: after_cases)
        case new
        with o * fresh [of x z] new_recv show ?thesis
          by simp
      next
        case (old s' z')
        with o * chain_invD(9) [OF assms(2)] show ?thesis
          by (auto simp: unique_recv_def)
      qed
    qed
  qed
qed

section \<open>Preservation of the flow of funds\<close>

lemma new_send_amount:
  assumes "good_step verify c now l b" and "chain_inv c l" and "bv_is_send (create_validator c now l b)"
    and "new_pending_info (create_validator c now l b) = Some (k, i)"
  shows "new_balance (create_validator c now l b) < old_balance (create_validator c now l b)"
    "pi_amount i = old_balance (create_validator c now l b) - new_balance (create_validator c now l b)"
proof -
  let ?v = "create_validator c now l b"
  note acc = good_stepD(1) [OF assms(1)]
  note eq = previous_balance_old [OF acc chain_invD(14) [OF assms(2)]]
  have "new_balance ?v < old_balance ?v
    \<and> pi_amount i = old_balance ?v - new_balance ?v"
  proof (cases b)
    case (LegacySend s)
    then have "\<not> is_open b"
      by simp
    with accepted_new_account [OF acc] obtain j where j: "bv_old_account_info ?v = Some j"
      by (cases "bv_old_account_info ?v") auto
    have "ensure_no_negative_amount_send ?v = Inr ()"
      using acc by (auto simp: accepted_def validate_Inr)
    then have nb: "new_balance ?v = sh_balance (sb_hashables s)" "sh_balance (sb_hashables s) \<le> old_balance ?v"
      using LegacySend eq j new_balance_send [of ?v s j] by simp_all
    moreover have "sh_balance (sb_hashables s) \<noteq> old_balance ?v"
      using good_stepD(4) [OF assms(1)] LegacySend eq by (simp add: legacy_zero_send_def)
    moreover have "pi_amount i = amount_sent ?v"
      using assms(4) LegacySend by (auto simp: new_pending_info_def)
    moreover have "amount_sent ?v = (if sh_balance (sb_hashables s) < old_balance ?v
        then old_balance ?v - sh_balance (sb_hashables s) else 0)"
      using LegacySend j by (simp add: amount_sent_def old_balance_def)
    ultimately show ?thesis
      by simp
  next
    case (State st)
    then have "new_balance ?v = sth_balance (stb_hashables st)"
      using eq by (intro new_balance_state) simp_all
    moreover have "sth_balance (stb_hashables st) < old_balance ?v"
      using assms(3) State
      by (cases "bv_old_account_info ?v") (auto simp: bv_is_send_def old_balance_def)
    moreover have "pi_amount i = bv_amount ?v"
      using assms(3,4) State by (auto simp: new_pending_info_def)
    ultimately show ?thesis
      by (simp add: bv_amount_def)
  qed (use assms(3) in \<open>simp_all add: bv_is_send_def\<close>)
  then show "new_balance ?v < old_balance ?v" "pi_amount i = old_balance ?v - new_balance ?v"
    by simp_all
qed

lemma new_receive_amount:
  assumes "good_step verify c now l b" and "chain_inv c l" and "bv_is_receive (create_validator c now l b)"
  shows "old_balance (create_validator c now l b) < new_balance (create_validator c now l b)"
    "new_balance (create_validator c now l b) - old_balance (create_validator c now l b)
      = amount_received (create_validator c now l b)"
proof -
  let ?v = "create_validator c now l b"
  note acc = good_stepD(1) [OF assms(1)]
  note eq = previous_balance_old [OF acc chain_invD(14) [OF assms(2)]]
  have nz: "amount_received ?v \<noteq> 0"
  proof (rule new_receive_source [OF acc assms(2,3)])
    fix i s
    assume "amount_received ?v = prev_balance (l_block l) (svb_block s) - saved_balance s"
      and "saved_balance s < prev_balance (l_block l) (svb_block s)"
    then show ?thesis
      by simp
  qed
  have "old_balance ?v < new_balance ?v \<and> new_balance ?v - old_balance ?v = amount_received ?v"
  proof (cases b)
    case (State st)
    then have "new_balance ?v = sth_balance (stb_hashables st)"
      using eq by (intro new_balance_state) simp_all
    with State nz eq show ?thesis
      by (auto simp: amount_received_def split: if_splits)
  next
    case (LegacyReceive r)
    then have nb: "new_balance ?v = old_balance ?v + pending_amount ?v" "amount_received ?v = pending_amount ?v"
      using new_balance_receive [of ?v] by (simp_all add: amount_received_def)
    with nz amount_less_add [OF old_balance_plus_pending_no_wrap [OF chain_invD(17) [OF assms(2)], of c now b]]
    show ?thesis
      by simp
  next
    case (LegacyOpen r)
    then have nb: "new_balance ?v = old_balance ?v + pending_amount ?v" "amount_received ?v = pending_amount ?v"
      using new_balance_receive [of ?v] by (simp_all add: amount_received_def)
    with nz amount_less_add [OF old_balance_plus_pending_no_wrap [OF chain_invD(17) [OF assms(2)], of c now b]]
    show ?thesis
      by simp
  qed (use assms(3) in \<open>simp_all add: bv_is_receive_def\<close>)
  then show "old_balance ?v < new_balance ?v" "new_balance ?v - old_balance ?v = amount_received ?v"
    by simp_all
qed

lemma send_not_receive:
  assumes "good_step verify c now l b" and "chain_inv c l" and "bv_is_send (create_validator c now l b)"
  shows "\<not> bv_is_receive (create_validator c now l b)"
proof
  assume r: "bv_is_receive (create_validator c now l b)"
  from new_pending_info_send [OF assms(3)] obtain k i where
    "new_pending_info (create_validator c now l b) = Some (k, i)"
    by blast
  from new_send_amount(1) [OF assms this] new_receive_amount(1) [OF assms(1,2) r] show False
    by simp
qed

lemma new_plain_balance:
  assumes "good_step verify c now l b" and "chain_inv c l"
    and "\<not> bv_is_send (create_validator c now l b)" "\<not> bv_is_receive (create_validator c now l b)"
  shows "new_balance (create_validator c now l b) = old_balance (create_validator c now l b)"
proof -
  let ?v = "create_validator c now l b"
  have "new_pending_info ?v = None"
    using assms(3) new_pending_info_dest(1) by (cases "new_pending_info ?v") auto
  then have "unat (new_balance ?v) = unat (old_balance ?v)"
    using accepted_conservation [OF good_stepD(1) [OF assms(1)] chain_invD(14,17) [OF assms(2)]
        good_stepD(3) [OF assms(1)]] assms(4)
    by (simp add: sent_amount_def collected_amount_def)
  then show ?thesis
    by (simp add: word_unat_eq_iff)
qed

lemma flows_new:
  assumes "good_step verify c now l b" and "chain_inv c l"
    and "y = normalise (new_saved (create_validator c now l b))"
  shows "if saved_is_send y then send_ok c (ledger_after (create_validator c now l b) w l) (hash b) y
    else if is_recv c y then recv_ok (ledger_after (create_validator c now l b) w l) y
    else saved_balance y = prev_balance (l_block (ledger_after (create_validator c now l b) w l)) (svb_block y)"
proof -
  let ?v = "create_validator c now l b"
  let ?l = "ledger_after ?v w l"
  note acc = good_stepD(1) [OF assms(1)]
  have l': "l_block ?l = blocks_after ?v (l_block l)" "l_pending ?l = pending_after ?v (l_pending l)"
    by (simp_all add: ledger_after_def)
  have sb: "svb_block y = b"
    by (simp add: assms(3))
  have bal: "saved_balance y = new_balance ?v" "saved_account y = bv_account ?v"
    by (simp_all add: assms(3) new_saved_balance [OF acc chain_invD(14) [OF assms(2)]] new_saved_account)
  have prev: "prev_balance (l_block ?l) b = old_balance ?v"
    using prev_balance_after [OF acc, of b] new_previous_ne [OF acc good_stepD(2) [OF assms(1)]]
      prev_balance_new [OF acc assms(2)] by (simp add: l')
  have kind: "saved_is_send y = bv_is_send ?v" "is_recv c y = bv_is_receive ?v"
    unfolding assms(3) by (rule new_saved_is_send, rule new_is_recv [OF acc assms(2)])
  consider "bv_is_send ?v" | "\<not> bv_is_send ?v" "bv_is_receive ?v" | "\<not> bv_is_send ?v" "\<not> bv_is_receive ?v"
    by blast
  then show ?thesis
  proof cases
    case 1
    from new_pending_info_send [OF 1] obtain k i where ki: "new_pending_info ?v = Some (k, i)"
      by blast
    then have "fmlookup (l_pending ?l) (PendingKey (destination_or_link b) (hash b)) = Some i"
      using new_pending_info_dest(2) [OF ki] by (simp add: l' pending_after_lookup)
    with new_send_amount [OF assms(1,2) 1 ki] new_pending_info_dest(3) [OF ki] 1 show ?thesis
      by (simp add: kind send_ok_def sb bal prev)
  next
    case 2
    have "new_pending_info ?v = None"
      using 2(1) new_pending_info_dest(1) by (cases "new_pending_info ?v") auto
    moreover have "delete_received_pending_info ?v = Some (PendingKey (bv_account ?v) (source_or_link b))"
      using 2(2) by (simp add: delete_received_pending_info_def)
    ultimately have gone: "fmlookup (l_pending ?l) (PendingKey (bv_account ?v) (source_or_link b)) = None"
      by (simp add: l' pending_after_lookup)
    obtain i s where "fmlookup (l_pending l) (PendingKey (bv_account ?v) (source_or_link b)) = Some i"
      and s: "fmlookup (l_block l) (source_or_link b) = Some s"
      "saved_is_send s" "destination_or_link (svb_block s) = bv_account ?v"
      "amount_received ?v = prev_balance (l_block l) (svb_block s) - saved_balance s"
      "saved_balance s < prev_balance (l_block l) (svb_block s)"
      by (rule new_receive_source [OF acc assms(2) 2(2)])
    have "prev_balance (l_block ?l) (svb_block s) = prev_balance (l_block l) (svb_block s)"
      using stored_previous_ne_new [OF acc assms(2) good_stepD(2) [OF assms(1)] s(1)]
      by (simp add: l' prev_balance_after [OF acc])
    moreover from after_old(2) [OF acc s(1)] obtain q where
      "fmlookup (l_block ?l) (source_or_link b) = Some (set_successor q s)"
      by (auto simp: l')
    ultimately have "\<exists>s'. fmlookup (l_block ?l) (source_or_link b) = Some s' \<and> saved_is_send s'
      \<and> destination_or_link (svb_block s') = bv_account ?v
      \<and> prev_balance (l_block ?l) (svb_block s') - saved_balance s' = new_balance ?v - old_balance ?v"
      using s new_receive_amount(2) [OF assms(1,2) 2(2)] by simp
    with 2 gone new_receive_amount(1) [OF assms(1,2) 2(2)] show ?thesis
      by (simp add: kind recv_ok_def sb bal prev)
  next
    case 3
    with new_plain_balance [OF assms(1,2)] show ?thesis
      by (simp add: kind sb bal prev)
  qed
qed

lemma flows_old:
  assumes "good_step verify c now l b" and "chain_inv c l"
    and "fmlookup (l_block l) x = Some z" and "x \<noteq> genesis_hash c"
  shows "if saved_is_send z then send_ok c (ledger_after (create_validator c now l b) w l) x z
    else if is_recv c z then recv_ok (ledger_after (create_validator c now l b) w l) z
    else saved_balance z = prev_balance (l_block (ledger_after (create_validator c now l b) w l)) (svb_block z)"
proof -
  let ?v = "create_validator c now l b"
  let ?l = "ledger_after ?v w l"
  note acc = good_stepD(1) [OF assms(1)]
  have l': "l_block ?l = blocks_after ?v (l_block l)" "l_pending ?l = pending_after ?v (l_pending l)"
    by (simp_all add: ledger_after_def)
  have prev: "prev_balance (l_block ?l) (svb_block s) = prev_balance (l_block l) (svb_block s)"
    if "fmlookup (l_block l) q = Some s" for q s
    using stored_previous_ne_new [OF acc assms(2) good_stepD(2) [OF assms(1)] that]
    by (simp add: l' prev_balance_after [OF acc])
  have keep: "\<exists>q. fmlookup (l_block ?l) h = Some (set_successor q s)" if "fmlookup (l_block l) h = Some s" for h s
    using after_old(2) [OF acc that] by (simp add: l')
  have other: "fmlookup (l_pending ?l) k = (if delete_received_pending_info ?v = Some k then None
      else fmlookup (l_pending l) k)" if "send_block_hash k \<noteq> hash b" for k
    using that new_pending_info_dest(2) [of c now l b]
    by (auto simp: l' pending_after_lookup split: option.splits)
  from chain_invD(7) [OF assms(2)] assms(3,4) have flow:
    "if saved_is_send z then send_ok c l x z else if is_recv c z then recv_ok l z
     else saved_balance z = prev_balance (l_block l) (svb_block z)"
    by (auto simp: flows_ok_def)
  consider "saved_is_send z" | "\<not> saved_is_send z" "is_recv c z" | "\<not> saved_is_send z" "\<not> is_recv c z"
    by blast
  then show ?thesis
  proof cases
    case 1
    let ?k = "PendingKey (destination_or_link (svb_block z)) x"
    from flow 1 have ok: "send_ok c l x z"
      by simp
    have "send_ok c ?l x z"
    proof (cases "delete_received_pending_info ?v = Some ?k")
      case True
      then have r: "bv_is_receive ?v" "source_or_link b = x" "bv_account ?v = destination_or_link (svb_block z)"
        by (auto simp: delete_received_pending_info_def split: if_splits)
      have "fmlookup (l_block ?l) (hash b) = Some (normalise (new_saved ?v))"
        by (simp add: l' blocks_after_lookup [OF acc])
      moreover have "is_recv c (normalise (new_saved ?v))"
        using r(1) new_is_recv [OF acc assms(2)] by simp
      ultimately have "\<exists>h' r. fmlookup (l_block ?l) h' = Some r \<and> is_recv c r
          \<and> saved_account r = destination_or_link (svb_block z) \<and> source_or_link (svb_block r) = x"
        using r by (intro exI [of _ "hash b"] exI [of _ "normalise (new_saved ?v)"]) (simp add: new_saved_account)
      moreover have "fmlookup (l_pending ?l) ?k = None"
        using True other [of ?k] after_old(1) [OF acc assms(3)] by simp
      ultimately show ?thesis
        using ok unfolding send_ok_def prev [OF assms(3)] by simp
    next
      case False
      then have "fmlookup (l_pending ?l) ?k = fmlookup (l_pending l) ?k"
        using other [of ?k] after_old(1) [OF acc assms(3)] by simp
      then show ?thesis
        using ok keep unfolding send_ok_def prev [OF assms(3)]
        by (fastforce split: option.splits)
    qed
    with 1 show ?thesis
      by simp
  next
    case 2
    with flow have ok: "recv_ok l z"
      by simp
    then obtain s where s: "fmlookup (l_block l) (source_or_link (svb_block z)) = Some s"
      "saved_is_send s" "destination_or_link (svb_block s) = saved_account z"
      "prev_balance (l_block l) (svb_block s) - saved_balance s
        = saved_balance z - prev_balance (l_block l) (svb_block z)"
      by (auto simp: recv_ok_def)
    from keep [OF s(1)] obtain q where
      "fmlookup (l_block ?l) (source_or_link (svb_block z)) = Some (set_successor q s)"
      by blast
    moreover have "fmlookup (l_pending ?l) (PendingKey (saved_account z) (source_or_link (svb_block z))) = None"
      using other after_old(1) [OF acc s(1)] ok by (simp add: recv_ok_def)
    ultimately have "recv_ok ?l z"
      using ok s prev [OF s(1)] prev [OF assms(3)] by (auto simp: recv_ok_def)
    with 2 show ?thesis
      by simp
  next
    case 3
    with flow prev [OF assms(3)] show ?thesis
      by simp
  qed
qed

lemma send_ok_set_successor [simp]: "send_ok c l h (set_successor s b) = send_ok c l h b"
  by (simp add: send_ok_def split: option.splits)

lemma recv_ok_set_successor [simp]: "recv_ok l (set_successor s b) = recv_ok l b"
  by (simp add: recv_ok_def)

lemma flows_ok_after:
  assumes "good_step verify c now l b" and "chain_inv c l"
  shows "flows_ok c (ledger_after (create_validator c now l b) w l)"
  unfolding flows_ok_def
proof (intro allI impI)
  let ?v = "create_validator c now l b"
  let ?l = "ledger_after ?v w l"
  note acc = good_stepD(1) [OF assms(1)]
  fix x y
  assume "fmlookup (l_block ?l) x = Some y" and x: "x \<noteq> genesis_hash c"
  then have "fmlookup (blocks_after ?v (l_block l)) x = Some y"
    by (simp add: ledger_after_def)
  from acc this show "if saved_is_send y then send_ok c ?l x y else if is_recv c y then recv_ok ?l y
    else saved_balance y = prev_balance (l_block ?l) (svb_block y)"
  proof (cases rule: after_cases)
    case new
    show ?thesis
      unfolding new(1) by (rule flows_new [OF assms new(2)])
  next
    case (old s z)
    then show ?thesis
      using flows_old [OF assms old(2) x, of w] by simp
  qed
qed

lemma stored_dependency:
  assumes "chain_inv c l" and "fmlookup (l_block l) h = Some y" and "d \<in> depends_on c y"
  shows "fmlookup (l_block l) d \<noteq> None"
  using assms(3) stored_recv_ok [OF assms(1,2)] chain_invD(4) [OF assms(1)] assms(2)
  by (force simp: depends_on_def links_ok_def recv_ok_def split: if_splits)

lemma ranked_after:
  assumes "good_step verify c now l b" and "chain_inv c l"
  shows "\<exists>rank. ranked c (blocks_after (create_validator c now l b) (l_block l)) rank"
proof -
  let ?v = "create_validator c now l b"
  let ?t = "blocks_after ?v (l_block l)"
  note acc = good_stepD(1) [OF assms(1)]
  from chain_invD(11) [OF assms(2)] obtain rank where rank: "ranked c (l_block l) rank" ..
  let ?r = "rank(hash b := Suc (rank (previous b) + rank (source_or_link b)))"
  have "ranked c ?t ?r"
    unfolding ranked_def
  proof (intro allI impI ballI)
    fix x y d
    assume "fmlookup ?t x = Some y" and d: "d \<in> depends_on c y"
    from acc this(1) show "?r d < ?r x"
    proof (cases rule: after_cases)
      case new
      then have "d = previous b \<or> d = source_or_link b \<and> bv_is_receive ?v"
        using d new_is_recv [OF acc assms(2)] by (auto simp: depends_on_def split: if_splits)
      moreover have "previous b \<noteq> hash b"
        by (rule new_previous_ne [OF acc good_stepD(2) [OF assms(1)]])
      moreover have "source_or_link b \<noteq> hash b" if r: "bv_is_receive ?v"
      proof (rule new_receive_source [OF acc assms(2) r])
        fix i s
        assume "fmlookup (l_block l) (source_or_link b) = Some s"
        then show ?thesis
          by (rule after_old(1) [OF acc])
      qed
      ultimately show ?thesis
        using new by auto
    next
      case (old s z)
      from d old have d': "d \<in> depends_on c z"
        by simp
      then have "d \<noteq> hash b"
        using stored_dependency [OF assms(2) old(2) d'] new_hash_absent [OF acc] by metis
      then show ?thesis
        using old rank d' by (auto simp: ranked_def)
    qed
  qed
  then show ?thesis
    by (rule exI [of _ ?r])
qed

lemma rep_via_after:
  assumes "accepted verify c now l b" and "rep_via (l_block l) h r"
  shows "rep_via (blocks_after (create_validator c now l b) (l_block l)) h r"
  using assms(2)
proof (rule rep_via_mono)
  fix x y
  assume "fmlookup (l_block l) x = Some y"
  from after_old(2) [OF assms(1) this]
  show "\<exists>b'. fmlookup (blocks_after (create_validator c now l b) (l_block l)) x = Some b'
    \<and> svb_block b' = svb_block y"
    by auto
qed

lemma new_representative_via:
  assumes "good_step verify c now l b" and "chain_inv c l"
  shows "rep_via (blocks_after (create_validator c now l b) (l_block l)) (hash b)
    (new_representative (create_validator c now l b))"
proof -
  let ?v = "create_validator c now l b"
  let ?t = "blocks_after ?v (l_block l)"
  note acc = good_stepD(1) [OF assms(1)]
  have here: "fmlookup ?t (hash b) = Some (normalise (new_saved ?v))"
    by (simp add: blocks_after_lookup [OF acc])
  show ?thesis
  proof (cases "representative_field b")
    case (Some r)
    then show ?thesis
      using rep_via.rep_here [OF here] by (simp add: new_representative_def)
  next
    case None
    then have "\<not> is_open b"
      by (cases b) (simp_all add: block_base_defs)
    then obtain i where i: "fmlookup (l_account l) (bv_account ?v) = Some i"
      using accepted_new_account(1) [OF acc] by (cases "fmlookup (l_account l) (bv_account ?v)") auto
    then have "previous b = ai_head i"
      using accepted_old_account [OF acc chain_invD(14) [OF assms(2)] i] by metis
    moreover have "rep_via (l_block l) (ai_head i) (ai_representative i)"
      using chain_invD(12) [OF assms(2)] i by (simp add: reps_ok_def)
    then have "rep_via ?t (ai_head i) (ai_representative i)"
      by (rule rep_via_after [OF acc])
    ultimately show ?thesis
      using rep_via.rep_before [OF here] None i
      by (simp add: new_representative_def old_representative_def)
  qed
qed

lemma reps_ok_after:
  assumes "good_step verify c now l b" and "chain_inv c l"
  shows "reps_ok (ledger_after (create_validator c now l b) w l)"
  unfolding reps_ok_def
proof (intro allI impI)
  let ?v = "create_validator c now l b"
  let ?l = "ledger_after ?v w l"
  note acc = good_stepD(1) [OF assms(1)]
  fix a i
  assume "fmlookup (l_account ?l) a = Some i"
  then consider "i = new_account_info ?v" | "fmlookup (l_account l) a = Some i"
    by (cases "a = bv_account ?v") (simp_all add: ledger_after_def)
  then have "rep_via (blocks_after ?v (l_block l)) (ai_head i) (ai_representative i)"
  proof cases
    case 1
    then show ?thesis
      using new_representative_via [OF assms] by simp
  next
    case 2
    then have "rep_via (l_block l) (ai_head i) (ai_representative i)"
      using chain_invD(12) [OF assms(2)] by (simp add: reps_ok_def)
    then show ?thesis
      by (rule rep_via_after [OF acc])
  qed
  then show "rep_via (l_block ?l) (ai_head i) (ai_representative i)"
    by (simp add: ledger_after_def)
qed

lemma opens_ok_after:
  assumes "good_step verify c now l b" and "chain_inv c l"
  shows "opens_ok (ledger_after (create_validator c now l b) w l)"
  unfolding opens_ok_def
proof (intro allI impI)
  let ?v = "create_validator c now l b"
  let ?l = "ledger_after ?v w l"
  note acc = good_stepD(1) [OF assms(1)]
  fix a i
  assume i: "fmlookup (l_account ?l) a = Some i"
  have kept: "\<exists>y. fmlookup (l_block ?l) x = Some y \<and> saved_account y = a \<and> previous (svb_block y) = 0"
    if "fmlookup (l_account l) a = Some j" "x = ai_open_block j" for x j
  proof -
    from chain_invD(20) [OF assms(2)] that obtain y where
      "fmlookup (l_block l) x = Some y" "saved_account y = a" "previous (svb_block y) = 0"
      by (auto simp: opens_ok_def)
    then show ?thesis
      using after_old(2) [OF acc, of x y] by (auto simp: ledger_after_def)
  qed
  show "\<exists>y. fmlookup (l_block ?l) (ai_open_block i) = Some y \<and> saved_account y = a \<and> previous (svb_block y) = 0"
  proof (cases "a = bv_account ?v")
    case False
    then show ?thesis
      using i kept by (simp add: ledger_after_def)
  next
    case True
    then have open': "ai_open_block i = bv_open_block ?v"
      using i by (auto simp: ledger_after_def)
    show ?thesis
    proof (cases "fmlookup (l_account l) a")
      case None
      have "ai_open_block i = hash b"
        using None True open' by (simp add: bv_open_block_def)
      moreover have "previous b = 0"
        using accepted_new_account(2) [OF acc] None True by simp
      ultimately show ?thesis
        using True new_saved_account [of c now l b]
        by (simp add: ledger_after_def blocks_after_lookup [OF acc])
    next
      case (Some j)
      then have "ai_open_block i = ai_open_block j"
        using True open' by (simp add: bv_open_block_def)
      then show ?thesis
        using kept [OF Some] by simp
    qed
  qed
qed

text \<open>Processing a block keeps the chain invariant.\<close>

lemma process_chain_inv:
  assumes "good_step verify c now l b" and "chain_inv c l"
  obtains w where
    "process verify c now l b
       = Some (Inr (new_saved (create_validator c now l b), ledger_after (create_validator c now l b) w l))"
    "chain_inv c (ledger_after (create_validator c now l b) w l)"
    "weights_ok w" "rw_min_weight w = rw_min_weight (l_weights l)"
proof -
  let ?v = "create_validator c now l b"
  note acc = good_stepD(1) [OF assms(1)]
  note inv = chain_invD [OF assms(2)]
  from process_accepted [OF acc inv(14,16) good_stepD(2) [OF assms(1)]] obtain w where w:
    "process verify c now l b = Some (Inr (new_saved ?v, ledger_after ?v w l))"
    "weights_ok w" "rw_min_weight w = rw_min_weight (l_weights l)"
    by metis
  obtain w' where w': "process verify c now l b = Some (Inr (new_saved ?v, ledger_after ?v w' l))"
    "ledger_inv (ledger_after ?v w' l)"
    by (rule process_inv [OF acc inv(1) good_stepD(2,3) [OF assms(1)]])
  have eq: "ledger_after ?v w' l = ledger_after ?v w l"
    using w(1) w'(1) by simp
  from inv(3) obtain g where g: "fmlookup (l_block l) (genesis_hash c) = Some g"
    by blast
  have gen: "\<exists>g. fmlookup (l_block (ledger_after ?v w l)) (genesis_hash c) = Some g \<and> \<not> saved_is_send g"
    using after_old(2) [OF acc g] inv(19) [OF g] by (auto simp: ledger_after_def)
  have "chain_inv c (ledger_after ?v w l)"
    using w'(2) eq gen inv(2) links_ok_after [OF assms] ends_ok_after [OF assms]
      heights_ok_after [OF assms] flows_ok_after [OF assms] kinds_ok_after [OF assms]
      unique_recv_after [OF assms] pending_sends_after [OF assms] ranked_after [OF assms]
      reps_ok_after [OF assms] opens_ok_after [OF assms]
    by (simp add: chain_inv_def) (simp add: ledger_after_def)
  with w that show ?thesis
    by blast
qed

end
