(* ===== verification/Rollback.thy ===== *)
theory Rollback
  imports Chains
begin

text \<open>
  Rolling back unconfirmed blocks (\<open>ledger/src/block_rollback\<close>): the planner factory gathers the
  data of an account's head block, the planner turns it into instructions or asks for the
  rollback of a dependent account first, the executor applies the instructions, and the
  performer repeats this until the requested block is gone. The two loops of the source, the
  performer's and \<open>RepresentativeBlockFinder::find_rep_block\<close>, are partial functions: not
  returning is \<open>None\<close>.
\<close>

section \<open>Representative blocks\<close>

partial_function (option) find_rep_block :: "block_table \<Rightarrow> block_hash \<Rightarrow> block_hash option" where
  "find_rep_block t current =
     (case fmlookup t current of
        None \<Rightarrow> Some 0
      | Some b \<Rightarrow>
          (case svb_block b of
             LegacySend _ \<Rightarrow> find_rep_block t (previous (svb_block b))
           | LegacyReceive _ \<Rightarrow> find_rep_block t (previous (svb_block b))
           | LegacyOpen _ \<Rightarrow>
               if hash (svb_block b) = 0 then find_rep_block t 0 else Some (hash (svb_block b))
           | LegacyChange _ \<Rightarrow>
               if hash (svb_block b) = 0 then find_rep_block t 0 else Some (hash (svb_block b))
           | State _ \<Rightarrow>
               if hash (svb_block b) = 0 then find_rep_block t 0 else Some (hash (svb_block b))))"

section \<open>Planner\<close>

datatype rollback_error =
    AccountNotFound
  | BlockNotFound
  | BlockIsConfirmed
  | NoLatestBlockForDestination
  | RollbackPanic

record rollback_instructions =
  rbi_block_hash :: block_hash
  rbi_block_sub_type :: block_sub_type
  rbi_account :: account
  rbi_remove_pending :: "pending_key option"
  rbi_add_pending :: "(pending_key \<times> pending_info) option"
  rbi_set_account_info :: account_info
  rbi_old_account_info :: account_info
  rbi_clear_successor :: "block_hash option"
  rbi_new_balance :: amount
  rbi_new_representative :: "public_key option"

datatype rollback_step =
    RollBackBlock rollback_instructions
  | RequestDependencyRollback block_hash

record rollback_planner =
  rp_epochs :: epochs
  rp_head_block :: saved_block
  rp_account :: account
  rp_current_account_info :: account_info
  rp_previous_representative :: "public_key option"
  rp_previous :: "saved_block option"
  rp_linked_account :: account
  rp_pending_receive :: "pending_info option"
  rp_latest_block_for_destination :: "block_hash option"
  rp_confirmation_height :: confirmation_height_info
  rp_seconds_since_epoch :: u64

definition ensure_block_is_not_confirmed :: "rollback_planner \<Rightarrow> rollback_error + unit" where
  "ensure_block_is_not_confirmed p =
     (if saved_height (rp_head_block p) \<le> ch_height (rp_confirmation_height p)
      then Inl BlockIsConfirmed else Inr ())"

definition rp_previous_balance :: "rollback_planner \<Rightarrow> amount" where
  "rp_previous_balance p = (case rp_previous p of Some b \<Rightarrow> saved_balance b | None \<Rightarrow> 0)"

definition rp_previous_epoch :: "rollback_planner \<Rightarrow> epoch" where
  "rp_previous_epoch p = (case rp_previous p of Some b \<Rightarrow> saved_epoch b | None \<Rightarrow> Epoch0)"

definition rp_block_sub_type :: "rollback_planner \<Rightarrow> block_sub_type" where
  "rp_block_sub_type p =
     (let bal = ai_balance (rp_current_account_info p); prev = rp_previous_balance p;
          b = svb_block (rp_head_block p)
      in if bal < prev then SubSend
         else if bal > prev then (if is_open b then SubOpen else SubReceive)
         else if is_epoch_link (rp_epochs p) (unwrap_or (link_field b) 0) then SubEpoch
         else SubChange)"

definition roll_back_destination_account_if_send_block_is_received ::
  "rollback_planner \<Rightarrow> rollback_error + rollback_step option" where
  "roll_back_destination_account_if_send_block_is_received p =
     (if rp_pending_receive p \<noteq> None then Inr None
      else case rp_latest_block_for_destination p of
        None \<Rightarrow> Inl NoLatestBlockForDestination
      | Some h \<Rightarrow> Inr (Some (RequestDependencyRollback h)))"

definition rp_add_pending :: "rollback_planner \<Rightarrow> (pending_key \<times> pending_info) option" where
  "rp_add_pending p =
     (if rp_block_sub_type p = SubOpen \<or> rp_block_sub_type p = SubReceive
      then Some (PendingKey (rp_account p) (source_or_link (svb_block (rp_head_block p))),
                 \<lparr>pi_source = rp_linked_account p,
                  pi_amount = ai_balance (rp_current_account_info p) - rp_previous_balance p,
                  pi_epoch = sd_source_epoch (svb_sideband (rp_head_block p))\<rparr>)
      else None)"

definition rp_remove_pending :: "rollback_planner \<Rightarrow> pending_key option" where
  "rp_remove_pending p =
     (if rp_block_sub_type p = SubSend
      then Some (PendingKey (destination_or_link (svb_block (rp_head_block p)))
                   (hash (svb_block (rp_head_block p))))
      else None)"

definition rp_previous_account_info :: "rollback_planner \<Rightarrow> account_info" where
  "rp_previous_account_info p =
     (if previous (svb_block (rp_head_block p)) = 0 then account_info_default
      else \<lparr>ai_head = previous (svb_block (rp_head_block p)),
            ai_representative = unwrap_or (rp_previous_representative p)
                                  (ai_representative (rp_current_account_info p)),
            ai_open_block = ai_open_block (rp_current_account_info p),
            ai_balance = rp_previous_balance p,
            ai_modified = rp_seconds_since_epoch p,
            ai_block_count = ai_block_count (rp_current_account_info p) - 1,
            ai_epoch = rp_previous_epoch p\<rparr>)"

definition plan_roll_back_head_block :: "rollback_planner \<Rightarrow> rollback_error + rollback_step" where
  "plan_roll_back_head_block p =
     and_then (ensure_block_is_not_confirmed p) (\<lambda>_.
     and_then (if rp_block_sub_type p = SubSend
               then roll_back_destination_account_if_send_block_is_received p
               else Inr None) (\<lambda>dep.
     case dep of
       Some s \<Rightarrow> Inr s
     | None \<Rightarrow> Inr (RollBackBlock \<lparr>
         rbi_block_hash = hash (svb_block (rp_head_block p)),
         rbi_block_sub_type = rp_block_sub_type p,
         rbi_account = rp_account p,
         rbi_remove_pending = rp_remove_pending p,
         rbi_add_pending = rp_add_pending p,
         rbi_set_account_info = rp_previous_account_info p,
         rbi_old_account_info = rp_current_account_info p,
         rbi_clear_successor = map_option (\<lambda>b. hash (svb_block b)) (rp_previous p),
         rbi_new_balance = rp_previous_balance p,
         rbi_new_representative = rp_previous_representative p\<rparr>)))"

section \<open>Planner factory\<close>

definition rb_load_block :: "ledger \<Rightarrow> block_hash \<Rightarrow> rollback_error + saved_block" where
  "rb_load_block l h = (case get_block l h of None \<Rightarrow> Inl BlockNotFound | Some b \<Rightarrow> Inr b)"

text \<open>The outer option is the loop of \<open>find_rep_block\<close>.\<close>

definition get_previous_representative ::
  "ledger \<Rightarrow> saved_block \<Rightarrow> (rollback_error + public_key option) option" where
  "get_previous_representative l head_block =
     do {
       rep_block_hash \<leftarrow> (if previous (svb_block head_block) \<noteq> 0
                          then find_rep_block (l_block l) (previous (svb_block head_block))
                          else Some 0);
       Some (if rep_block_hash \<noteq> 0
             then and_then (rb_load_block l rep_block_hash)
                    (\<lambda>b. Inr (Some (unwrap_or (representative_field (svb_block b)) 0)))
             else Inr None)
     }"

definition rb_load_previous_block :: "ledger \<Rightarrow> saved_block \<Rightarrow> rollback_error + saved_block option" where
  "rb_load_previous_block l head_block =
     (if previous (svb_block head_block) = 0 then Inr None
      else and_then (rb_load_block l (previous (svb_block head_block))) (\<lambda>b. Inr (Some b)))"

definition rb_get_account :: "ledger \<Rightarrow> saved_block \<Rightarrow> rollback_error + account" where
  "rb_get_account l b =
     (case block_account l (hash (svb_block b)) of None \<Rightarrow> Inl AccountNotFound | Some a \<Rightarrow> Inr a)"

definition create_planner ::
  "ledger_constants \<Rightarrow> u64 \<Rightarrow> ledger \<Rightarrow> saved_block \<Rightarrow> (rollback_error + rollback_planner) option" where
  "create_planner c now l head_block =
     (case rb_get_account l head_block of
        Inl e \<Rightarrow> Some (Inl e)
      | Inr a \<Rightarrow>
          map_option (\<lambda>prev_rep.
            and_then prev_rep (\<lambda>rep.
            and_then (rb_load_previous_block l head_block) (\<lambda>prev.
            Inr \<lparr>rp_epochs = lc_epochs c,
                 rp_head_block = head_block,
                 rp_account = a,
                 rp_current_account_info = unwrap_or (get_account l a) account_info_default,
                 rp_previous_representative = rep,
                 rp_previous = prev,
                 rp_linked_account =
                   unwrap_or (block_account l (source_or_link (svb_block head_block))) 0,
                 rp_pending_receive =
                   get_pending l (PendingKey (destination_or_link (svb_block head_block))
                                    (hash (svb_block head_block))),
                 rp_latest_block_for_destination =
                   account_head l (destination_or_link (svb_block head_block)),
                 rp_confirmation_height =
                   unwrap_or (fmlookup (l_conf l) (saved_account head_block)) confirmation_height_default,
                 rp_seconds_since_epoch = now\<rparr>)))
          (get_previous_representative l head_block))"

section \<open>Executor\<close>

definition rb_update_pending_table :: "rollback_instructions \<Rightarrow> ledger \<Rightarrow> ledger option" where
  "rb_update_pending_table i l =
     do {
       l \<leftarrow> (case rbi_remove_pending i of None \<Rightarrow> Some l | Some k \<Rightarrow> pending_del k l);
       Some (case rbi_add_pending i of None \<Rightarrow> l | Some (k, info) \<Rightarrow> pending_put k info l)
     }"

definition rb_update_block_table :: "rollback_instructions \<Rightarrow> ledger \<Rightarrow> ledger option" where
  "rb_update_block_table i l =
     do {
       l \<leftarrow> ledger_block_del (rbi_block_hash i) l;
       (case rbi_clear_successor i of None \<Rightarrow> Some l | Some h \<Rightarrow> ledger_successor_clear h l)
     }"

definition roll_back_representative_cache :: "rollback_instructions \<Rightarrow> ledger \<Rightarrow> ledger option" where
  "roll_back_representative_cache i l =
     map_option (\<lambda>w. l\<lparr>l_weights := w\<rparr>)
       (case rbi_new_representative i of
          Some previous_rep \<Rightarrow>
            representation_add_dual (l_weights l)
              (ai_representative (rbi_old_account_info i)) (0 - ai_balance (rbi_old_account_info i))
              previous_rep (rbi_new_balance i)
        | None \<Rightarrow>
            representation_add (l_weights l)
              (ai_representative (rbi_old_account_info i)) (0 - ai_balance (rbi_old_account_info i)))"

definition execute_rollback :: "rollback_instructions \<Rightarrow> ledger \<Rightarrow> ledger option" where
  "execute_rollback i l =
     do {
       l \<leftarrow> rb_update_pending_table i l;
       l \<leftarrow> update_account (rbi_account i) (rbi_old_account_info i) (rbi_set_account_info i) l;
       l \<leftarrow> rb_update_block_table i l;
       l \<leftarrow> roll_back_representative_cache i l;
       Some (l\<lparr>l_block_count := l_block_count l - 1\<rparr>)
     }"

section \<open>Performer\<close>

text \<open>
  The state of the performer is the ledger and the list of blocks rolled back so far. An error
  leaves the changes made so far in place, as the write transaction of the source does.
\<close>

type_synonym rollback_state = "ledger \<times> saved_block list"
type_synonym rollback_result = "(rollback_error \<times> rollback_state) + rollback_state"

definition load_account_head :: "ledger \<Rightarrow> saved_block \<Rightarrow> rollback_error + saved_block" where
  "load_account_head l b =
     (case get_account l (saved_account b) of
        None \<Rightarrow> Inl RollbackPanic
      | Some i \<Rightarrow> rb_load_block l (ai_head i))"

text \<open>One round of the loop: the head block of the account and the step for it.\<close>

definition next_rollback_step ::
  "ledger_constants \<Rightarrow> u64 \<Rightarrow> ledger \<Rightarrow> saved_block \<Rightarrow> (rollback_error + saved_block \<times> rollback_step) option" where
  "next_rollback_step c now l b =
     (case load_account_head l b of
        Inl e \<Rightarrow> Some (Inl e)
      | Inr head_block \<Rightarrow>
          map_option (\<lambda>r. and_then r (\<lambda>planner.
              and_then (plan_roll_back_head_block planner) (\<lambda>s. Inr (head_block, s))))
            (create_planner c now l head_block))"

partial_function (option) roll_back_loop ::
  "ledger_constants \<Rightarrow> u64 \<Rightarrow> saved_block \<Rightarrow> block_hash \<Rightarrow> rollback_state \<Rightarrow> rollback_result option" where
  "roll_back_loop c now b h st =
     (if \<not> block_exists (fst st) h then Some (Inr st)
      else Option.bind (next_rollback_step c now (fst st) b) (\<lambda>r.
        case r of
          Inl e \<Rightarrow> Some (Inl (e, st))
        | Inr (head_block, RollBackBlock ins) \<Rightarrow>
            (case execute_rollback ins (fst st) of
               None \<Rightarrow> Some (Inl (RollbackPanic, st))
             | Some l \<Rightarrow> roll_back_loop c now b h (l, snd st @ [head_block]))
        | Inr (head_block, RequestDependencyRollback d) \<Rightarrow>
            (case rb_load_block (fst st) d of
               Inl e \<Rightarrow> Some (Inl (e, st))
             | Inr b' \<Rightarrow>
                 Option.bind (roll_back_loop c now b' d st) (\<lambda>r'.
                   case r' of
                     Inl e \<Rightarrow> Some (Inl e)
                   | Inr st' \<Rightarrow> roll_back_loop c now b h st'))))"

definition roll_back :: "ledger_constants \<Rightarrow> u64 \<Rightarrow> ledger \<Rightarrow> block_hash \<Rightarrow> rollback_result option" where
  "roll_back c now l h =
     (case rb_load_block l h of
        Inl e \<Rightarrow> Some (Inl (e, l, []))
      | Inr b \<Rightarrow> roll_back_loop c now b h (l, []))"

end
