(* ===== verification/Rollback_Inv.thy ===== *)
theory Rollback_Inv
  imports Rollback
begin

text \<open>
  Rolling back the head block of an account: what the planner plans in a well-formed ledger,
  and that the executor keeps the ledger well-formed and the funds constant.
\<close>

section \<open>The representative of a chain\<close>

lemma representative_field_None:
  "representative_field b = None \<longleftrightarrow> (case b of LegacySend _ \<Rightarrow> True | LegacyReceive _ \<Rightarrow> True | _ \<Rightarrow> False)"
  by (cases b) (simp_all add: block_base_defs)

lemma find_rep_block_rep_via:
  assumes "rep_via (l_block l) h r" and "blocks_ok l"
  shows "\<exists>h' b. find_rep_block (l_block l) h = Some h' \<and> h' \<noteq> 0 \<and> fmlookup (l_block l) h' = Some b
    \<and> representative_field (svb_block b) = Some r"
  using assms(1)
proof induction
  case (rep_here h b r)
  then have "h \<noteq> 0" "hash (svb_block b) = h"
    using assms(2) by (auto simp: blocks_ok_def)
  with rep_here have "find_rep_block (l_block l) h = Some h"
    by (subst find_rep_block.simps) (cases "svb_block b"; simp add: block_base_defs)
  with rep_here \<open>h \<noteq> 0\<close> show ?case
    by blast
next
  case (rep_before h b r)
  then have "find_rep_block (l_block l) h = find_rep_block (l_block l) (previous (svb_block b))"
    by (subst find_rep_block.simps) (cases "svb_block b"; simp add: block_base_defs)
  with rep_before.IH show ?case
    by simp
qed

lemma rep_via_stored:
  assumes "chain_inv c l" and "fmlookup (l_block l) h = Some b"
  shows "\<exists>r. rep_via (l_block l) h r"
proof -
  from chain_invD(11) [OF assms(1)] obtain rank where rank: "ranked c (l_block l) rank" ..
  from assms(2) show ?thesis
  proof (induction "rank h" arbitrary: h b rule: less_induct)
    case less
    show ?case
    proof (cases "representative_field (svb_block b)")
      case (Some r)
      with less(2) show ?thesis
        by (blast intro: rep_here)
    next
      case None
      then have "\<not> is_open (svb_block b)"
        by (cases "svb_block b") (simp_all add: block_base_defs)
      with chain_invD(4) [OF assms(1)] less(2) obtain p where
        p: "fmlookup (l_block l) (previous (svb_block b)) = Some p" "previous (svb_block b) \<noteq> 0"
        unfolding links_ok_def by metis
      then have "rank (previous (svb_block b)) < rank h"
        using rank less(2) by (auto simp: ranked_def depends_on_def)
      from less(1) [OF this p(1)] less(2) None show ?thesis
        by (blast intro: rep_before)
    qed
  qed
qed

section \<open>The head block of an account\<close>

definition is_head :: "ledger_constants \<Rightarrow> ledger \<Rightarrow> account \<Rightarrow> account_info \<Rightarrow> saved_block \<Rightarrow> bool" where
  "is_head c l a i b \<longleftrightarrow> chain_inv c l \<and> fmlookup (l_account l) a = Some i
     \<and> fmlookup (l_block l) (ai_head i) = Some b"

text \<open>A head that is not the genesis block.\<close>

definition at_head :: "ledger_constants \<Rightarrow> ledger \<Rightarrow> account \<Rightarrow> account_info \<Rightarrow> saved_block \<Rightarrow> bool" where
  "at_head c l a i b \<longleftrightarrow> is_head c l a i b \<and> ai_head i \<noteq> genesis_hash c"

lemma at_head_is_head: "at_head c l a i b \<Longrightarrow> is_head c l a i b"
  by (simp add: at_head_def)

lemma is_headD:
  assumes "is_head c l a i b"
  shows "chain_inv c l" "fmlookup (l_account l) a = Some i" "fmlookup (l_block l) (ai_head i) = Some b"
    "hash (svb_block b) = ai_head i" "saved_account b = a" "saved_balance b = ai_balance i"
    "saved_height b = ai_block_count i" "saved_epoch b = ai_epoch i" "sd_successor (svb_sideband b) = 0"
    "ai_head i \<noteq> 0" "a \<noteq> 0"
proof -
  from assms show inv: "chain_inv c l" and i: "fmlookup (l_account l) a = Some i"
    and b: "fmlookup (l_block l) (ai_head i) = Some b"
    by (simp_all add: is_head_def)
  show "hash (svb_block b) = ai_head i"
    using chain_invD(13) [OF inv] b by (auto simp: blocks_ok_def)
  have "head_of (l_block l) a i"
    using chain_invD(14) [OF inv] i by (simp add: accounts_ok_def)
  then show "saved_account b = a" "saved_balance b = ai_balance i" "saved_height b = ai_block_count i"
    "saved_epoch b = ai_epoch i" "sd_successor (svb_sideband b) = 0" "ai_head i \<noteq> 0" "a \<noteq> 0"
    using b by (simp_all add: head_of_def)
qed

lemma is_head_exists:
  assumes "chain_inv c l" and "fmlookup (l_account l) a = Some i"
  obtains b where "is_head c l a i b"
  using chain_invD(14) [OF assms(1)] assms unfolding accounts_ok_def head_of_def is_head_def by blast

lemma at_headD:
  assumes "at_head c l a i b"
  shows "chain_inv c l" "fmlookup (l_account l) a = Some i" "fmlookup (l_block l) (ai_head i) = Some b"
    "hash (svb_block b) = ai_head i" "saved_account b = a" "saved_balance b = ai_balance i"
    "saved_height b = ai_block_count i" "saved_epoch b = ai_epoch i" "sd_successor (svb_sideband b) = 0"
    "ai_head i \<noteq> genesis_hash c" "ai_head i \<noteq> 0" "a \<noteq> 0"
  using assms is_headD [OF at_head_is_head [OF assms]] by (simp_all add: at_head_def)

lemma at_head_flows:
  assumes "at_head c l a i b"
  shows "if saved_is_send b then send_ok c l (ai_head i) b
    else if is_recv c b then recv_ok l b
    else saved_balance b = prev_balance (l_block l) (svb_block b)"
  using chain_invD(7) [OF at_headD(1) [OF assms]] at_headD(3,10) [OF assms] by (simp add: flows_ok_def)

text \<open>The block before the head, if the chain is longer than one block.\<close>

lemma is_head_predecessor:
  assumes "is_head c l a i b" and "previous (svb_block b) \<noteq> 0"
  obtains p where "fmlookup (l_block l) (previous (svb_block b)) = Some p" "saved_account p = a"
    "saved_height p = ai_block_count i - 1" "ai_block_count i \<noteq> 0" "sd_successor (svb_sideband p) = ai_head i"
    "hash (svb_block p) = previous (svb_block b)" "previous (svb_block b) \<noteq> ai_head i"
proof -
  note hd = is_headD [OF assms(1)]
  from chain_invD(4) [OF hd(1)] hd(3) assms(2) obtain p where
    p: "fmlookup (l_block l) (previous (svb_block b)) = Some p" "saved_account p = saved_account b"
      "unat (saved_height b) = Suc (unat (saved_height p))" "sd_successor (svb_sideband p) = ai_head i"
    unfolding links_ok_def by metis
  have nz: "saved_height b \<noteq> 0"
    using p(3) by (metis nat.distinct(1) unat_0)
  then have "unat (saved_height b - 1) = unat (saved_height p)"
    using p(3) by (simp add: unat_minus_one)
  then have h: "saved_height p = ai_block_count i - 1"
    using hd(7) by (simp add: word_unat_eq_iff)
  have "hash (svb_block p) = previous (svb_block b)"
    using chain_invD(13) [OF hd(1)] p(1) by (auto simp: blocks_ok_def)
  moreover have "previous (svb_block b) \<noteq> ai_head i"
    using p(4) hd(3,9,10) p(1) by auto
  ultimately show ?thesis
    using that p h nz hd(5,7) by metis
qed

lemmas at_head_predecessor = is_head_predecessor [OF at_head_is_head]

text \<open>Nothing builds on the head, except the receive of a send that is no longer receivable.\<close>

lemma at_head_not_previous:
  assumes "at_head c l a i b" and "fmlookup (l_block l) x = Some y"
  shows "previous (svb_block y) \<noteq> ai_head i"
proof
  note hd = at_headD [OF assms(1)]
  assume eq: "previous (svb_block y) = ai_head i"
  with hd(11) chain_invD(4) [OF hd(1)] assms(2) obtain p where
    p: "fmlookup (l_block l) (ai_head i) = Some p" "sd_successor (svb_sideband p) = x"
    unfolding links_ok_def by metis
  then have "x = 0"
    using hd(3,9) by simp
  then show False
    using assms(2) chain_invD(18) [OF hd(1)] by simp
qed

lemma at_head_not_source:
  assumes "at_head c l a i b" and "fmlookup (l_block l) x = Some y" and "is_recv c y"
    and "saved_is_send b \<Longrightarrow> fmlookup (l_pending l) (PendingKey (destination_or_link (svb_block b)) (ai_head i)) \<noteq> None"
  shows "source_or_link (svb_block y) \<noteq> ai_head i"
proof
  note hd = at_headD [OF assms(1)]
  assume eq: "source_or_link (svb_block y) = ai_head i"
  from stored_recv_ok [OF hd(1) assms(2,3)] eq hd(3) have "saved_is_send b"
    "destination_or_link (svb_block b) = saved_account y"
    "fmlookup (l_pending l) (PendingKey (saved_account y) (ai_head i)) = None"
    by (simp_all add: recv_ok_def)
  with assms(4) show False
    by simp
qed

section \<open>The plan\<close>

text \<open>The planner that the factory builds for the head block; \<open>r\<close> is the previous representative.\<close>

definition head_planner ::
  "ledger_constants \<Rightarrow> u64 \<Rightarrow> ledger \<Rightarrow> account \<Rightarrow> account_info \<Rightarrow> saved_block \<Rightarrow> public_key option
    \<Rightarrow> rollback_planner" where
  "head_planner c now l a i b r =
     \<lparr>rp_epochs = lc_epochs c, rp_head_block = b, rp_account = a, rp_current_account_info = i,
      rp_previous_representative = r,
      rp_previous = fmlookup (l_block l) (previous (svb_block b)),
      rp_linked_account = unwrap_or (block_account l (source_or_link (svb_block b))) 0,
      rp_pending_receive = fmlookup (l_pending l) (PendingKey (destination_or_link (svb_block b)) (ai_head i)),
      rp_latest_block_for_destination = account_head l (destination_or_link (svb_block b)),
      rp_confirmation_height = unwrap_or (fmlookup (l_conf l) a) confirmation_height_default,
      rp_seconds_since_epoch = now\<rparr>"

lemma create_planner_head:
  assumes "is_head c l a i b"
  obtains r where "create_planner c now l b = Some (Inr (head_planner c now l a i b r))"
    "previous (svb_block b) = 0 \<Longrightarrow> r = None"
    "previous (svb_block b) \<noteq> 0 \<Longrightarrow> \<exists>x. r = Some x \<and> rep_via (l_block l) (previous (svb_block b)) x"
proof (cases "previous (svb_block b) = 0")
  case True
  note hd = is_headD [OF assms]
  have "create_planner c now l b = Some (Inr (head_planner c now l a i b None))"
    using True hd chain_invD(18) [OF hd(1)]
    by (simp add: create_planner_def rb_get_account_def block_account_def get_block_def
        get_previous_representative_def rb_load_previous_block_def head_planner_def get_account_def
        get_pending_def)
  with True that show ?thesis
    by blast
next
  case False
  note hd = is_headD [OF assms]
  obtain p where p: "fmlookup (l_block l) (previous (svb_block b)) = Some p"
    by (rule is_head_predecessor [OF assms False])
  obtain x where x: "rep_via (l_block l) (previous (svb_block b)) x"
    using rep_via_stored [OF hd(1) p] by blast
  from find_rep_block_rep_via [OF x chain_invD(13) [OF hd(1)]] obtain h' b' where
    r: "find_rep_block (l_block l) (previous (svb_block b)) = Some h'" "h' \<noteq> 0"
      "fmlookup (l_block l) h' = Some b'" "representative_field (svb_block b') = Some x"
    by blast
  have "create_planner c now l b = Some (Inr (head_planner c now l a i b (Some x)))"
    using False hd p r
    by (simp add: create_planner_def rb_get_account_def block_account_def get_block_def rb_load_block_def
        get_previous_representative_def rb_load_previous_block_def head_planner_def get_account_def
        get_pending_def)
  with False x that show ?thesis
    by blast
qed

lemma rp_previous_balance_head [simp]:
  "rp_previous_balance (head_planner c now l a i b r) = prev_balance (l_block l) (svb_block b)"
  by (simp add: rp_previous_balance_def head_planner_def prev_balance_def)

lemma head_planner_sub_type:
  assumes "at_head c l a i b"
  shows "rp_block_sub_type (head_planner c now l a i b r) = SubSend \<longleftrightarrow> saved_is_send b"
    "rp_block_sub_type (head_planner c now l a i b r) \<in> {SubOpen, SubReceive} \<longleftrightarrow>
       \<not> saved_is_send b \<and> is_recv c b"
  using at_head_flows [OF assms] at_headD(6) [OF assms]
  by (auto simp: rp_block_sub_type_def Let_def send_ok_def recv_ok_def head_planner_def [of c now l a i b r]
      rp_previous_balance_head [unfolded head_planner_def] split: if_splits)

text \<open>The tables after the rollback of the head block.\<close>

definition blocks_without :: "saved_block \<Rightarrow> block_table \<Rightarrow> block_table" where
  "blocks_without b t =
     (let t' = fmdrop (hash (svb_block b)) t
      in case fmlookup t (previous (svb_block b)) of
           None \<Rightarrow> t'
         | Some p \<Rightarrow> fmupd (previous (svb_block b)) (set_successor 0 p) t')"

definition pending_without :: "ledger_constants \<Rightarrow> ledger \<Rightarrow> saved_block \<Rightarrow> pending_table" where
  "pending_without c l b =
     (if saved_is_send b
      then fmdrop (PendingKey (destination_or_link (svb_block b)) (hash (svb_block b))) (l_pending l)
      else if is_recv c b
      then fmupd (PendingKey (saved_account b) (source_or_link (svb_block b)))
             \<lparr>pi_source = unwrap_or (block_account l (source_or_link (svb_block b))) 0,
              pi_amount = saved_balance b - prev_balance (l_block l) (svb_block b),
              pi_epoch = sd_source_epoch (svb_sideband b)\<rparr> (l_pending l)
      else l_pending l)"

definition info_without :: "u64 \<Rightarrow> ledger \<Rightarrow> account_info \<Rightarrow> saved_block \<Rightarrow> public_key \<Rightarrow> account_info" where
  "info_without now l i b x =
     \<lparr>ai_head = previous (svb_block b), ai_representative = x, ai_open_block = ai_open_block i,
      ai_balance = prev_balance (l_block l) (svb_block b), ai_modified = now,
      ai_block_count = ai_block_count i - 1,
      ai_epoch = (case fmlookup (l_block l) (previous (svb_block b)) of Some p \<Rightarrow> saved_epoch p | None \<Rightarrow> Epoch0)\<rparr>"

definition accounts_without ::
  "u64 \<Rightarrow> ledger \<Rightarrow> account_info \<Rightarrow> saved_block \<Rightarrow> public_key option \<Rightarrow> (account, account_info) fmap" where
  "accounts_without now l i b r =
     (case r of
        None \<Rightarrow> fmdrop (saved_account b) (l_account l)
      | Some x \<Rightarrow> fmupd (saved_account b) (info_without now l i b x) (l_account l))"

definition ledger_without ::
  "ledger_constants \<Rightarrow> u64 \<Rightarrow> ledger \<Rightarrow> account_info \<Rightarrow> saved_block \<Rightarrow> public_key option \<Rightarrow> rep_weights \<Rightarrow> ledger" where
  "ledger_without c now l i b r w =
     l\<lparr>l_block := blocks_without b (l_block l),
       l_account := accounts_without now l i b r,
       l_pending := pending_without c l b,
       l_weights := w,
       l_block_count := l_block_count l - 1,
       l_account_count := (if r = None then l_account_count l - 1 else l_account_count l)\<rparr>"

definition head_confirmed :: "ledger \<Rightarrow> account \<Rightarrow> saved_block \<Rightarrow> bool" where
  "head_confirmed l a b \<longleftrightarrow>
     saved_height b \<le> ch_height (unwrap_or (fmlookup (l_conf l) a) confirmation_height_default)"

text \<open>Whether the head can go at once: it is no send, or nobody has received it.\<close>

definition removable :: "ledger \<Rightarrow> saved_block \<Rightarrow> bool" where
  "removable l b \<longleftrightarrow> (saved_is_send b \<longrightarrow>
     fmlookup (l_pending l) (PendingKey (destination_or_link (svb_block b)) (hash (svb_block b))) \<noteq> None)"

lemma plan_confirmed:
  assumes "head_confirmed l a b"
  shows "plan_roll_back_head_block (head_planner c now l a i b r) = Inl BlockIsConfirmed"
  using assms
  by (simp add: plan_roll_back_head_block_def ensure_block_is_not_confirmed_def head_planner_def head_confirmed_def)

lemma plan_not_confirmed:
  assumes "\<not> head_confirmed l a b"
  shows "ensure_block_is_not_confirmed (head_planner c now l a i b r) = Inr ()"
  using assms by (simp add: ensure_block_is_not_confirmed_def head_planner_def head_confirmed_def)

lemma plan_request:
  assumes "at_head c l a i b" and "\<not> head_confirmed l a b" and "\<not> removable l b"
  obtains j h' y where "fmlookup (l_account l) (destination_or_link (svb_block b)) = Some j"
    "plan_roll_back_head_block (head_planner c now l a i b r) = Inr (RequestDependencyRollback (ai_head j))"
    "fmlookup (l_block l) h' = Some y" "is_recv c y"
    "saved_account y = destination_or_link (svb_block b)" "source_or_link (svb_block y) = ai_head i"
proof -
  note hd = at_headD [OF assms(1)]
  from assms(3) hd(4) have send: "saved_is_send b"
    and none: "fmlookup (l_pending l) (PendingKey (destination_or_link (svb_block b)) (ai_head i)) = None"
    by (simp_all add: removable_def)
  from at_head_flows [OF assms(1)] send none obtain h' y where
    y: "fmlookup (l_block l) h' = Some y" "is_recv c y" "saved_account y = destination_or_link (svb_block b)"
      "source_or_link (svb_block y) = ai_head i"
    by (auto simp: send_ok_def)
  from chain_invD(5) [OF hd(1)] y(1,3) obtain j where
    j: "fmlookup (l_account l) (destination_or_link (svb_block b)) = Some j"
    unfolding ends_ok_def by metis
  have "roll_back_destination_account_if_send_block_is_received (head_planner c now l a i b r)
      = Inr (Some (RequestDependencyRollback (ai_head j)))"
    using none j
    by (simp add: roll_back_destination_account_if_send_block_is_received_def head_planner_def
        account_head_def get_account_def)
  then have "plan_roll_back_head_block (head_planner c now l a i b r) = Inr (RequestDependencyRollback (ai_head j))"
    using plan_not_confirmed [OF assms(2)] head_planner_sub_type(1) [OF assms(1)] send
    by (simp add: plan_roll_back_head_block_def)
  with j y that show ?thesis
    by blast
qed

lemma plan_block:
  assumes "at_head c l a i b" and "\<not> head_confirmed l a b" and "removable l b"
  shows "plan_roll_back_head_block (head_planner c now l a i b r) = Inr (RollBackBlock \<lparr>
      rbi_block_hash = ai_head i,
      rbi_block_sub_type = rp_block_sub_type (head_planner c now l a i b r),
      rbi_account = a,
      rbi_remove_pending = rp_remove_pending (head_planner c now l a i b r),
      rbi_add_pending = rp_add_pending (head_planner c now l a i b r),
      rbi_set_account_info = rp_previous_account_info (head_planner c now l a i b r),
      rbi_old_account_info = i,
      rbi_clear_successor = map_option (\<lambda>b. hash (svb_block b)) (fmlookup (l_block l) (previous (svb_block b))),
      rbi_new_balance = prev_balance (l_block l) (svb_block b),
      rbi_new_representative = r\<rparr>)"
proof -
  note hd = at_headD [OF assms(1)]
  have "roll_back_destination_account_if_send_block_is_received (head_planner c now l a i b r) = Inr None"
    if "saved_is_send b"
    using assms(3) that hd(4)
    by (simp add: roll_back_destination_account_if_send_block_is_received_def head_planner_def removable_def)
  moreover have "rp_head_block (head_planner c now l a i b r) = b" "rp_account (head_planner c now l a i b r) = a"
    "rp_current_account_info (head_planner c now l a i b r) = i"
    "rp_previous_representative (head_planner c now l a i b r) = r"
    "rp_previous (head_planner c now l a i b r) = fmlookup (l_block l) (previous (svb_block b))"
    by (simp_all add: head_planner_def)
  ultimately show ?thesis
    using plan_not_confirmed [OF assms(2)] head_planner_sub_type(1) [OF assms(1)] hd(4)
    by (simp add: plan_roll_back_head_block_def)
qed

section \<open>The execution\<close>

lemma pending_without_plan:
  assumes "at_head c l a i b" and "removable l b"
    and "ins = ins'\<lparr>rbi_remove_pending := rp_remove_pending (head_planner c now l a i b r),
                    rbi_add_pending := rp_add_pending (head_planner c now l a i b r)\<rparr>"
  shows "rb_update_pending_table ins l = Some (l\<lparr>l_pending := pending_without c l b\<rparr>)"
proof -
  note hd = at_headD [OF assms(1)]
  have rem: "rp_remove_pending (head_planner c now l a i b r) =
    (if saved_is_send b then Some (PendingKey (destination_or_link (svb_block b)) (hash (svb_block b))) else None)"
    using head_planner_sub_type(1) [OF assms(1), of now r]
    by (simp add: rp_remove_pending_def) (simp add: head_planner_def)
  have add: "rp_add_pending (head_planner c now l a i b r) =
    (if \<not> saved_is_send b \<and> is_recv c b
     then Some (PendingKey (saved_account b) (source_or_link (svb_block b)),
             \<lparr>pi_source = unwrap_or (block_account l (source_or_link (svb_block b))) 0,
              pi_amount = saved_balance b - prev_balance (l_block l) (svb_block b),
              pi_epoch = sd_source_epoch (svb_sideband b)\<rparr>)
     else None)"
    using head_planner_sub_type(2) [OF assms(1), of now r] hd(5,6)
    by (simp add: rp_add_pending_def) (simp add: head_planner_def)
  show ?thesis
    using assms(2) unfolding assms(3) rb_update_pending_table_def
    by (auto simp: rem add pending_without_def removable_def pending_del_def table_del_def pending_put_def)
qed

lemma blocks_without_plan:
  assumes "at_head c l a i b" and "l_block l' = l_block l"
    and "rbi_block_hash ins = ai_head i"
    and "rbi_clear_successor ins
      = map_option (\<lambda>b. hash (svb_block b)) (fmlookup (l_block l) (previous (svb_block b)))"
  shows "rb_update_block_table ins l' = Some (l'\<lparr>l_block := blocks_without b (l_block l)\<rparr>)"
proof -
  note hd = at_headD [OF assms(1)]
  show ?thesis
  proof (cases "previous (svb_block b) = 0")
    case True
    then show ?thesis
      using assms(2-4) hd(3,4) chain_invD(18) [OF hd(1)]
      by (simp add: rb_update_block_table_def ledger_block_del_def table_del_def blocks_without_def)
  next
    case False
    then show ?thesis
    proof (rule at_head_predecessor [OF assms(1)])
      fix p
      assume "fmlookup (l_block l) (previous (svb_block b)) = Some p"
        "hash (svb_block p) = previous (svb_block b)" "previous (svb_block b) \<noteq> ai_head i"
      then show ?thesis
        using assms(2-4) hd(3,4)
        by (simp add: rb_update_block_table_def ledger_block_del_def table_del_def blocks_without_def
            ledger_successor_clear_def successor_clear_def)
    qed
  qed
qed

lemma accounts_without_plan:
  assumes "at_head c l a i b" and "l_account l' = l_account l"
    and "previous (svb_block b) = 0 \<Longrightarrow> r = None"
    and "previous (svb_block b) \<noteq> 0 \<Longrightarrow> \<exists>x. r = Some x"
  shows "update_account a i (rp_previous_account_info (head_planner c now l a i b r)) l'
    = Some (l'\<lparr>l_account := accounts_without now l i b r,
               l_account_count := (if r = None then l_account_count l' - 1 else l_account_count l')\<rparr>)"
proof (cases "previous (svb_block b) = 0")
  case True
  then have "rp_previous_account_info (head_planner c now l a i b r) = account_info_default"
    by (simp add: rp_previous_account_info_def head_planner_def)
  then show ?thesis
    using True assms(2,3) at_headD [OF assms(1)]
    by (simp add: update_account_def account_del_def table_del_def accounts_without_def)
next
  case False
  then obtain x where "r = Some x"
    using assms(4) by blast
  then have "rp_previous_account_info (head_planner c now l a i b r) = info_without now l i b x"
    using False
    by (simp add: rp_previous_account_info_def rp_previous_epoch_def info_without_def)
      (simp add: head_planner_def)
  then show ?thesis
    using False assms(2) \<open>r = Some x\<close> at_headD [OF assms(1)]
    by (simp add: update_account_def account_del_def table_del_def accounts_without_def account_put_def)
      (simp add: info_without_def)
qed

lemma delegated_remove:
  assumes "fmlookup t a = Some i"
  shows "delegated (fmdrop a t) r = delegated t r - (if r = ai_representative i then ai_balance i else 0)"
  using table_sum_remove [OF assms, of "\<lambda>_ i. if r = ai_representative i then ai_balance i else 0"]
  by (simp add: delegated_def)

lemma weights_without_plan:
  assumes "at_head c l a i b" and "l_weights l' = l_weights l"
    and "rbi_old_account_info ins = i" and "rbi_new_representative ins = r"
    and "rbi_new_balance ins = prev_balance (l_block l) (svb_block b)"
  shows "\<exists>w. roll_back_representative_cache ins l' = Some (l'\<lparr>l_weights := w\<rparr>) \<and> weights_ok w
    \<and> rw_min_weight w = rw_min_weight (l_weights l)
    \<and> (\<forall>x. stored_weight w x = delegated (accounts_without now l i b r) x)"
proof -
  note hd = at_headD [OF assms(1)]
  from chain_invD(16) [OF hd(1)] have ok: "weights_ok (l_weights l)"
    and sum: "\<And>x. stored_weight (l_weights l) x = delegated (l_account l) x"
    by (simp_all add: rep_weights_ok_def)
  show ?thesis
  proof (cases r)
    case None
    from representation_add_ok [OF ok, of "ai_representative i" "0 - ai_balance i"]
    obtain w where "representation_add (l_weights l) (ai_representative i) (0 - ai_balance i) = Some w"
      "weights_ok w" "rw_min_weight w = rw_min_weight (l_weights l)"
      "\<forall>x. stored_weight w x = (if x = ai_representative i
         then stored_weight (l_weights l) (ai_representative i) + (0 - ai_balance i) else stored_weight (l_weights l) x)"
      by blast
    with None assms hd show ?thesis
      by (intro exI [of _ w])
        (simp add: roll_back_representative_cache_def accounts_without_def sum delegated_remove [OF hd(2)])
  next
    case (Some y)
    from representation_add_dual_ok [OF ok, of "ai_representative i" "0 - ai_balance i" y
        "prev_balance (l_block l) (svb_block b)"]
    obtain w where "representation_add_dual (l_weights l) (ai_representative i) (0 - ai_balance i) y
        (prev_balance (l_block l) (svb_block b)) = Some w"
      "weights_ok w" "rw_min_weight w = rw_min_weight (l_weights l)"
      "\<forall>x. stored_weight w x = stored_weight (l_weights l) x
         + (if x = ai_representative i then 0 - ai_balance i else 0)
         + (if x = y then prev_balance (l_block l) (svb_block b) else 0)"
      by blast
    with Some assms hd show ?thesis
      by (intro exI [of _ w])
        (simp add: roll_back_representative_cache_def accounts_without_def sum delegated_update [OF hd(2)]
          info_without_def)
  qed
qed

text \<open>
  What one round of the loop does with the head block of an account: the block is confirmed,
  or another account must be rolled back first, or the block goes.
\<close>

lemma next_step_head:
  assumes "is_head c l a i b" and "saved_account b0 = a"
  obtains r where
    "next_rollback_step c now l b0
       = Some (and_then (plan_roll_back_head_block (head_planner c now l a i b r)) (\<lambda>s. Inr (b, s)))"
    "previous (svb_block b) = 0 \<Longrightarrow> r = None"
    "previous (svb_block b) \<noteq> 0 \<Longrightarrow> \<exists>x. r = Some x \<and> rep_via (l_block l) (previous (svb_block b)) x"
proof (rule create_planner_head [OF assms(1)])
  fix r
  assume "create_planner c now l b = Some (Inr (head_planner c now l a i b r))"
    "previous (svb_block b) = 0 \<Longrightarrow> r = None"
    "previous (svb_block b) \<noteq> 0 \<Longrightarrow> \<exists>x. r = Some x \<and> rep_via (l_block l) (previous (svb_block b)) x"
  moreover have "load_account_head l b0 = Inr b"
    using is_headD(2,3) [OF assms(1)] assms(2)
    by (simp add: load_account_head_def get_account_def rb_load_block_def get_block_def)
  ultimately show ?thesis
    using that by (simp add: next_rollback_step_def)
qed

lemma execute_head:
  assumes "at_head c l a i b" and "removable l b" and "\<not> head_confirmed l a b"
    and "plan_roll_back_head_block (head_planner c now l a i b r) = Inr (RollBackBlock ins)"
    and "previous (svb_block b) = 0 \<Longrightarrow> r = None"
    and "previous (svb_block b) \<noteq> 0 \<Longrightarrow> \<exists>x. r = Some x"
  obtains w where "execute_rollback ins l = Some (ledger_without c now l i b r w)" "weights_ok w"
    "rw_min_weight w = rw_min_weight (l_weights l)"
    "\<And>x. stored_weight w x = delegated (accounts_without now l i b r) x"
proof -
  let ?p = "head_planner c now l a i b r"
  let ?l1 = "l\<lparr>l_pending := pending_without c l b\<rparr>"
  let ?l2 = "?l1\<lparr>l_account := accounts_without now l i b r,
                 l_account_count := (if r = None then l_account_count l - 1 else l_account_count l)\<rparr>"
  let ?l3 = "?l2\<lparr>l_block := blocks_without b (l_block l)\<rparr>"
  from plan_block [OF assms(1,3,2), of now r] assms(4) have ins: "ins = \<lparr>
      rbi_block_hash = ai_head i, rbi_block_sub_type = rp_block_sub_type ?p, rbi_account = a,
      rbi_remove_pending = rp_remove_pending ?p, rbi_add_pending = rp_add_pending ?p,
      rbi_set_account_info = rp_previous_account_info ?p, rbi_old_account_info = i,
      rbi_clear_successor = map_option (\<lambda>b. hash (svb_block b)) (fmlookup (l_block l) (previous (svb_block b))),
      rbi_new_balance = prev_balance (l_block l) (svb_block b), rbi_new_representative = r\<rparr>"
    by simp
  have p: "rb_update_pending_table ins l = Some ?l1"
    by (rule pending_without_plan [OF assms(1,2), where ins' = ins]) (simp add: ins)
  have a: "update_account (rbi_account ins) (rbi_old_account_info ins) (rbi_set_account_info ins) ?l1 = Some ?l2"
    using accounts_without_plan [OF assms(1) _ assms(5,6), of ?l1 now] by (simp add: ins)
  have b: "rb_update_block_table ins ?l2 = Some ?l3"
    using blocks_without_plan [OF assms(1), of ?l2 ins] by (simp add: ins)
  from weights_without_plan [OF assms(1), of ?l3 ins r now] obtain w where
    w: "roll_back_representative_cache ins ?l3 = Some (?l3\<lparr>l_weights := w\<rparr>)" "weights_ok w"
      "rw_min_weight w = rw_min_weight (l_weights l)"
      "\<And>x. stored_weight w x = delegated (accounts_without now l i b r) x"
    by (auto simp: ins)
  have "execute_rollback ins l = Some (ledger_without c now l i b r w)"
    using p a b w(1) by (simp add: execute_rollback_def ledger_without_def)
  with w that show ?thesis
    by blast
qed

end
