(* ===== verification/Rollback_Safety.thy ===== *)
theory Rollback_Safety
  imports Rollback_Inv
begin

text \<open>
  Removing the head block of an account keeps the chain invariant and the total of all funds,
  provided that nobody has received it.
\<close>

definition removes ::
  "ledger_constants \<Rightarrow> ledger \<Rightarrow> account \<Rightarrow> account_info \<Rightarrow> saved_block \<Rightarrow> public_key option \<Rightarrow> bool" where
  "removes c l a i b r \<longleftrightarrow> at_head c l a i b \<and> removable l b
     \<and> (previous (svb_block b) = 0 \<longrightarrow> r = None)
     \<and> (previous (svb_block b) \<noteq> 0 \<longrightarrow> (\<exists>x. r = Some x \<and> rep_via (l_block l) (previous (svb_block b)) x))"

lemma removesD:
  assumes "removes c l a i b r"
  shows "at_head c l a i b" "removable l b" "previous (svb_block b) = 0 \<Longrightarrow> r = None"
    "previous (svb_block b) \<noteq> 0 \<Longrightarrow> \<exists>x. r = Some x \<and> rep_via (l_block l) (previous (svb_block b)) x"
    "chain_inv c l"
  using assms at_headD(1) by (auto simp: removes_def)

lemma ledger_without_fields [simp]:
  "l_block (ledger_without c now l i b r w) = blocks_without b (l_block l)"
  "l_account (ledger_without c now l i b r w) = accounts_without now l i b r"
  "l_pending (ledger_without c now l i b r w) = pending_without c l b"
  "l_weights (ledger_without c now l i b r w) = w"
  "l_pruned (ledger_without c now l i b r w) = l_pruned l"
  "l_conf (ledger_without c now l i b r w) = l_conf l"
  by (simp_all add: ledger_without_def)

lemma removes_not_source:
  assumes "removes c l a i b r" and "fmlookup (l_block l) x = Some y" and "is_recv c y"
  shows "source_or_link (svb_block y) \<noteq> ai_head i"
  using removesD(2) [OF assms(1)] at_headD(4) [OF removesD(1) [OF assms(1)]]
  by (intro at_head_not_source [OF removesD(1) [OF assms(1)] assms(2,3)]) (simp add: removable_def)

section \<open>The remaining blocks\<close>

lemma without_lookup:
  assumes "at_head c l a i b"
  shows "fmlookup (blocks_without b (l_block l)) x =
    (if x = ai_head i then None
     else if x = previous (svb_block b) then map_option (set_successor 0) (fmlookup (l_block l) x)
     else fmlookup (l_block l) x)"
proof -
  note hd = at_headD [OF assms]
  have "previous (svb_block b) \<noteq> ai_head i"
    by (rule at_head_not_previous [OF assms hd(3)])
  then show ?thesis
    using hd(4) by (auto simp: blocks_without_def Let_def split: option.splits)
qed

lemma without_cases:
  assumes "at_head c l a i b" and "fmlookup (blocks_without b (l_block l)) x = Some y'"
  obtains y s where "x \<noteq> ai_head i" "fmlookup (l_block l) x = Some y" "y' = set_successor s y"
    "s = (if x = previous (svb_block b) then 0 else sd_successor (svb_sideband y))"
  using assms(2) unfolding without_lookup [OF assms(1)]
  by (fastforce split: if_splits simp: set_successor_same)

lemma without_old:
  assumes "at_head c l a i b" and "fmlookup (l_block l) x = Some y" and "x \<noteq> ai_head i"
  shows "fmlookup (blocks_without b (l_block l)) x
    = Some (set_successor (if x = previous (svb_block b) then 0 else sd_successor (svb_sideband y)) y)"
  using assms(2,3) unfolding without_lookup [OF assms(1)] by (auto simp: set_successor_same)

lemma prev_balance_without:
  assumes "at_head c l a i b" and "fmlookup (l_block l) x = Some y"
  shows "prev_balance (blocks_without b (l_block l)) (svb_block y) = prev_balance (l_block l) (svb_block y)"
  using at_head_not_previous [OF assms] unfolding prev_balance_def without_lookup [OF assms(1)]
  by (auto split: option.splits)

lemma blocks_ok_without:
  assumes "at_head c l a i b"
  shows "blocks_ok (ledger_without c now l i b r w)"
  unfolding blocks_ok_def
proof (intro allI impI)
  fix x y'
  assume "fmlookup (l_block (ledger_without c now l i b r w)) x = Some y'"
  then have "fmlookup (blocks_without b (l_block l)) x = Some y'"
    by simp
  with assms show "x \<noteq> 0 \<and> hash (svb_block y') = x \<and> normalised y'"
  proof (rule without_cases)
    fix y s
    assume "fmlookup (l_block l) x = Some y" "y' = set_successor s y"
    then show ?thesis
      using chain_invD(13) [OF at_headD(1) [OF assms]] by (auto simp: blocks_ok_def normalised_def)
  qed
qed

lemma links_ok_without:
  assumes "at_head c l a i b"
  shows "links_ok (blocks_without b (l_block l))"
  unfolding links_ok_def
proof (intro allI impI)
  note hd = at_headD [OF assms]
  fix x y'
  assume "fmlookup (blocks_without b (l_block l)) x = Some y'"
  with assms show "if previous (svb_block y') = 0 then is_open (svb_block y') \<and> saved_height y' = 1
      else \<not> is_open (svb_block y') \<and>
        (\<exists>p. fmlookup (blocks_without b (l_block l)) (previous (svb_block y')) = Some p
           \<and> saved_account p = saved_account y'
           \<and> unat (saved_height y') = Suc (unat (saved_height p)) \<and> sd_successor (svb_sideband p) = x)"
  proof (rule without_cases)
    fix y s
    assume x: "x \<noteq> ai_head i" and y: "fmlookup (l_block l) x = Some y" "y' = set_successor s y"
    have link: "if previous (svb_block y) = 0 then is_open (svb_block y) \<and> saved_height y = 1
      else \<not> is_open (svb_block y) \<and> (\<exists>p. fmlookup (l_block l) (previous (svb_block y)) = Some p
         \<and> saved_account p = saved_account y \<and> unat (saved_height y) = Suc (unat (saved_height p))
         \<and> sd_successor (svb_sideband p) = x)"
      using chain_invD(4) [OF hd(1)] y(1) unfolding links_ok_def by blast
    show ?thesis
    proof (cases "previous (svb_block y) = 0")
      case True
      with link y show ?thesis
        by simp
    next
      case False
      with link obtain p where p: "fmlookup (l_block l) (previous (svb_block y)) = Some p"
        "saved_account p = saved_account y" "unat (saved_height y) = Suc (unat (saved_height p))"
        "sd_successor (svb_sideband p) = x" "\<not> is_open (svb_block y)"
        by auto
      have "previous (svb_block y) \<noteq> previous (svb_block b)"
      proof
        assume "previous (svb_block y) = previous (svb_block b)"
        then have "fmlookup (l_block l) (previous (svb_block b)) = Some p" "previous (svb_block b) \<noteq> 0"
          using p(1) False by simp_all
        then have "sd_successor (svb_sideband p) = ai_head i"
          using at_head_predecessor [OF assms] by (metis option.inject)
        with p(4) x show False
          by simp
      qed
      then show ?thesis
        using False p y(2) at_head_not_previous [OF assms y(1)]
        unfolding without_lookup [OF assms] by simp
    qed
  qed
qed

lemma subset_without:
  assumes "at_head c l a i b"
  shows "heights_ok (blocks_without b (l_block l))" "kinds_ok c (blocks_without b (l_block l))"
    "unique_recv c (blocks_without b (l_block l))" "\<exists>rank. ranked c (blocks_without b (l_block l)) rank"
proof -
  let ?t = "blocks_without b (l_block l)"
  note inv = chain_invD [OF at_headD(1) [OF assms]]
  have old: "\<exists>y s. fmlookup (l_block l) x = Some y \<and> y' = set_successor s y" if "fmlookup ?t x = Some y'" for x y'
    using without_cases [OF assms that] by metis
  show "heights_ok ?t"
    unfolding heights_ok_def
  proof (intro allI impI)
    fix h h' y y'
    assume "fmlookup ?t h = Some y" "fmlookup ?t h' = Some y'"
      and eq: "saved_account y = saved_account y'" "saved_height y = saved_height y'"
    from old [OF this(1)] old [OF this(2)] eq inv(6) show "h = h'"
      by (auto simp: heights_ok_def)
  qed
  show "kinds_ok c ?t"
    unfolding kinds_ok_def
  proof (intro allI impI)
    fix h y st
    assume "fmlookup ?t h = Some y" and st: "svb_block y = State st" "h \<noteq> genesis_hash c"
    from old [OF this(1)] st inv(8)
    show "bd_is_receive (sd_details (svb_sideband y)) \<longleftrightarrow>
        \<not> is_epoch_link (lc_epochs c) (sth_link (stb_hashables st))
        \<and> \<not> bd_is_send (sd_details (svb_sideband y)) \<and> sth_link (stb_hashables st) \<noteq> 0"
      by (auto simp: kinds_ok_def)
  qed
  show "unique_recv c ?t"
    unfolding unique_recv_def
  proof (intro allI impI)
    fix h h' y y'
    assume "fmlookup ?t h = Some y" "fmlookup ?t h' = Some y'" and eq: "is_recv c y" "is_recv c y'"
      "source_or_link (svb_block y) = source_or_link (svb_block y')"
    from old [OF this(1)] old [OF this(2)] eq inv(9) show "h = h'"
      unfolding unique_recv_def by auto
  qed
  from inv(11) obtain rank where "ranked c (l_block l) rank" ..
  then have "ranked c ?t rank"
    unfolding ranked_def using old depends_on_set_successor by metis
  then show "\<exists>rank. ranked c ?t rank"
    by (rule exI [of _ rank])
qed

section \<open>Accounts\<close>

lemma other_account_head:
  assumes "at_head c l a i b" and "fmlookup (l_account l) a' = Some j" and "a' \<noteq> a"
  shows "ai_head j \<noteq> ai_head i" "ai_head j \<noteq> previous (svb_block b)"
proof -
  note hd = at_headD [OF assms(1)]
  have "head_of (l_block l) a' j"
    using chain_invD(14) [OF hd(1)] assms(2) by (simp add: accounts_ok_def)
  then obtain p where p: "fmlookup (l_block l) (ai_head j) = Some p" "saved_account p = a'" "ai_head j \<noteq> 0"
    by (auto simp: head_of_def)
  show "ai_head j \<noteq> ai_head i"
    using p assms(3) hd(3,5) by auto
  show "ai_head j \<noteq> previous (svb_block b)"
  proof
    assume eq: "ai_head j = previous (svb_block b)"
    with p(3) have "previous (svb_block b) \<noteq> 0"
      by simp
    then show False
    proof (rule at_head_predecessor [OF assms(1)])
      fix q
      assume "fmlookup (l_block l) (previous (svb_block b)) = Some q" "saved_account q = a"
      with eq p assms(3) show False
        by simp
    qed
  qed
qed

lemma accounts_without_other:
  assumes "at_head c l a i b" and "a' \<noteq> a"
  shows "fmlookup (accounts_without now l i b r) a' = fmlookup (l_account l) a'"
  using assms(2) at_headD(5) [OF assms(1)] by (auto simp: accounts_without_def split: option.splits)

lemma accounts_without_own:
  assumes "removes c l a i b r"
  shows "fmlookup (accounts_without now l i b r) a = map_option (info_without now l i b) r"
  using at_headD(5) [OF removesD(1) [OF assms]] by (auto simp: accounts_without_def split: option.splits)

lemma accounts_ok_without:
  assumes "removes c l a i b r"
  shows "accounts_ok (ledger_without c now l i b r w)"
  unfolding accounts_ok_def
proof (intro allI impI)
  note rm = removesD [OF assms]
  note hd = at_headD [OF rm(1)]
  fix a' j
  assume "fmlookup (l_account (ledger_without c now l i b r w)) a' = Some j"
  then have j: "fmlookup (accounts_without now l i b r) a' = Some j"
    by simp
  have "head_of (blocks_without b (l_block l)) a' j"
  proof (cases "a' = a")
    case False
    then have old: "fmlookup (l_account l) a' = Some j"
      using j accounts_without_other [OF rm(1)] by simp
    then show ?thesis
      using chain_invD(14) [OF hd(1)] other_account_head [OF rm(1) old False]
      by (auto simp: accounts_ok_def head_of_def without_lookup [OF rm(1)])
  next
    case True
    with j obtain x where x: "r = Some x" "j = info_without now l i b x"
      using accounts_without_own [OF assms] by auto
    then have prev: "previous (svb_block b) \<noteq> 0"
      using rm(3) by auto
    then show ?thesis
    proof (rule at_head_predecessor [OF rm(1)])
      fix p
      assume "fmlookup (l_block l) (previous (svb_block b)) = Some p" "saved_account p = a"
        "saved_height p = ai_block_count i - 1" "previous (svb_block b) \<noteq> ai_head i"
      then show ?thesis
        using True x prev hd(12)
        by (simp add: head_of_def info_without_def without_lookup [OF rm(1)] prev_balance_def)
    qed
  qed
  then show "head_of (l_block (ledger_without c now l i b r w)) a' j"
    by simp
qed

lemma stored_height_pos:
  assumes "chain_inv c l" and "fmlookup (l_block l) x = Some y"
  shows "0 < unat (saved_height y)"
proof (cases "previous (svb_block y) = 0")
  case True
  then have "saved_height y = 1"
    using chain_invD(4) [OF assms(1)] assms(2) by (auto simp: links_ok_def)
  then show ?thesis
    by simp
next
  case False
  then show ?thesis
    using chain_invD(4) [OF assms(1)] assms(2) unfolding links_ok_def by (metis zero_less_Suc)
qed

text \<open>The other blocks of the account lie below the head.\<close>

lemma below_head:
  assumes "removes c l a i b r" and "fmlookup (l_block l) x = Some y" and "x \<noteq> ai_head i"
    and "saved_account y = a"
  shows "unat (saved_height y) < unat (ai_block_count i)" "previous (svb_block b) \<noteq> 0"
proof -
  note rm = removesD [OF assms(1)]
  note hd = at_headD [OF rm(1)]
  have "unat (saved_height y) \<le> unat (ai_block_count i)"
    using chain_invD(5) [OF hd(1)] assms(2,4) hd(2) by (force simp: ends_ok_def)
  moreover have "saved_height y \<noteq> saved_height b"
    using chain_invD(6) [OF hd(1)] assms(2-4) hd(3,5) unfolding heights_ok_def by metis
  ultimately show less: "unat (saved_height y) < unat (ai_block_count i)"
    using hd(7) by (simp add: word_unat_eq_iff)
  show "previous (svb_block b) \<noteq> 0"
  proof
    assume "previous (svb_block b) = 0"
    then have "saved_height b = 1"
      using chain_invD(4) [OF hd(1)] hd(3) by (auto simp: links_ok_def)
    with less stored_height_pos [OF hd(1) assms(2)] hd(7) show False
      by simp
  qed
qed

lemma ends_ok_without:
  assumes "removes c l a i b r"
  shows "ends_ok (ledger_without c now l i b r w)"
proof -
  note rm = removesD [OF assms]
  note hd = at_headD [OF rm(1)]
  let ?t = "blocks_without b (l_block l)" and ?a = "accounts_without now l i b r"
  have "\<exists>j. fmlookup ?a (saved_account y') = Some j \<and> unat (saved_height y') \<le> unat (ai_block_count j)
      \<and> (if sd_successor (svb_sideband y') = 0 then ai_head j = x
         else \<exists>s. fmlookup ?t (sd_successor (svb_sideband y')) = Some s \<and> previous (svb_block s) = x)"
    if "fmlookup ?t x = Some y'" for x y'
  proof (rule without_cases [OF rm(1) that])
    fix y s
    assume x: "x \<noteq> ai_head i" and y: "fmlookup (l_block l) x = Some y" "y' = set_successor s y"
      and s: "s = (if x = previous (svb_block b) then 0 else sd_successor (svb_sideband y))"
    from chain_invD(5) [OF hd(1)] y(1) obtain j where j: "fmlookup (l_account l) (saved_account y) = Some j"
      "unat (saved_height y) \<le> unat (ai_block_count j)"
      "if sd_successor (svb_sideband y) = 0 then ai_head j = x
       else \<exists>s. fmlookup (l_block l) (sd_successor (svb_sideband y)) = Some s \<and> previous (svb_block s) = x"
      unfolding ends_ok_def by blast
    have succ: "\<exists>z. fmlookup ?t s = Some z \<and> previous (svb_block z) = x" if "s \<noteq> 0"
    proof -
      from that s j(3) obtain z where z: "fmlookup (l_block l) s = Some z" "previous (svb_block z) = x"
        "x \<noteq> previous (svb_block b)"
        by (auto split: if_splits)
      then have "s \<noteq> ai_head i"
        using hd(3) by auto
      from without_old [OF rm(1) z(1) this] z(2) show ?thesis
        by simp
    qed
    show ?thesis
    proof (cases "saved_account y = a")
      case False
      then have "x \<noteq> previous (svb_block b)"
      proof -
        have "saved_account y = a" if "x = previous (svb_block b)"
        proof -
          have "previous (svb_block b) \<noteq> 0"
            using y(1) that chain_invD(18) [OF hd(1)] by auto
          then show ?thesis
            by (rule at_head_predecessor [OF rm(1)]) (use y(1) that in simp)
        qed
        with False show ?thesis
          by blast
      qed
      then show ?thesis
        using False j succ s y(2) accounts_without_other [OF rm(1), of "saved_account y"]
        by (auto split: if_splits)
    next
      case True
      note below = below_head [OF assms y(1) x True]
      from rm(4) below(2) obtain q where q: "r = Some q"
        by blast
      have "unat (saved_height y) \<le> unat (ai_block_count i - 1)"
        using below(1) by (cases "ai_block_count i = 0") (simp_all add: unat_minus_one)
      moreover have "s = 0 \<Longrightarrow> x = previous (svb_block b)"
        using s j(1,3) x True hd(2) by (auto split: if_splits)
      ultimately show ?thesis
        using True y(2) succ accounts_without_own [OF assms, of now] q by (auto simp: info_without_def)
    qed
  qed
  then show ?thesis
    unfolding ends_ok_def ledger_without_fields by blast
qed

section \<open>Funds\<close>

lemma pending_without_lookup:
  assumes "at_head c l a i b" and "k \<noteq> PendingKey (destination_or_link (svb_block b)) (ai_head i)"
    and "is_recv c b \<Longrightarrow> k \<noteq> PendingKey a (source_or_link (svb_block b))"
  shows "fmlookup (pending_without c l b) k = fmlookup (l_pending l) k"
  using assms(2,3) at_headD(4,5) [OF assms(1)] by (auto simp: pending_without_def)

lemma head_receive:
  assumes "at_head c l a i b" and "\<not> saved_is_send b" and "is_recv c b"
  obtains s where "recv_ok l b" "fmlookup (l_block l) (source_or_link (svb_block b)) = Some s"
    "saved_is_send s" "destination_or_link (svb_block s) = a"
    "prev_balance (l_block l) (svb_block s) - saved_balance s
       = saved_balance b - prev_balance (l_block l) (svb_block b)"
    "fmlookup (pending_without c l b) (PendingKey a (source_or_link (svb_block b)))
       = Some \<lparr>pi_source = saved_account s,
               pi_amount = saved_balance b - prev_balance (l_block l) (svb_block b),
               pi_epoch = sd_source_epoch (svb_sideband b)\<rparr>"
    "source_or_link (svb_block b) \<noteq> genesis_hash c"
proof -
  note hd = at_headD [OF assms(1)]
  from at_head_flows [OF assms(1)] assms(2,3) have ok: "recv_ok l b"
    by simp
  then obtain s where s: "fmlookup (l_block l) (source_or_link (svb_block b)) = Some s" "saved_is_send s"
    "destination_or_link (svb_block s) = a"
    "prev_balance (l_block l) (svb_block s) - saved_balance s
       = saved_balance b - prev_balance (l_block l) (svb_block b)"
    using hd(5) by (auto simp: recv_ok_def)
  moreover have "source_or_link (svb_block b) \<noteq> genesis_hash c"
    using s(1,2) chain_invD(19) [OF hd(1)] by auto
  ultimately show ?thesis
    using ok assms(2,3) hd(5) that
    by (simp add: pending_without_def block_account_def get_block_def)
qed

lemma head_recv_not_send:
  assumes "at_head c l a i b" and "is_recv c b"
  shows "\<not> saved_is_send b"
  using stored_recv_not_send [OF at_headD(1,3) [OF assms(1)] assms(2)] .

lemma send_ok_without:
  assumes "removes c l a i b r" and "fmlookup (l_block l) x = Some y" and "x \<noteq> ai_head i"
    and "send_ok c l x y"
  shows "send_ok c (ledger_without c now l i b r w) x y"
proof -
  note rm = removesD [OF assms(1)]
  note hd = at_headD [OF rm(1)]
  let ?k = "PendingKey (destination_or_link (svb_block y)) x"
  have amount: "saved_balance y < prev_balance (blocks_without b (l_block l)) (svb_block y)"
    using assms(4) prev_balance_without [OF rm(1) assms(2)] by (simp add: send_ok_def)
  show ?thesis
  proof (cases "is_recv c b \<and> ?k = PendingKey a (source_or_link (svb_block b))")
    case True
    then have recv: "is_recv c b" "source_or_link (svb_block b) = x" "destination_or_link (svb_block y) = a"
      by simp_all
    from head_receive [OF rm(1) head_recv_not_send [OF rm(1) recv(1)] recv(1)] recv assms(2)
    have "fmlookup (pending_without c l b) ?k
       = Some \<lparr>pi_source = saved_account y,
               pi_amount = prev_balance (l_block l) (svb_block y) - saved_balance y,
               pi_epoch = sd_source_epoch (svb_sideband b)\<rparr>"
      by (metis option.inject)
    then show ?thesis
      using amount prev_balance_without [OF rm(1) assms(2)] by (simp add: send_ok_def)
  next
    case False
    then have look: "fmlookup (pending_without c l b) ?k = fmlookup (l_pending l) ?k"
      using assms(3) by (intro pending_without_lookup [OF rm(1)]) auto
    have keep: "\<exists>h' z. fmlookup (blocks_without b (l_block l)) h' = Some z \<and> is_recv c z
      \<and> saved_account z = destination_or_link (svb_block y) \<and> source_or_link (svb_block z) = x"
      if "fmlookup (l_block l) h' = Some z" "is_recv c z"
        "saved_account z = destination_or_link (svb_block y)" "source_or_link (svb_block z) = x" for h' z
    proof -
      have "h' \<noteq> ai_head i"
        using False that hd(3,5) by auto
      from without_old [OF rm(1) that(1) this] that(2-4) show ?thesis
        by (metis is_recv_set_successor set_successor_simps(1,2))
    qed
    show ?thesis
      using assms(4) amount look keep prev_balance_without [OF rm(1) assms(2)]
      by (auto simp: send_ok_def split: option.splits)
  qed
qed

lemma recv_ok_without:
  assumes "removes c l a i b r" and "fmlookup (l_block l) x = Some y" and "x \<noteq> ai_head i"
    and "is_recv c y" and "recv_ok l y"
  shows "recv_ok (ledger_without c now l i b r w) y"
proof -
  note rm = removesD [OF assms(1)]
  note hd = at_headD [OF rm(1)]
  let ?k = "PendingKey (saved_account y) (source_or_link (svb_block y))"
  have src: "source_or_link (svb_block y) \<noteq> ai_head i"
    by (rule removes_not_source [OF assms(1,2,4)])
  from assms(5) obtain s where s: "fmlookup (l_block l) (source_or_link (svb_block y)) = Some s" "saved_is_send s"
    "destination_or_link (svb_block s) = saved_account y"
    "prev_balance (l_block l) (svb_block s) - saved_balance s
       = saved_balance y - prev_balance (l_block l) (svb_block y)"
    by (auto simp: recv_ok_def)
  have "source_or_link (svb_block y) \<noteq> source_or_link (svb_block b)" if "is_recv c b"
    using chain_invD(9) [OF hd(1)] assms(2-4) hd(3) that unfolding unique_recv_def by metis
  then have "fmlookup (pending_without c l b) ?k = fmlookup (l_pending l) ?k"
    using src by (intro pending_without_lookup [OF rm(1)]) auto
  moreover note without_old [OF rm(1) s(1) src]
  ultimately show ?thesis
    using assms(5) s prev_balance_without [OF rm(1) assms(2)] prev_balance_without [OF rm(1) s(1)]
    by (simp add: recv_ok_def)
qed

lemma flows_ok_without:
  assumes "removes c l a i b r"
  shows "flows_ok c (ledger_without c now l i b r w)"
  unfolding flows_ok_def
proof (intro allI impI)
  note rm = removesD [OF assms]
  let ?l = "ledger_without c now l i b r w"
  fix x y'
  assume "fmlookup (l_block ?l) x = Some y'" and x: "x \<noteq> genesis_hash c"
  then have "fmlookup (blocks_without b (l_block l)) x = Some y'"
    by simp
  with rm(1) show "if saved_is_send y' then send_ok c ?l x y' else if is_recv c y' then recv_ok ?l y'
     else saved_balance y' = prev_balance (l_block ?l) (svb_block y')"
  proof (rule without_cases)
    fix y s
    assume y: "x \<noteq> ai_head i" "fmlookup (l_block l) x = Some y" "y' = set_successor s y"
    have "if saved_is_send y then send_ok c l x y else if is_recv c y then recv_ok l y
      else saved_balance y = prev_balance (l_block l) (svb_block y)"
      using chain_invD(7) [OF rm(5)] y(2) x unfolding flows_ok_def by blast
    then show ?thesis
      using y(3) send_ok_without [OF assms y(2,1)] recv_ok_without [OF assms y(2,1)]
        prev_balance_without [OF rm(1) y(2)]
      by (simp split: if_splits)
  qed
qed

lemma pending_sends_without:
  assumes "removes c l a i b r"
  shows "pending_sends c (ledger_without c now l i b r w)"
  unfolding pending_sends_def
proof (intro allI impI)
  note rm = removesD [OF assms]
  note hd = at_headD [OF rm(1)]
  fix k j
  assume "fmlookup (l_pending (ledger_without c now l i b r w)) k = Some j"
  then have j: "fmlookup (pending_without c l b) k = Some j"
    by simp
  have stored: "\<exists>s. fmlookup (blocks_without b (l_block l)) (send_block_hash k) = Some s \<and> saved_is_send s
      \<and> destination_or_link (svb_block s) = receiving_account k"
    if "fmlookup (l_block l) (send_block_hash k) = Some s" "saved_is_send s"
      "destination_or_link (svb_block s) = receiving_account k" "send_block_hash k \<noteq> ai_head i" for s
    using without_old [OF rm(1) that(1,4)] that(2,3) by (metis set_successor_simps(1,7))
  have "send_block_hash k \<noteq> genesis_hash c \<and>
     (\<exists>s. fmlookup (blocks_without b (l_block l)) (send_block_hash k) = Some s \<and> saved_is_send s
        \<and> destination_or_link (svb_block s) = receiving_account k)"
  proof (cases "is_recv c b \<and> k = PendingKey a (source_or_link (svb_block b))")
    case True
    then have recv: "is_recv c b" "k = PendingKey a (source_or_link (svb_block b))"
      by simp_all
    from head_receive [OF rm(1) head_recv_not_send [OF rm(1) recv(1)] recv(1)] obtain s where
      "fmlookup (l_block l) (source_or_link (svb_block b)) = Some s" "saved_is_send s"
      "destination_or_link (svb_block s) = a" "source_or_link (svb_block b) \<noteq> genesis_hash c"
      by metis
    with stored recv removes_not_source [OF assms hd(3) recv(1)] show ?thesis
      by simp
  next
    case False
    have sent: "k \<noteq> PendingKey (destination_or_link (svb_block b)) (ai_head i)" if "saved_is_send b"
      using j that hd(4) by (auto simp: pending_without_def)
    have old: "fmlookup (l_pending l) k = Some j"
      using j False hd(4,5) by (auto simp: pending_without_def split: if_splits)
    with chain_invD(10) [OF hd(1)] obtain s where s: "send_block_hash k \<noteq> genesis_hash c"
      "fmlookup (l_block l) (send_block_hash k) = Some s" "saved_is_send s"
      "destination_or_link (svb_block s) = receiving_account k"
      unfolding pending_sends_def by blast
    have "send_block_hash k \<noteq> ai_head i"
      using s sent hd(3) by (cases k) auto
    with stored s show ?thesis
      by blast
  qed
  then show "send_block_hash k \<noteq> genesis_hash c \<and>
     (\<exists>s. fmlookup (l_block (ledger_without c now l i b r w)) (send_block_hash k) = Some s \<and> saved_is_send s
        \<and> destination_or_link (svb_block s) = receiving_account k)"
    by simp
qed

lemma pending_ok_of_sends: "pending_sends c l \<Longrightarrow> pending_ok l"
  unfolding pending_sends_def pending_ok_def block_exists_or_pruned_def by force

lemma rep_via_without:
  assumes "at_head c l a i b" and "rep_via (l_block l) h x" and "h \<noteq> ai_head i"
  shows "rep_via (blocks_without b (l_block l)) h x"
  using assms(2,3)
proof induction
  case (rep_here h y x)
  then show ?case
    using without_old [OF assms(1) rep_here(1,3)] by (auto intro: rep_via.rep_here)
next
  case (rep_before h y x)
  from rep_before(4) [OF at_head_not_previous [OF assms(1) rep_before(1)]] rep_before(2)
    without_old [OF assms(1) rep_before(1,5)]
  show ?case
    by (auto intro: rep_via.rep_before)
qed

lemma reps_ok_without:
  assumes "removes c l a i b r"
  shows "reps_ok (ledger_without c now l i b r w)"
  unfolding reps_ok_def
proof (intro allI impI)
  note rm = removesD [OF assms]
  note hd = at_headD [OF rm(1)]
  fix a' j
  assume "fmlookup (l_account (ledger_without c now l i b r w)) a' = Some j"
  then have j: "fmlookup (accounts_without now l i b r) a' = Some j"
    by simp
  have "rep_via (blocks_without b (l_block l)) (ai_head j) (ai_representative j)"
  proof (cases "a' = a")
    case True
    then obtain x where x: "r = Some x" "j = info_without now l i b x"
      using j accounts_without_own [OF assms] by auto
    then have "rep_via (l_block l) (previous (svb_block b)) x"
      using rm(3,4) by auto
    from rep_via_without [OF rm(1) this at_head_not_previous [OF rm(1) hd(3)]] x(2) show ?thesis
      by (simp add: info_without_def)
  next
    case False
    then have old: "fmlookup (l_account l) a' = Some j"
      using j accounts_without_other [OF rm(1)] by simp
    then have "rep_via (l_block l) (ai_head j) (ai_representative j)"
      using chain_invD(12) [OF hd(1)] by (simp add: reps_ok_def)
    from rep_via_without [OF rm(1) this other_account_head(1) [OF rm(1) old False]] show ?thesis .
  qed
  then show "rep_via (l_block (ledger_without c now l i b r w)) (ai_head j) (ai_representative j)"
    by simp
qed

lemma opens_ok_without:
  assumes "removes c l a i b r"
  shows "opens_ok (ledger_without c now l i b r w)"
  unfolding opens_ok_def
proof (intro allI impI)
  note rm = removesD [OF assms]
  note hd = at_headD [OF rm(1)]
  fix a' j
  assume "fmlookup (l_account (ledger_without c now l i b r w)) a' = Some j"
  then have j: "fmlookup (accounts_without now l i b r) a' = Some j"
    by simp
  obtain j0 where j0: "fmlookup (l_account l) a' = Some j0" "ai_open_block j = ai_open_block j0"
      "a' = a \<longrightarrow> previous (svb_block b) \<noteq> 0"
  proof (cases "a' = a")
    case True
    then obtain x where "r = Some x" "j = info_without now l i b x"
      using j accounts_without_own [OF assms] by auto
    then show ?thesis
      using that [of i] True hd(2) rm(3) by (auto simp: info_without_def)
  next
    case False
    then show ?thesis
      using that [of j] j accounts_without_other [OF rm(1)] by simp
  qed
  from chain_invD(20) [OF hd(1)] j0(1) obtain y where
    y: "fmlookup (l_block l) (ai_open_block j0) = Some y" "saved_account y = a'" "previous (svb_block y) = 0"
    by (auto simp: opens_ok_def)
  have "ai_open_block j0 \<noteq> ai_head i"
  proof
    assume "ai_open_block j0 = ai_head i"
    then have "y = b"
      using y(1) hd(3) by simp
    then show False
      using y(2,3) j0(3) hd(5) by simp
  qed
  from without_old [OF rm(1) y(1) this] y j0(2)
  show "\<exists>y. fmlookup (l_block (ledger_without c now l i b r w)) (ai_open_block j) = Some y \<and> saved_account y = a' \<and>
      previous (svb_block y) = 0"
    by simp
qed

section \<open>The total of all funds\<close>

lemma accounts_sum_without:
  assumes "removes c l a i b r"
  shows "table_sum (\<lambda>_ i. unat (ai_balance i)) (accounts_without now l i b r) + unat (saved_balance b)
    = table_sum (\<lambda>_ i. unat (ai_balance i)) (l_account l) + unat (prev_balance (l_block l) (svb_block b))"
proof -
  note rm = removesD [OF assms]
  note hd = at_headD [OF rm(1)]
  show ?thesis
  proof (cases "previous (svb_block b) = 0")
    case True
    then have "prev_balance (l_block l) (svb_block b) = 0"
      using chain_invD(18) [OF hd(1)] by (simp add: prev_balance_def)
    then show ?thesis
      using True rm(3) hd(5,6) table_sum_remove [OF hd(2), of "\<lambda>_ i. unat (ai_balance i)"]
      by (simp add: accounts_without_def)
  next
    case False
    then obtain x where "r = Some x"
      using rm(4) by blast
    then show ?thesis
      using hd(5,6) table_sum_update [OF hd(2), of "\<lambda>_ i. unat (ai_balance i)" "info_without now l i b x"]
      by (simp add: accounts_without_def) (simp add: info_without_def)
  qed
qed

lemma unat_diff_word:
  fixes x y :: "'w::len word"
  assumes "x < y"
  shows "unat (y - x) + unat x = unat y"
  using assms unat_sub [of x y] by (simp add: word_less_nat_alt word_le_nat_alt)

lemma pending_sum_without:
  assumes "removes c l a i b r"
  shows "table_sum (\<lambda>_ i. unat (pi_amount i)) (pending_without c l b) + unat (prev_balance (l_block l) (svb_block b))
    = table_sum (\<lambda>_ i. unat (pi_amount i)) (l_pending l) + unat (saved_balance b)"
proof -
  note rm = removesD [OF assms]
  note hd = at_headD [OF rm(1)]
  let ?f = "\<lambda>_ i. unat (pi_amount i)" and ?p = "prev_balance (l_block l) (svb_block b)"
  consider "saved_is_send b" | "is_recv c b" "\<not> saved_is_send b" | "\<not> saved_is_send b" "\<not> is_recv c b"
    by blast
  then show ?thesis
  proof cases
    case 1
    then obtain j where j: "fmlookup (l_pending l) (PendingKey (destination_or_link (svb_block b)) (ai_head i)) = Some j"
      using rm(2) hd(4) by (auto simp: removable_def)
    then have "pi_amount j = ?p - saved_balance b" "saved_balance b < ?p"
      using at_head_flows [OF rm(1)] 1 by (simp_all add: send_ok_def)
    with unat_diff_word [OF this(2)] show ?thesis
      using 1 hd(4) table_sum_remove [OF j, of ?f] by (simp add: pending_without_def)
  next
    case 2
    from head_receive [OF rm(1) 2(2,1)] have "recv_ok l b"
      by metis
    then have "?p < saved_balance b"
      "fmlookup (l_pending l) (PendingKey a (source_or_link (svb_block b))) = None"
      using hd(5) by (simp_all add: recv_ok_def)
    with unat_diff_word [OF this(1)] show ?thesis
      using 2 hd(5) by (simp add: pending_without_def table_sum_insert)
  next
    case 3
    then show ?thesis
      using at_head_flows [OF rm(1)] by (simp add: pending_without_def)
  qed
qed

lemma supply_without:
  assumes "removes c l a i b r"
  shows "total_supply (ledger_without c now l i b r w) = total_supply l"
  using accounts_sum_without [OF assms, of now] pending_sum_without [OF assms]
  by (simp add: total_supply_def)

lemma chain_inv_without:
  assumes "removes c l a i b r" and "weights_ok w"
    and "\<And>x. stored_weight w x = delegated (accounts_without now l i b r) x"
  shows "chain_inv c (ledger_without c now l i b r w)"
proof -
  note rm = removesD [OF assms(1)]
  note hd = at_headD [OF rm(1)]
  from chain_invD(3) [OF rm(5)] obtain g where g: "fmlookup (l_block l) (genesis_hash c) = Some g"
    by blast
  have gen: "\<exists>g. fmlookup (blocks_without b (l_block l)) (genesis_hash c) = Some g \<and> \<not> saved_is_send g"
    using without_old [OF rm(1) g] hd(10) chain_invD(19) [OF rm(5) g] by simp
  have "rep_weights_ok (ledger_without c now l i b r w)"
    using assms(2,3) by (simp add: rep_weights_ok_def)
  then have "ledger_inv (ledger_without c now l i b r w)"
    using blocks_ok_without [OF rm(1)] accounts_ok_without [OF assms(1)]
      pending_ok_of_sends [OF pending_sends_without [OF assms(1)]] supply_without [OF assms(1)]
      chain_invD(17) [OF rm(5)]
    by (simp add: ledger_inv_def)
  then show ?thesis
    using gen chain_invD(2) [OF rm(5)] links_ok_without [OF rm(1)] ends_ok_without [OF assms(1)]
      subset_without [OF rm(1)] flows_ok_without [OF assms(1)] pending_sends_without [OF assms(1)]
      reps_ok_without [OF assms(1)] opens_ok_without [OF assms(1)]
    by (simp add: chain_inv_def)
qed

end
