(* ===== verification/Rollback_Loop.thy ===== *)
theory Rollback_Loop
  imports Rollback_Safety Confirmed_Set
begin

text \<open>
  The rollback as a whole: it always returns, its only error is that a confirmed block would
  have to go, it never panics, removes no confirmed block and keeps the ledger well-formed and
  the funds constant. Termination: every removal makes the ledger smaller, and a dependency
  request goes to a block of higher rank.
\<close>

section \<open>Confirmed blocks\<close>

definition genesis_confirmed :: "ledger_constants \<Rightarrow> ledger \<Rightarrow> bool" where
  "genesis_confirmed c l \<longleftrightarrow> confirmed_block_exists l (genesis_hash c)"

lemma head_confirmed_iff:
  assumes "chain_inv c l" and "fmlookup (l_block l) x = Some y"
  shows "head_confirmed l (saved_account y) y \<longleftrightarrow> confirmed_block_exists l x"
proof -
  have "\<not> saved_height y \<le> 0"
    using stored_height_pos [OF assms] by (simp add: word_le_nat_alt)
  then show ?thesis
    using assms(2)
    by (auto simp: head_confirmed_def confirmed_block_exists_def confirmed_get_block_def
        confirmation_height_default_def unwrap_or_def split: option.splits)
qed

section \<open>Progress of a rollback\<close>

text \<open>
  \<open>rolled c l l' bs\<close>: \<open>l'\<close> is \<open>l\<close> without the blocks \<open>bs\<close>, none of which was confirmed.
\<close>

definition rolled :: "ledger_constants \<Rightarrow> ledger \<Rightarrow> ledger \<Rightarrow> saved_block list \<Rightarrow> bool" where
  "rolled c l l' bs \<longleftrightarrow> chain_inv c l' \<and> total_supply l' = total_supply l \<and> l_conf l' = l_conf l
     \<and> (\<forall>x y. fmlookup (l_block l) x = Some y \<longrightarrow>
          (if x \<in> set (map (\<lambda>b. hash (svb_block b)) bs)
           then fmlookup (l_block l') x = None \<and> \<not> confirmed_block_exists l x
           else \<exists>s. fmlookup (l_block l') x = Some (set_successor s y)))
     \<and> (\<forall>x. fmlookup (l_block l) x = None \<longrightarrow> fmlookup (l_block l') x = None)"

lemma rolledD:
  assumes "rolled c l l' bs"
  shows "chain_inv c l'" "total_supply l' = total_supply l" "l_conf l' = l_conf l"
    "\<And>x. fmlookup (l_block l) x = None \<Longrightarrow> fmlookup (l_block l') x = None"
    "\<And>x y. fmlookup (l_block l) x = Some y \<Longrightarrow> x \<in> set (map (\<lambda>b. hash (svb_block b)) bs) \<Longrightarrow>
       fmlookup (l_block l') x = None \<and> \<not> confirmed_block_exists l x"
    "\<And>x y. fmlookup (l_block l) x = Some y \<Longrightarrow> x \<notin> set (map (\<lambda>b. hash (svb_block b)) bs) \<Longrightarrow>
       \<exists>s. fmlookup (l_block l') x = Some (set_successor s y)"
  using assms unfolding rolled_def by metis+

lemma rolled_refl: "chain_inv c l \<Longrightarrow> rolled c l l []"
  by (auto simp: rolled_def intro: exI [of _ "sd_successor _"] set_successor_same [symmetric])

lemma confirmed_set_successor:
  assumes "l_conf l' = l_conf l" and "fmlookup (l_block l) x = Some y"
    and "fmlookup (l_block l') x = Some (set_successor s y)"
  shows "confirmed_block_exists l' x = confirmed_block_exists l x"
  using assms
  by (auto simp: confirmed_block_exists_def confirmed_get_block_def bind_eq_None_conv split: option.splits)

lemma rolled_trans:
  assumes "rolled c l l' bs" and "rolled c l' l'' bs'"
  shows "rolled c l l'' (bs @ bs')"
proof -
  note r = rolledD [OF assms(1)] and r' = rolledD [OF assms(2)]
  have "if x \<in> set (map (\<lambda>b. hash (svb_block b)) (bs @ bs'))
        then fmlookup (l_block l'') x = None \<and> \<not> confirmed_block_exists l x
        else \<exists>s. fmlookup (l_block l'') x = Some (set_successor s y)"
    if y: "fmlookup (l_block l) x = Some y" for x y
  proof (cases "x \<in> set (map (\<lambda>b. hash (svb_block b)) bs)")
    case True
    then show ?thesis
      using r(5) [OF y True] r'(4) by simp
  next
    case False
    from r(6) [OF y False] obtain s where s: "fmlookup (l_block l') x = Some (set_successor s y)" ..
    show ?thesis
    proof (cases "x \<in> set (map (\<lambda>b. hash (svb_block b)) bs')")
      case True
      then show ?thesis
        using r'(5) [OF s True] confirmed_set_successor [OF r(3) y s] by simp
    next
      case not: False
      from r'(6) [OF s this] obtain s' where "fmlookup (l_block l'') x = Some (set_successor s' y)"
        by auto
      with False not show ?thesis
        by auto
    qed
  qed
  moreover have "\<forall>x. fmlookup (l_block l) x = None \<longrightarrow> fmlookup (l_block l'') x = None"
    using r(4) r'(4) by blast
  ultimately show ?thesis
    using r(2,3) r'(1-3) unfolding rolled_def by metis
qed

lemma rolled_genesis:
  assumes "rolled c l l' bs" and "genesis_confirmed c l"
  shows "genesis_confirmed c l'"
proof -
  from assms(2) obtain g where g: "fmlookup (l_block l) (genesis_hash c) = Some g"
    by (auto simp: genesis_confirmed_def confirmed_block_exists_def confirmed_get_block_iff)
  then obtain s where "fmlookup (l_block l') (genesis_hash c) = Some (set_successor s g)"
    using assms unfolding rolled_def genesis_confirmed_def by meson
  then show ?thesis
    using assms confirmed_set_successor [OF _ g] by (simp add: rolled_def genesis_confirmed_def)
qed

lemma rolled_smaller:
  assumes "rolled c l l' bs" and "fmlookup (l_block l) x = Some y" and "fmlookup (l_block l') x = None"
  shows "card (fmdom' (l_block l')) < card (fmdom' (l_block l))"
proof (rule psubset_card_mono)
  have "fmdom' (l_block l') \<subseteq> fmdom' (l_block l)"
    using assms(1) unfolding rolled_def by (auto simp: fmlookup_dom'_iff) (metis not_Some_eq)
  moreover have "x \<in> fmdom' (l_block l) - fmdom' (l_block l')"
    using assms(2,3) by (auto simp: fmlookup_dom'_iff)
  ultimately show "fmdom' (l_block l') \<subset> fmdom' (l_block l)"
    by blast
qed simp

lemma rolled_without:
  assumes "removes c l a i b r" and "\<not> head_confirmed l a b" and "weights_ok w"
    and "\<And>x. stored_weight w x = delegated (accounts_without now l i b r) x"
  shows "rolled c l (ledger_without c now l i b r w) [b]"
proof -
  note rm = removesD [OF assms(1)]
  note hd = at_headD [OF rm(1)]
  have "\<not> confirmed_block_exists l (ai_head i)"
    using head_confirmed_iff [OF hd(1,3)] hd(5) assms(2) by simp
  then show ?thesis
    using chain_inv_without [OF assms(1,3,4)] supply_without [OF assms(1)] hd(4)
    unfolding rolled_def by (auto simp: without_lookup [OF rm(1)] intro: set_successor_same [symmetric])
qed

section \<open>Ranks\<close>

text \<open>The head is the block of highest rank in its account.\<close>

lemma head_rank_max:
  assumes "is_head c l a i b" and "ranked c (l_block l) rank"
    and "fmlookup (l_block l) x = Some y" and "saved_account y = a"
  shows "rank x \<le> rank (ai_head i)"
  using assms(3,4)
proof (induction "unat (ai_block_count i) - unat (saved_height y)" arbitrary: x y rule: less_induct)
  case less
  note hd = is_headD [OF assms(1)]
  from chain_invD(5) [OF hd(1)] less(2,3) hd(2) have
    y: "unat (saved_height y) \<le> unat (ai_block_count i)"
      "if sd_successor (svb_sideband y) = 0 then ai_head i = x
       else \<exists>s. fmlookup (l_block l) (sd_successor (svb_sideband y)) = Some s \<and> previous (svb_block s) = x"
    by (force simp: ends_ok_def)+
  show ?case
  proof (cases "sd_successor (svb_sideband y) = 0")
    case True
    with y(2) show ?thesis
      by simp
  next
    case False
    with y(2) obtain s where s: "fmlookup (l_block l) (sd_successor (svb_sideband y)) = Some s"
      "previous (svb_block s) = x"
      by auto
    have "x \<noteq> 0"
      using less(2) chain_invD(18) [OF hd(1)] by auto
    with s chain_invD(4) [OF hd(1)] less(2) have acc: "saved_account y = saved_account s"
      "unat (saved_height s) = Suc (unat (saved_height y))"
      unfolding links_ok_def by (metis option.inject)+
    have up: "rank x < rank (sd_successor (svb_sideband y))"
      using assms(2) s \<open>x \<noteq> 0\<close> by (auto simp: ranked_def depends_on_def)
    have "unat (saved_height s) \<le> unat (ai_block_count i)"
      using chain_invD(5) [OF hd(1)] s(1) acc(1) less(3) hd(2) by (force simp: ends_ok_def)
    then have "rank (sd_successor (svb_sideband y)) \<le> rank (ai_head i)"
      using less(1) [OF _ s(1)] acc less(3) by simp
    with up show ?thesis
      by simp
  qed
qed

lemma request_rank:
  assumes "at_head c l a i b" and "ranked c (l_block l) rank"
    and "fmlookup (l_account l) a' = Some j" and "fmlookup (l_block l) x = Some y"
    and "is_recv c y" and "saved_account y = a'" and "source_or_link (svb_block y) = ai_head i"
  shows "rank (ai_head i) < rank (ai_head j)"
proof -
  from is_head_exists [OF at_headD(1) [OF assms(1)] assms(3)] obtain b' where "is_head c l a' j b'"
    by blast
  from head_rank_max [OF this assms(2,4,6)] have "rank x \<le> rank (ai_head j)" .
  moreover have "rank (ai_head i) < rank x"
    using assms(2,4,5,7) by (auto simp: ranked_def depends_on_def)
  ultimately show ?thesis
    by simp
qed

section \<open>The loop\<close>

definition rollback_ok :: "ledger_constants \<Rightarrow> ledger \<Rightarrow> block_hash \<Rightarrow> saved_block list \<Rightarrow> rollback_result \<Rightarrow> bool" where
  "rollback_ok c l h acc res \<longleftrightarrow>
     (case res of
        Inl (e, l', acc') \<Rightarrow> e = BlockIsConfirmed \<and> (\<exists>bs. acc' = acc @ bs \<and> rolled c l l' bs)
      | Inr (l', acc') \<Rightarrow> \<not> block_exists l' h \<and> (\<exists>bs. acc' = acc @ bs \<and> rolled c l l' bs))"

lemma rollback_ok_trans:
  assumes "rolled c l l' bs" and "rollback_ok c l' h (acc @ bs) res"
  shows "rollback_ok c l h acc res"
proof -
  have "\<exists>bs'. acc' = acc @ bs' \<and> rolled c l l'' bs'" if "\<exists>bs'. acc' = (acc @ bs) @ bs' \<and> rolled c l' l'' bs'"
    for acc' l''
    using that rolled_trans [OF assms(1)] by (metis append.assoc)
  then show ?thesis
    using assms(2) unfolding rollback_ok_def by (auto split: sum.splits prod.splits)
qed

text \<open>One round, as a case distinction on what the planner finds.\<close>

lemma round_cases:
  assumes "chain_inv c l" and "genesis_confirmed c l"
    and "fmlookup (l_block l) h = Some y" and "saved_account b0 = saved_account y"
  obtains
    (confirmed) "next_rollback_step c now l b0 = Some (Inl BlockIsConfirmed)"
  | (request) i b j x z where "at_head c l (saved_account b0) i b"
      "next_rollback_step c now l b0 = Some (Inr (b, RequestDependencyRollback (ai_head j)))"
      "fmlookup (l_account l) (destination_or_link (svb_block b)) = Some j"
      "fmlookup (l_block l) x = Some z" "is_recv c z"
      "saved_account z = destination_or_link (svb_block b)" "source_or_link (svb_block z) = ai_head i"
  | (remove) b l' ins where "next_rollback_step c now l b0 = Some (Inr (b, RollBackBlock ins))"
      "execute_rollback ins l = Some l'" "rolled c l l' [b]"
      "fmlookup (l_block l) (hash (svb_block b)) \<noteq> None" "fmlookup (l_block l') (hash (svb_block b)) = None"
proof -
  let ?a = "saved_account b0"
  from chain_invD(5) [OF assms(1)] assms(3,4) obtain i where i: "fmlookup (l_account l) ?a = Some i"
    unfolding ends_ok_def by metis
  obtain b where b: "is_head c l ?a i b"
    by (rule is_head_exists [OF assms(1) i])
  note hd = is_headD [OF b]
  show ?thesis
  proof (rule next_step_head [OF b refl, of now])
    fix r
    assume step: "next_rollback_step c now l b0 = Some (and_then
        (plan_roll_back_head_block (head_planner c now l ?a i b r)) (\<lambda>s. Inr (b, s)))"
      and r: "previous (svb_block b) = 0 \<Longrightarrow> r = None"
        "previous (svb_block b) \<noteq> 0 \<Longrightarrow> \<exists>x. r = Some x \<and> rep_via (l_block l) (previous (svb_block b)) x"
    show ?thesis
    proof (cases "head_confirmed l ?a b")
      case True
      with step plan_confirmed confirmed show ?thesis
        by simp
    next
      case False
      have "\<not> confirmed_block_exists l (ai_head i)"
        using head_confirmed_iff [OF hd(1,3)] hd(5) False by simp
      then have at: "at_head c l ?a i b"
        using b assms(2) by (auto simp: at_head_def genesis_confirmed_def)
      show ?thesis
      proof (cases "removable l b")
        case True
        from plan_block [OF at False True, of now r] obtain ins where
          plan: "plan_roll_back_head_block (head_planner c now l ?a i b r) = Inr (RollBackBlock ins)"
          by blast
        have rm: "removes c l ?a i b r"
          using at True r by (auto simp: removes_def)
        have r': "previous (svb_block b) \<noteq> 0 \<Longrightarrow> \<exists>x. r = Some x"
          using r(2) by blast
        obtain w where w: "execute_rollback ins l = Some (ledger_without c now l i b r w)" "weights_ok w"
          "rw_min_weight w = rw_min_weight (l_weights l)"
          "\<And>x. stored_weight w x = delegated (accounts_without now l i b r) x"
          by (rule execute_head [OF at True False plan r(1) r'], assumption, assumption) (rule that)
        note rolled = rolled_without [OF rm False w(2,4)]
        have "fmlookup (l_block (ledger_without c now l i b r w)) (hash (svb_block b)) = None"
          using hd(4) by (simp add: without_lookup [OF at])
        with remove [OF _ w(1) rolled] step plan hd(3,4) show ?thesis
          by simp
      next
        case rem: False
        show ?thesis
        proof (rule plan_request [OF at False rem, of now r])
          fix j x z
          assume "fmlookup (l_account l) (destination_or_link (svb_block b)) = Some j"
            "plan_roll_back_head_block (head_planner c now l ?a i b r) = Inr (RequestDependencyRollback (ai_head j))"
            "fmlookup (l_block l) x = Some z" "is_recv c z"
            "saved_account z = destination_or_link (svb_block b)" "source_or_link (svb_block z) = ai_head i"
          with request [OF at _ this(1,3-6)] step show ?thesis
            by simp
        qed
      qed
    qed
  qed
qed

definition target_ok :: "ledger \<Rightarrow> saved_block \<Rightarrow> block_hash \<Rightarrow> bool" where
  "target_ok l b0 h \<longleftrightarrow> (\<forall>y. fmlookup (l_block l) h = Some y \<longrightarrow> saved_account b0 = saved_account y)"

lemma target_ok_rolled:
  assumes "target_ok l b0 h" and "rolled c l l' bs"
  shows "target_ok l' b0 h"
  unfolding target_ok_def
proof (intro allI impI)
  fix y'
  assume y': "fmlookup (l_block l') h = Some y'"
  then obtain y where y: "fmlookup (l_block l) h = Some y"
    using rolledD(4) [OF assms(2), of h] by (cases "fmlookup (l_block l) h") auto
  moreover have "h \<notin> set (map (\<lambda>b. hash (svb_block b)) bs)"
    using rolledD(5) [OF assms(2) y] y' by auto
  ultimately show "saved_account b0 = saved_account y'"
    using rolledD(6) [OF assms(2)] y' assms(1) unfolding target_ok_def by fastforce
qed

lemma roll_back_loop_absent:
  "\<not> block_exists l h \<Longrightarrow> roll_back_loop c now b0 h (l, acc) = Some (Inr (l, acc))"
  by (simp add: roll_back_loop.simps)

text \<open>
  The inner induction: \<open>smaller\<close> is the outer hypothesis, for ledgers with fewer blocks.
\<close>

lemma roll_back_loop_inner:
  assumes inv: "chain_inv c l" "genesis_confirmed c l" and rank: "ranked c (l_block l) rank"
    and smaller: "\<And>l' b0 h acc bs. rolled c l l' bs \<Longrightarrow>
      card (fmdom' (l_block l')) < card (fmdom' (l_block l)) \<Longrightarrow> target_ok l' b0 h \<Longrightarrow>
      \<exists>res. roll_back_loop c now b0 h (l', acc) = Some res \<and> rollback_ok c l' h acc res"
    and "fmlookup (l_block l) h = Some y" and "saved_account b0 = saved_account y"
    and "fmlookup (l_account l) (saved_account b0) = Some i"
  shows "\<exists>res. roll_back_loop c now b0 h (l, acc) = Some res \<and> rollback_ok c l h acc res"
  using assms(5-7)
proof (induction "Max (rank ` fmdom' (l_block l)) - rank (ai_head i)" arbitrary: b0 h y i acc rule: less_induct)
  case (less i b0 h y acc)
  have ex: "block_exists l h" and tgt: "target_ok l b0 h"
    using less(2,3) by (simp_all add: block_exists_def target_ok_def)
  from inv less(2,3) show ?case
  proof (cases rule: round_cases [where now = now])
    case confirmed
    then show ?thesis
      using ex rolled_refl [OF inv(1)]
      by (subst roll_back_loop.simps) (auto simp: rollback_ok_def)
  next
    case (remove b l' ins)
    then obtain z where "fmlookup (l_block l) (hash (svb_block b)) = Some z"
      by blast
    from smaller [OF remove(3) rolled_smaller [OF remove(3) this remove(5)] target_ok_rolled [OF tgt remove(3)],
        of "acc @ [b]"]
    obtain res where "roll_back_loop c now b0 h (l', acc @ [b]) = Some res" "rollback_ok c l' h (acc @ [b]) res"
      by blast
    then show ?thesis
      using ex remove(1,2) rollback_ok_trans [OF remove(3)]
      by (subst roll_back_loop.simps) simp
  next
    case (request i' b j x z)
    have i': "i' = i"
      using at_headD(2) [OF request(1)] less(4) by simp
    obtain b' where b': "is_head c l (destination_or_link (svb_block b)) j b'"
      by (rule is_head_exists [OF inv(1) request(3)])
    note hd' = is_headD [OF b']
    have "rank (ai_head i) < rank (ai_head j)"
      using request_rank [OF request(1) rank request(3-7)] i' by simp
    moreover have "rank (ai_head j) \<le> Max (rank ` fmdom' (l_block l))"
      using hd'(3) by (intro Max_ge) (auto intro: fmdom'I)
    ultimately have "Max (rank ` fmdom' (l_block l)) - rank (ai_head j)
        < Max (rank ` fmdom' (l_block l)) - rank (ai_head i)"
      by simp
    from less(1) [OF this hd'(3) refl, of acc] hd'(2,5) obtain res where
      res: "roll_back_loop c now b' (ai_head j) (l, acc) = Some res" "rollback_ok c l (ai_head j) acc res"
      by auto
    have step: "roll_back_loop c now b0 h (l, acc) = (case res of Inl e \<Rightarrow> Some (Inl e)
        | Inr st' \<Rightarrow> roll_back_loop c now b0 h st')"
      using ex request(2) hd'(3) res(1)
      by (subst roll_back_loop.simps) (simp add: rb_load_block_def get_block_def)
    show ?thesis
    proof (cases res)
      case (Inl e)
      then show ?thesis
        using res(2) step by (auto simp: rollback_ok_def)
    next
      case (Inr st')
      then obtain l' bs where st': "st' = (l', acc @ bs)" "rolled c l l' bs" "\<not> block_exists l' (ai_head j)"
        using res(2) by (cases st') (auto simp: rollback_ok_def)
      then have "fmlookup (l_block l') (ai_head j) = None"
        by (simp add: block_exists_def)
      from smaller [OF st'(2) rolled_smaller [OF st'(2) hd'(3) this] target_ok_rolled [OF tgt st'(2)], of "acc @ bs"]
      show ?thesis
        using step Inr st'(1) rollback_ok_trans [OF st'(2)] by auto
    qed
  qed
qed

lemma roll_back_loop_ok:
  assumes "chain_inv c l" and "genesis_confirmed c l" and "target_ok l b0 h"
  shows "\<exists>res. roll_back_loop c now b0 h (l, acc) = Some res \<and> rollback_ok c l h acc res"
  using assms
proof (induction "card (fmdom' (l_block l))" arbitrary: l b0 h acc rule: less_induct)
  case less
  show ?case
  proof (cases "fmlookup (l_block l) h")
    case None
    then show ?thesis
      using rolled_refl [OF less(2)] roll_back_loop_absent [of l h c now b0 acc]
      by (auto simp: rollback_ok_def block_exists_def)
  next
    case (Some y)
    from chain_invD(11) [OF less(2)] obtain rank where rank: "ranked c (l_block l) rank" ..
    have acc: "saved_account b0 = saved_account y"
      using less(4) Some by (simp add: target_ok_def)
    with chain_invD(5) [OF less(2)] Some obtain i where i: "fmlookup (l_account l) (saved_account b0) = Some i"
      unfolding ends_ok_def by metis
    show ?thesis
    proof (rule roll_back_loop_inner [OF less(2,3) rank _ Some acc i])
      fix l' b0 h acc bs
      assume "rolled c l l' bs" "card (fmdom' (l_block l')) < card (fmdom' (l_block l))" "target_ok l' b0 h"
      then show "\<exists>res. roll_back_loop c now b0 h (l', acc) = Some res \<and> rollback_ok c l' h acc res"
        using less(1) rolledD(1) rolled_genesis [OF _ less(3)] by blast
    qed
  qed
qed

lemma roll_back_correct:
  assumes "chain_inv c l" and "genesis_confirmed c l" and "block_exists l h"
  shows "\<exists>res. roll_back c now l h = Some res \<and> rollback_ok c l h [] res"
proof -
  from assms(3) obtain b where b: "fmlookup (l_block l) h = Some b"
    by (auto simp: block_exists_def)
  then have "target_ok l b h"
    by (simp add: target_ok_def)
  from roll_back_loop_ok [OF assms(1,2) this, of now "[]"] b show ?thesis
    by (simp add: roll_back_def rb_load_block_def get_block_def)
qed

end
