(* ===== verification/Cementing_Safety.thy ===== *)
theory Cementing_Safety
  imports Cementing Rollback_Loop
begin

text \<open>
  Cementing in a well-formed ledger: a block is confirmed only after everything it builds on,
  heights grow one by one, no confirmed block is lost, and the walk over the dependencies ends.
\<close>

section \<open>Dependencies\<close>

text \<open>The first block of the genesis account is the genesis block.\<close>

definition genesis_stored :: "ledger_constants \<Rightarrow> ledger \<Rightarrow> bool" where
  "genesis_stored c l \<longleftrightarrow> (\<exists>g. fmlookup (l_block l) (genesis_hash c) = Some g
     \<and> saved_account g = lc_genesis_account c \<and> previous (svb_block g) = 0
     \<and> (case svb_block g of LegacyOpen _ \<Rightarrow> True | _ \<Rightarrow> False))"

lemma genesis_first:
  assumes "chain_inv c l" and "genesis_stored c l" and "fmlookup (l_block l) h = Some b"
    and "saved_account b = lc_genesis_account c" and "previous (svb_block b) = 0"
  shows "h = genesis_hash c"
proof -
  from assms(2) obtain g where g: "fmlookup (l_block l) (genesis_hash c) = Some g"
    "saved_account g = lc_genesis_account c" "previous (svb_block g) = 0"
    by (auto simp: genesis_stored_def)
  have "saved_height b = 1" "saved_height g = 1"
    using chain_invD(4) [OF assms(1)] assms(3,5) g(1,3) by (auto simp: links_ok_def)
  then show ?thesis
    using chain_invD(6) [OF assms(1)] assms(3,4) g(1,2) unfolding heights_ok_def by metis
qed

lemma normalised_is_receive:
  assumes "normalised b"
  shows "bd_is_receive (sd_details (svb_sideband b)) = (case svb_block b of
      LegacyReceive _ \<Rightarrow> True | LegacyOpen _ \<Rightarrow> True
    | State _ \<Rightarrow> bd_is_receive (sd_details (svb_sideband b)) | _ \<Rightarrow> False)"
proof -
  have "bd_is_receive (sd_details (svb_sideband (normalise b))) = (case svb_block b of
      LegacyReceive _ \<Rightarrow> True | LegacyOpen _ \<Rightarrow> True
    | State _ \<Rightarrow> bd_is_receive (sd_details (svb_sideband b)) | _ \<Rightarrow> False)"
    by (cases "svb_block b") (simp_all add: normalise_def fill_sideband_def block_details_new_def)
  with assms show ?thesis
    by (simp add: normalised_def)
qed

lemma dependent_blocks_depends_on:
  assumes "chain_inv c l" and "genesis_stored c l" and "fmlookup (l_block l) h = Some b"
  shows "set (dependent_iter (find_dependent_blocks c b)) = depends_on c b"
proof -
  have norm: "normalised b" "hash (svb_block b) = h"
    using chain_invD(13) [OF assms(1)] assms(3) by (auto simp: blocks_ok_def)
  note recv = normalised_is_receive [OF norm(1)]
  have nz: "source_or_link (svb_block b) \<noteq> 0" if "is_recv c b"
    using stored_recv_ok [OF assms(1,3) that] chain_invD(18) [OF assms(1)] by (auto simp: recv_ok_def)
  note defs = depends_on_def dependent_iter_def find_dependent_blocks_def saved_dependent_blocks_def
    block_base_defs source_or_link_def
  show ?thesis
  proof (cases "h = genesis_hash c")
    case True
    with assms(2,3) obtain i where "svb_block b = LegacyOpen i" "saved_account b = lc_genesis_account c"
      by (auto simp: genesis_stored_def split: block.splits)
    with True norm(2) show ?thesis
      by (simp add: defs is_recv_def saved_account_def)
  next
    case False
    then have r: "is_recv c b = bd_is_receive (sd_details (svb_sideband b))"
      using norm(2) by (simp add: is_recv_def)
    show ?thesis
    proof (cases "svb_block b")
      case (LegacyOpen i)
      then have "saved_account b = oh_account (ob_hashables i)" "previous (svb_block b) = 0"
        by (simp_all add: saved_account_def block_base_defs)
      with genesis_first [OF assms] False have "oh_account (ob_hashables i) \<noteq> lc_genesis_account c"
        by auto
      with LegacyOpen r recv nz show ?thesis
        by (simp add: defs)
    next
      case (State i)
      have "is_recv c b \<longleftrightarrow> \<not> is_epoch_link (lc_epochs c) (sth_link (stb_hashables i))
        \<and> \<not> saved_is_send b \<and> sth_link (stb_hashables i) \<noteq> 0"
        using chain_invD(8) [OF assms(1)] assms(3) False State r
        by (auto simp: kinds_ok_def saved_is_send_def)
      with State show ?thesis
        by (auto simp: defs)
    qed (use r recv nz in \<open>auto simp: defs\<close>)
  qed
qed

section \<open>The confirmation invariant\<close>

text \<open>
  Every entry of the confirmation height table names a stored block at its height, and the
  confirmed blocks are closed under dependencies.
\<close>

definition conf_inv :: "ledger_constants \<Rightarrow> ledger \<Rightarrow> bool" where
  "conf_inv c l \<longleftrightarrow>
     (\<forall>a ci. fmlookup (l_conf l) a = Some ci \<longrightarrow>
        (\<exists>b. fmlookup (l_block l) (ch_frontier ci) = Some b \<and> saved_account b = a
           \<and> saved_height b = ch_height ci))
     \<and> (\<forall>h b. fmlookup (l_block l) h = Some b \<longrightarrow> confirmed_block_exists l h \<longrightarrow>
          (\<forall>d\<in>depends_on c b. confirmed_block_exists l d))"

lemma conf_invD:
  assumes "conf_inv c l"
  shows "\<And>a ci. fmlookup (l_conf l) a = Some ci \<Longrightarrow> \<exists>b. fmlookup (l_block l) (ch_frontier ci) = Some b
      \<and> saved_account b = a \<and> saved_height b = ch_height ci"
    "\<And>h b d. fmlookup (l_block l) h = Some b \<Longrightarrow> confirmed_block_exists l h \<Longrightarrow> d \<in> depends_on c b \<Longrightarrow>
      confirmed_block_exists l d"
  using assms unfolding conf_inv_def by blast+

definition ledger_ok :: "ledger_constants \<Rightarrow> ledger \<Rightarrow> bool" where
  "ledger_ok c l \<longleftrightarrow> chain_inv c l \<and> genesis_stored c l \<and> genesis_confirmed c l \<and> conf_inv c l"

lemma ledger_okD:
  assumes "ledger_ok c l"
  shows "chain_inv c l" "genesis_stored c l" "genesis_confirmed c l" "conf_inv c l"
    "\<And>h. confirmed_exists_or_pruned l h = confirmed_block_exists l h"
  using assms chain_invD(2) by (auto simp: ledger_ok_def confirmed_exists_or_pruned_def)

lemma confirmed_iff:
  "confirmed_block_exists l h \<longleftrightarrow> (\<exists>b ci. fmlookup (l_block l) h = Some b
     \<and> fmlookup (l_conf l) (saved_account b) = Some ci \<and> unat (saved_height b) \<le> unat (ch_height ci))"
  by (auto simp: confirmed_block_exists_def confirmed_get_block_def bind_eq_None_conv word_le_nat_alt
      split: option.splits)

lemma cement_block_fields [simp]:
  "l_block (cement_block b l) = l_block l" "l_account (cement_block b l) = l_account l"
  "l_pending (cement_block b l) = l_pending l" "l_pruned (cement_block b l) = l_pruned l"
  "l_weights (cement_block b l) = l_weights l"
  "l_conf (cement_block b l) = fmupd (saved_account b)
     \<lparr>ch_height = saved_height b, ch_frontier = hash (svb_block b)\<rparr> (l_conf l)"
  "l_cemented_count (cement_block b l) = l_cemented_count l + 1"
  by (simp_all add: cement_block_def conf_put_def)

lemma chain_inv_cement [simp]: "chain_inv c (cement_block b l) = chain_inv c l"
  by (simp only: chain_inv_def ledger_inv_def blocks_ok_def accounts_ok_def pending_ok_def
      rep_weights_ok_def total_supply_def ends_ok_def flows_ok_def send_ok_def recv_ok_def
      pending_sends_def reps_ok_def opens_ok_def block_exists_or_pruned_def cement_block_fields)

text \<open>Cementing a block whose dependencies are confirmed confirms exactly this block.\<close>

lemma cement_block_confirms:
  assumes "ledger_ok c l" and "fmlookup (l_block l) h = Some b" and "\<not> confirmed_block_exists l h"
    and "\<forall>d\<in>depends_on c b. confirmed_block_exists l d"
  shows "confirmed_block_exists (cement_block b l) x \<longleftrightarrow> x = h \<or> confirmed_block_exists l x"
proof -
  note inv = ledger_okD [OF assms(1)]
  have below: "confirmed_block_exists l x" if y: "fmlookup (l_block l) x = Some y"
    "saved_account y = saved_account b" "unat (saved_height y) < unat (saved_height b)" for y
  proof -
    have "previous (svb_block b) \<noteq> 0"
    proof
      assume "previous (svb_block b) = 0"
      then have "saved_height b = 1"
        using chain_invD(4) [OF inv(1)] assms(2) by (auto simp: links_ok_def)
      with y(3) stored_height_pos [OF inv(1) y(1)] show False
        by simp
    qed
    with chain_invD(4) [OF inv(1)] assms(2) obtain p where
      p: "fmlookup (l_block l) (previous (svb_block b)) = Some p" "saved_account p = saved_account b"
        "unat (saved_height b) = Suc (unat (saved_height p))"
      unfolding links_ok_def by metis
    from \<open>previous (svb_block b) \<noteq> 0\<close> assms(4) have "confirmed_block_exists l (previous (svb_block b))"
      by (simp add: depends_on_def)
    with p y show ?thesis
      by (auto simp: confirmed_iff)
  qed
  have same: "x = h" if "fmlookup (l_block l) x = Some y" "saved_account y = saved_account b"
    "unat (saved_height y) = unat (saved_height b)" for y
    using that assms(2) chain_invD(6) [OF inv(1)] unfolding heights_ok_def by (metis word_unat_eq_iff)
  have above: "unat (ch_height ci) < unat (saved_height b)" if "fmlookup (l_conf l) (saved_account b) = Some ci" for ci
    using assms(2,3) that by (auto simp: confirmed_iff not_le)
  show ?thesis
  proof
    assume "confirmed_block_exists (cement_block b l) x"
    then show "x = h \<or> confirmed_block_exists l x"
      using below same by (auto simp: confirmed_iff [of "cement_block b l"] le_less split: if_splits)
        (auto simp: confirmed_iff le_less)
  next
    assume "x = h \<or> confirmed_block_exists l x"
    then show "confirmed_block_exists (cement_block b l) x"
      using assms(2) above by (fastforce simp: confirmed_iff)
  qed
qed

lemma ledger_ok_cement:
  assumes "ledger_ok c l" and "fmlookup (l_block l) h = Some b" and "\<not> confirmed_block_exists l h"
    and "\<forall>d\<in>depends_on c b. confirmed_block_exists l d"
  shows "ledger_ok c (cement_block b l)"
proof -
  note inv = ledger_okD [OF assms(1)]
  note conf = cement_block_confirms [OF assms]
  have "hash (svb_block b) = h"
    using chain_invD(13) [OF inv(1)] assms(2) by (auto simp: blocks_ok_def)
  then have entry: "\<exists>y. fmlookup (l_block l) (ch_frontier ci) = Some y \<and> saved_account y = a \<and> saved_height y = ch_height ci"
    if "fmlookup (l_conf (cement_block b l)) a = Some ci" for a ci
    using that conf_invD(1) [OF inv(4), of a] assms(2) by (cases "a = saved_account b") auto
  have deps: "confirmed_block_exists l d"
    if "fmlookup (l_block l) x = Some y" "x = h \<or> confirmed_block_exists l x" "d \<in> depends_on c y" for x y d
  proof (cases "confirmed_block_exists l x")
    case True
    with conf_invD(2) [OF inv(4)] that show ?thesis
      by blast
  next
    case False
    with that assms(2,4) show ?thesis
      by simp
  qed
  have "conf_inv c (cement_block b l)"
    unfolding conf_inv_def conf cement_block_fields(1)
    by (intro conjI allI impI ballI entry disjI2, assumption) (rule deps)
  then show ?thesis
    using inv conf by (simp add: ledger_ok_def genesis_stored_def genesis_confirmed_def)
qed

section \<open>One round\<close>

definition unconfirmed_dependents :: "ledger \<Rightarrow> block_hash list \<Rightarrow> block_hash list" where
  "unconfirmed_dependents l ds = filter (\<lambda>d. d \<noteq> 0 \<and> \<not> confirmed_exists_or_pruned l d) ds"

lemma push_dependent_hd:
  assumes "stack \<noteq> []"
  shows "push_dependent l m d stack \<noteq> []"
    "hd (push_dependent l m d stack)
       = (if d \<noteq> 0 \<and> \<not> confirmed_exists_or_pruned l d then d else hd stack)"
    "set (push_dependent l m d stack) \<subseteq> insert d (set stack)"
  using assms by (auto simp: push_dependent_def dest: in_set_butlastD)

lemma fold_push_hd:
  assumes "stack \<noteq> []"
  shows "fold (push_dependent l m) ds stack \<noteq> []
    \<and> hd (fold (push_dependent l m) ds stack)
        = (if unconfirmed_dependents l ds = [] then hd stack else last (unconfirmed_dependents l ds))
    \<and> set (fold (push_dependent l m) ds stack) \<subseteq> set ds \<union> set stack"
  using assms
proof (induction ds arbitrary: stack)
  case (Cons d ds)
  note p = push_dependent_hd [OF Cons.prems, of l m d]
  from Cons.IH [OF p(1)] p show ?case
    by (auto simp: unconfirmed_dependents_def)
qed (simp add: unconfirmed_dependents_def)

lemma fold_push_none:
  "unconfirmed_dependents l ds = [] \<Longrightarrow> fold (push_dependent l m) ds stack = stack"
  by (induction ds arbitrary: stack) (auto simp: unconfirmed_dependents_def push_dependent_def split: if_splits)

text \<open>
  The walk stays inside a fixed set \<open>R\<close> of blocks, closed under the dependencies \<open>D\<close>, that
  the ledger keeps stored.
\<close>

definition closed_deps :: "(block_hash \<Rightarrow> block_hash set) \<Rightarrow> (block_hash \<Rightarrow> nat) \<Rightarrow> block_hash set \<Rightarrow> bool" where
  "closed_deps D rank R \<longleftrightarrow> finite R \<and> (\<forall>x\<in>R. \<forall>d\<in>D x. d \<in> R \<and> rank d < rank x)"

definition keeps :: "ledger_constants \<Rightarrow> (block_hash \<Rightarrow> block_hash set) \<Rightarrow> block_hash set \<Rightarrow> ledger \<Rightarrow> bool" where
  "keeps c D R l \<longleftrightarrow> (\<forall>x\<in>R. \<exists>b. fmlookup (l_block l) x = Some b \<and> depends_on c b = D x)"

definition walk_inv ::
  "ledger_constants \<Rightarrow> (block_hash \<Rightarrow> block_hash set) \<Rightarrow> block_hash set \<Rightarrow> cementer \<Rightarrow> bool" where
  "walk_inv c D R s \<longleftrightarrow> ledger_ok c (cm_ledger s) \<and> keeps c D R (cm_ledger s) \<and> set (cm_stack s) \<subseteq> R"

lemma keeps_cement [simp]: "keeps c D R (cement_block b l) = keeps c D R l"
  by (simp add: keeps_def)

lemma cement_round_cases:
  assumes "walk_inv c D R s" and "closed_deps D rank R" and "cm_stack s = h # rest"
  obtains
    (push) stack d ds where "cement_round c m s = Some (s\<lparr>cm_stack := d # stack\<rparr>)" "d \<in> D h"
      "\<not> confirmed_block_exists (cm_ledger s) d" "\<not> confirmed_block_exists (cm_ledger s) h"
      "set (d # stack) \<subseteq> R" "fold (push_dependent (cm_ledger s) m) ds (h # rest) = d # stack" "set ds = D h"
      "length ds \<le> 2"
  | (cement) b where "fmlookup (l_block (cm_ledger s)) h = Some b" "\<not> confirmed_block_exists (cm_ledger s) h"
      "\<forall>d\<in>depends_on c b. confirmed_block_exists (cm_ledger s) d"
      "cement_round c m s = Some \<lparr>cm_ledger = cement_block b (cm_ledger s), cm_stack = rest,
         cm_result = cm_result s @ [b]\<rparr>"
  | (pop) "cement_round c m s = Some (s\<lparr>cm_stack := rest\<rparr>)" "confirmed_block_exists (cm_ledger s) h"
proof -
  let ?l = "cm_ledger s"
  from assms(1) have ok: "ledger_ok c ?l" and kp: "keeps c D R ?l" and st: "set (h # rest) \<subseteq> R"
    using assms(3) by (simp_all add: walk_inv_def)
  note inv = ledger_okD [OF ok]
  from kp st obtain b where b: "fmlookup (l_block ?l) h = Some b" "depends_on c b = D h"
    by (auto simp: keeps_def)
  let ?ds = "dependent_iter (find_dependent_blocks c b)"
  let ?f = "fold (push_dependent ?l m) ?ds (h # rest)"
  have ds: "set ?ds = D h"
    using dependent_blocks_depends_on [OF inv(1,2) b(1)] b(2) by simp
  have len: "length ?ds \<le> 2"
    by (simp add: dependent_iter_def)
  have nz: "0 \<notin> D h"
    using ds dependent_iter_set [of 0 "find_dependent_blocks c b"] by simp
  have round: "cement_round c m s = (if ?f \<noteq> [] \<and> hd ?f = h then
      (if \<not> confirmed_exists_or_pruned ?l h
       then Some \<lparr>cm_ledger = cement_block b ?l, cm_stack = tl ?f, cm_result = cm_result s @ [b]\<rparr>
       else Some (s\<lparr>cm_stack := tl ?f\<rparr>))
      else Some (s\<lparr>cm_stack := ?f\<rparr>))"
    using assms(3) b(1) by (simp add: cement_round_def get_block_def Let_def)
  show ?thesis
  proof (cases "unconfirmed_dependents ?l ?ds = []")
    case True
    then have f: "?f = h # rest"
      by (rule fold_push_none)
    have deps: "\<forall>d\<in>depends_on c b. confirmed_block_exists ?l d"
      using True b(2) ds nz by (auto simp: unconfirmed_dependents_def filter_empty_conv inv(5))
    show ?thesis
      using round f cement [OF b(1) _ deps] pop by (auto simp: inv(5) split: if_splits)
  next
    case False
    let ?d = "last (unconfirmed_dependents ?l ?ds)"
    have "?d \<in> set (unconfirmed_dependents ?l ?ds)"
      using False by (rule last_in_set)
    then have d: "?d \<in> D h" "\<not> confirmed_block_exists ?l ?d"
      using ds by (auto simp: unconfirmed_dependents_def inv(5))
    have h: "\<not> confirmed_block_exists ?l h"
      using conf_invD(2) [OF inv(4) b(1)] b(2) d by blast
    have "?d \<noteq> h"
      using assms(2) st d(1) by (auto simp: closed_deps_def)
    moreover obtain stack where f: "?f = ?d # stack" "set ?f \<subseteq> D h \<union> set (h # rest)"
      using fold_push_hd [of "h # rest" ?l m ?ds] False ds by (cases ?f) auto
    moreover have "set (?d # stack) \<subseteq> R"
      using f st assms(2) unfolding f(1) by (auto simp: closed_deps_def)
    ultimately show ?thesis
      using push [OF _ d h _ f(1) ds len] round by simp
  qed
qed

section \<open>Termination and safety of the walk\<close>

text \<open>
  What other writers may do between two rounds: anything that keeps the ledger well-formed and what
  is confirmed. A block found again under its hash depends on the same blocks as before: it is
  the same block, though it may have been rolled back and inserted again, with another timestamp.
\<close>

definition env_ok :: "ledger_constants \<Rightarrow> (nat \<Rightarrow> ledger \<Rightarrow> ledger option) \<Rightarrow> bool" where
  "env_ok c refresh \<longleftrightarrow> (\<forall>n l l'. ledger_ok c l \<longrightarrow> refresh n l = Some l' \<longrightarrow>
     ledger_ok c l' \<and> (\<forall>x. confirmed_block_exists l x \<longrightarrow> confirmed_block_exists l' x)
     \<and> (\<forall>x b b'. fmlookup (l_block l) x = Some b \<longrightarrow> fmlookup (l_block l') x = Some b' \<longrightarrow>
          depends_on c b' = depends_on c b))"

inductive depends_star :: "ledger_constants \<Rightarrow> block_table \<Rightarrow> block_hash \<Rightarrow> block_hash \<Rightarrow> bool" for c t target where
  depends_refl: "depends_star c t target target"
| depends_step: "depends_star c t target x \<Longrightarrow> fmlookup t x = Some b \<Longrightarrow> d \<in> depends_on c b \<Longrightarrow>
    depends_star c t target d"

lemma depends_star_stored:
  assumes "depends_star c (l_block l) target x" and "chain_inv c l" and "fmlookup (l_block l) target \<noteq> None"
  shows "fmlookup (l_block l) x \<noteq> None"
  using assms(1,3) by induction (use stored_dependency [OF assms(2)] in blast)+

definition stored_deps :: "ledger_constants \<Rightarrow> block_table \<Rightarrow> block_hash \<Rightarrow> block_hash set" where
  "stored_deps c t x = (case fmlookup t x of None \<Rightarrow> {} | Some b \<Rightarrow> depends_on c b)"

lemma depends_star_closed:
  assumes "chain_inv c l" and "block_exists l target"
  obtains rank where
    "closed_deps (stored_deps c (l_block l)) rank {x. depends_star c (l_block l) target x}"
    "keeps c (stored_deps c (l_block l)) {x. depends_star c (l_block l) target x} l"
proof -
  let ?R = "{x. depends_star c (l_block l) target x}"
  have stored: "\<exists>b. fmlookup (l_block l) x = Some b" if "x \<in> ?R" for x
    using depends_star_stored [OF _ assms(1)] that assms(2) by (auto simp: block_exists_def)
  from chain_invD(11) [OF assms(1)] obtain rank where rank: "ranked c (l_block l) rank" ..
  have "?R \<subseteq> fmdom' (l_block l)"
    using stored by (auto intro: fmdom'I)
  then have "finite ?R"
    by (rule finite_subset) simp
  moreover have "d \<in> ?R \<and> rank d < rank x" if "x \<in> ?R" "d \<in> stored_deps c (l_block l) x" for x d
    using stored [OF that(1)] that rank by (auto simp: stored_deps_def ranked_def intro: depends_step)
  ultimately have "closed_deps (stored_deps c (l_block l)) rank ?R"
    by (auto simp: closed_deps_def)
  moreover have "keeps c (stored_deps c (l_block l)) ?R l"
    using stored by (fastforce simp: keeps_def stored_deps_def)
  ultimately show ?thesis
    by (rule that)
qed

text \<open>A refresh that leaves the target in place leaves all its dependencies in place.\<close>

lemma keeps_refresh:
  assumes "env_ok c refresh" and "ledger_ok c l" and "refresh n l = Some l'" and "block_exists l' target"
    and "closed_deps D rank R" and "keeps c D R l" and "\<And>x. x \<in> R \<Longrightarrow> depends_star c t target x"
    and "\<And>x. x \<in> R \<Longrightarrow> stored_deps c t x = D x" and "target \<in> R"
  shows "keeps c D R l'"
proof -
  have env: "ledger_ok c l'" "\<And>x b b'. fmlookup (l_block l) x = Some b \<Longrightarrow> fmlookup (l_block l') x = Some b' \<Longrightarrow>
      depends_on c b' = depends_on c b"
    using assms(1-3) unfolding env_ok_def by blast+
  have step: "\<exists>b. fmlookup (l_block l') x = Some b \<and> depends_on c b = D x"
    if "x \<in> R" "fmlookup (l_block l') x = Some b'" for x b'
  proof -
    from that(1) assms(6) obtain b where b: "fmlookup (l_block l) x = Some b" "depends_on c b = D x"
      unfolding keeps_def by blast
    from env(2) [OF b(1) that(2)] have "depends_on c b' = D x"
      by (simp add: b(2))
    with that(2) show ?thesis
      by blast
  qed
  have "x \<in> R \<and> (\<exists>b. fmlookup (l_block l') x = Some b \<and> depends_on c b = D x)" if "depends_star c t target x" for x
    using that
  proof induction
    case depends_refl
    from assms(4) obtain b' where "fmlookup (l_block l') target = Some b'"
      by (auto simp: block_exists_def)
    from step [OF assms(9) this] assms(9) show ?case
      by simp
  next
    case (depends_step x b d)
    then have d: "d \<in> D x"
      using assms(8) [of x] by (auto simp: stored_deps_def)
    then have R: "d \<in> R"
      using depends_step(4) assms(5) by (auto simp: closed_deps_def)
    from depends_step(4) obtain y where "fmlookup (l_block l') x = Some y" "depends_on c y = D x"
      by blast
    with d stored_dependency [OF ledger_okD(1) [OF env(1)] this(1)]
    obtain b' where "fmlookup (l_block l') d = Some b'"
      by auto
    from step [OF R this] R show ?case
      by simp
  qed
  then show ?thesis
    using assms(7) unfolding keeps_def by blast
qed

definition unconfirmed :: "block_hash set \<Rightarrow> ledger \<Rightarrow> block_hash set" where
  "unconfirmed R l = {x \<in> R. \<not> confirmed_block_exists l x}"

definition walk_measure :: "block_hash set \<Rightarrow> (block_hash \<Rightarrow> nat) \<Rightarrow> ledger \<Rightarrow> block_hash list \<Rightarrow> nat \<times> nat \<times> nat" where
  "walk_measure R rank l stack =
     (card (unconfirmed R l),
      (case stack of [] \<Rightarrow> (0, 0)
       | h # _ \<Rightarrow> if confirmed_block_exists l h then (1, length stack) else (0, rank h)))"

abbreviation walk_order :: "((nat \<times> nat \<times> nat) \<times> (nat \<times> nat \<times> nat)) set" where
  "walk_order \<equiv> less_than <*lex*> less_than <*lex*> less_than"

lemma walk_order_trans: "trans walk_order"
  by (intro trans_lex_prod trans_less_than)

lemma walk_order_wf: "wf walk_order"
  by (intro wf_lex_prod wf_less_than)

definition advances :: "ledger \<Rightarrow> ledger \<Rightarrow> bool" where
  "advances l l' \<longleftrightarrow> (\<forall>x. confirmed_block_exists l x \<longrightarrow> confirmed_block_exists l' x)"

lemma advances_refl [simp]: "advances l l"
  by (simp add: advances_def)

lemma advances_trans: "advances l l' \<Longrightarrow> advances l' l'' \<Longrightarrow> advances l l''"
  by (simp add: advances_def)

lemma round_progress:
  assumes "walk_inv c D R s" and "closed_deps D rank R" and "cm_stack s \<noteq> []"
  obtains s' where "cement_round c m s = Some s'" "walk_inv c D R s'"
    "(walk_measure R rank (cm_ledger s') (cm_stack s'), walk_measure R rank (cm_ledger s) (cm_stack s)) \<in> walk_order"
    "advances (cm_ledger s) (cm_ledger s')"
proof -
  from assms(3) obtain h rest where st: "cm_stack s = h # rest"
    by (cases "cm_stack s") auto
  from assms(1) st have ok: "ledger_ok c (cm_ledger s)" and R: "h \<in> R" "set rest \<subseteq> R"
    by (auto simp: walk_inv_def)
  from assms(1,2) st show ?thesis
  proof (cases rule: cement_round_cases [where m = m])
    case (push stack d ds)
    have "rank d < rank h"
      using assms(2) R(1) push(2) by (auto simp: closed_deps_def)
    then show ?thesis
      using that [OF push(1)] assms(1) push(3-5) st by (simp add: walk_inv_def walk_measure_def)
  next
    case (cement b)
    let ?l = "cement_block b (cm_ledger s)"
    note conf = cement_block_confirms [OF ok cement(1-3)]
    have "unconfirmed R ?l = unconfirmed R (cm_ledger s) - {h}"
      by (auto simp: unconfirmed_def conf)
    moreover have "h \<in> unconfirmed R (cm_ledger s)" "finite (unconfirmed R (cm_ledger s))"
      using R(1) cement(2) assms(2) by (simp_all add: unconfirmed_def closed_deps_def)
    ultimately have "card (unconfirmed R ?l) < card (unconfirmed R (cm_ledger s))"
      by (metis card_Diff1_less)
    moreover have "walk_inv c D R \<lparr>cm_ledger = ?l, cm_stack = rest, cm_result = cm_result s @ [b]\<rparr>"
      using assms(1) R(2) ledger_ok_cement [OF ok cement(1-3)] by (simp add: walk_inv_def)
    moreover have "advances (cm_ledger s) ?l"
      by (simp add: advances_def conf)
    ultimately show ?thesis
      using that [OF cement(4)] by (simp add: walk_measure_def)
  next
    case pop
    then show ?thesis
      using that [OF pop(1)] assms(1) st R
      by (simp add: walk_inv_def walk_measure_def split: list.splits)
  qed
qed

lemma walk_measure_advances:
  assumes "advances l l'" and "set stack \<subseteq> R" and "finite R"
  shows "(walk_measure R rank l' stack, walk_measure R rank l stack) \<in> walk_order
    \<or> walk_measure R rank l' stack = walk_measure R rank l stack"
proof (cases "unconfirmed R l' = unconfirmed R l")
  case True
  then have "confirmed_block_exists l' x = confirmed_block_exists l x" if "x \<in> R" for x
    using that unfolding unconfirmed_def by blast
  with True assms(2) show ?thesis
    by (auto simp: walk_measure_def split: list.splits)
next
  case False
  moreover have "unconfirmed R l' \<subseteq> unconfirmed R l"
    using assms(1) by (auto simp: unconfirmed_def advances_def)
  ultimately have "card (unconfirmed R l') < card (unconfirmed R l)"
    using assms(3) by (intro psubset_card_mono) (auto simp: unconfirmed_def)
  then show ?thesis
    by (simp add: walk_measure_def)
qed

lemma cement_loop_total:
  assumes "env_ok c refresh" and "closed_deps D rank R"
    and R: "\<And>x. x \<in> R \<Longrightarrow> depends_star c t target x" "\<And>x. x \<in> R \<Longrightarrow> stored_deps c t x = D x" "target \<in> R"
    and "walk_inv c D R s"
  shows "\<exists>s'. cement_loop c refresh target m n s = Some (Some s') \<and> ledger_ok c (cm_ledger s')
    \<and> advances (cm_ledger s) (cm_ledger s')"
  using assms(6)
proof (induction "walk_measure R rank (cm_ledger s) (cm_stack s)" arbitrary: s n rule: wf_induct_rule [OF walk_order_wf])
  case (1 s n)
  have ok: "ledger_ok c (cm_ledger s)"
    using 1(2) by (simp add: walk_inv_def)
  show ?case
  proof (cases "cm_stack s = []")
    case True
    then show ?thesis
      using ok by (subst cement_loop.simps) simp
  next
    case False
    obtain s1 where s1: "cement_round c m s = Some s1" "walk_inv c D R s1"
      "(walk_measure R rank (cm_ledger s1) (cm_stack s1), walk_measure R rank (cm_ledger s) (cm_stack s)) \<in> walk_order"
      "advances (cm_ledger s) (cm_ledger s1)"
      by (rule round_progress [OF 1(2) assms(2) False])
    have ok1: "ledger_ok c (cm_ledger s1)" "set (cm_stack s1) \<subseteq> R"
      using s1(2) by (simp_all add: walk_inv_def)
    show ?thesis
    proof (cases "refresh n (cm_ledger s1)")
      case None
      from 1(1) [OF s1(3,2), of "Suc n"] show ?thesis
        using False s1(1,4) ok1(1) None advances_trans [OF s1(4)]
        by (subst cement_loop.simps) auto
    next
      case (Some l)
      let ?s2 = "s1\<lparr>cm_ledger := l\<rparr>"
      have env: "ledger_ok c l" "advances (cm_ledger s1) l"
        using assms(1) ok1(1) Some unfolding env_ok_def advances_def by blast+
      note adv = advances_trans [OF s1(4) env(2)]
      have more: "\<exists>s'. cement_loop c refresh target m (Suc n) ?s2 = Some (Some s') \<and> ledger_ok c (cm_ledger s')
        \<and> advances (cm_ledger s) (cm_ledger s')" if "block_exists l target"
      proof -
        have "keeps c D R (cm_ledger s1)"
          using s1(2) by (simp add: walk_inv_def)
        from keeps_refresh [OF assms(1) ok1(1) Some that assms(2) this R]
        have w: "walk_inv c D R ?s2"
          using env(1) ok1(2) by (simp add: walk_inv_def)
        have "finite R"
          using assms(2) by (simp add: closed_deps_def)
        from walk_measure_advances [OF env(2) ok1(2) this, of rank] s1(3)
        have "(walk_measure R rank (cm_ledger ?s2) (cm_stack ?s2), walk_measure R rank (cm_ledger s) (cm_stack s)) \<in> walk_order"
          by (auto dest: transD [OF walk_order_trans])
        from 1(1) [OF this w, of "Suc n"] advances_trans [OF adv] show ?thesis
          by auto
      qed
      show ?thesis
        using False s1(1) Some env(1) adv more
        by (subst cement_loop.simps) auto
    qed
  qed
qed

lemma confirm_max_total:
  assumes "ledger_ok c l" and "block_exists l target" and "env_ok c refresh"
  shows "\<exists>s. confirm_max c refresh l target m = Some (Some s) \<and> ledger_ok c (cm_ledger s)
    \<and> advances l (cm_ledger s)"
proof (rule depends_star_closed [OF ledger_okD(1) [OF assms(1)] assms(2)])
  fix rank
  let ?R = "{x. depends_star c (l_block l) target x}" and ?D = "stored_deps c (l_block l)"
  assume R: "closed_deps ?D rank ?R" "keeps c ?D ?R l"
  have "target \<in> ?R"
    by (simp add: depends_refl)
  moreover from this have "walk_inv c ?D ?R \<lparr>cm_ledger = l, cm_stack = [target], cm_result = []\<rparr>"
    using assms(1) R(2) by (simp add: walk_inv_def)
  ultimately show ?thesis
    using cement_loop_total [OF assms(3) R(1), of "l_block l" target _ m 0]
    unfolding confirm_max_def by fastforce
qed

end
