(* ===== verification/Ledger_Init.thy ===== *)
theory Ledger_Init
  imports Cementing_Safety "HOL-Library.Multiset"
begin

text \<open>
  Opening a ledger: \<open>LedgerConstants::new\<close> and \<open>genesis_sideband\<close>
  (\<open>ledger/src/ledger_constants.rs\<close>), \<open>Ledger::initialize\<close> and \<open>Ledger::add_genesis_block\<close>
  (\<open>ledger/src/ledger.rs\<close>), and the parallel traversal of a table
  (\<open>store_lmdb/src/lib.rs\<close>) that fills the caches. The threads of the traversal add to the
  caches in some order; the order is an argument. The parsed genesis block and the second
  epoch signer depend on the network and are arguments too.
\<close>

section \<open>Constants\<close>

definition genesis_sideband :: "account \<Rightarrow> u64 \<Rightarrow> block_sideband" where
  "genesis_sideband genesis_account now =
     \<lparr>sd_height = 1, sd_timestamp = now, sd_successor = 0, sd_account = genesis_account,
      sd_balance = - 1, sd_details = block_details_new Epoch0 False False False,
      sd_source_epoch = Epoch0\<rparr>"

text \<open>\<open>None\<close>: the genesis block has no account field, an \<open>unwrap\<close> panics.\<close>

definition ledger_constants_new ::
  "work_thresholds \<Rightarrow> block \<Rightarrow> public_key \<Rightarrow> u64 \<Rightarrow> ledger_constants option" where
  "ledger_constants_new wt genesis_block epoch_2_signer now =
     map_option (\<lambda>genesis_account.
       \<lparr>lc_work = wt,
        lc_genesis_block = \<lparr>svb_block = genesis_block, svb_sideband = genesis_sideband genesis_account now\<rparr>,
        lc_genesis_account = genesis_account,
        lc_epochs = epochs_add (epochs_add [] Epoch1 genesis_account epoch_v1_link)
                      Epoch2 epoch_2_signer epoch_v2_link\<rparr>)
     (account_field genesis_block)"

section \<open>Parallel traversal\<close>

definition thread_count :: "nat \<Rightarrow> nat" where
  "thread_count cpus = max 10 (min 40 (11 * cpus))"

definition traversal_range :: "nat \<Rightarrow> nat \<Rightarrow> 256 word \<times> 256 word \<times> bool" where
  "traversal_range threads i =
     (let split = (- 1 :: 256 word) div of_nat threads
      in (split * of_nat i, split * of_nat (Suc i), i = threads - 1))"

text \<open>The entries between two iterators: up to the entry at which the second one stands.\<close>

definition shard_entries :: "('k::linorder, 'v) fmap \<Rightarrow> 'k \<times> 'k \<times> bool \<Rightarrow> ('k \<times> 'v) list" where
  "shard_entries t r =
     (case r of (start, stop, is_last) \<Rightarrow>
        (case (if is_last then [] else entries_from stop t) of
           [] \<Rightarrow> entries_from start t
         | (k, _) # _ \<Rightarrow> takeWhile (\<lambda>(k', _). k' \<noteq> k) (entries_from start t)))"

section \<open>Filling the caches\<close>

record generate_cache_flags =
  gc_reps :: bool
  gc_cemented_count :: bool
  gc_unchecked_count :: bool
  gc_account_count :: bool
  gc_block_count :: bool

text \<open>The totals of one shard; the hash map of weights is an association list without repetitions.\<close>

definition add_rep_weight :: "account_info \<Rightarrow> (public_key \<times> amount) list \<Rightarrow> (public_key \<times> amount) list" where
  "add_rep_weight i ws =
     (if ai_balance i \<noteq> 0
      then AList.update (ai_representative i)
             (unwrap_or (map_of ws (ai_representative i)) 0 + ai_balance i) ws
      else ws)"

definition scan_accounts :: "(account \<times> account_info) list \<Rightarrow> u64 \<times> u64 \<times> (public_key \<times> amount) list" where
  "scan_accounts es =
     fold (\<lambda>(_, i) (blocks, accounts, ws).
         (blocks + ai_block_count i, accounts + 1, add_rep_weight i ws)) es (0, 0, [])"

definition load_account_shard :: "(account \<times> account_info) list \<Rightarrow> ledger \<Rightarrow> ledger" where
  "load_account_shard es l =
     (case scan_accounts es of (blocks, accounts, ws) \<Rightarrow>
        l\<lparr>l_block_count := l_block_count l + blocks,
          l_account_count := l_account_count l + accounts,
          l_weights := (l_weights l)\<lparr>rw_cache :=
            copy_from (rw_min_weight (l_weights l)) (rw_cache (l_weights l)) ws\<rparr>\<rparr>)"

definition load_conf_shard :: "(account \<times> confirmation_height_info) list \<Rightarrow> ledger \<Rightarrow> ledger" where
  "load_conf_shard es l =
     l\<lparr>l_cemented_count := l_cemented_count l + fold (\<lambda>(_, i) n. n + ch_height i) es 0\<rparr>"

definition add_genesis_block :: "ledger_constants \<Rightarrow> u64 \<Rightarrow> ledger \<Rightarrow> ledger option" where
  "add_genesis_block c now l =
     do {
       let h = hash (svb_block (lc_genesis_block c));
       let a = lc_genesis_account c;
       l \<leftarrow> ledger_block_put (lc_genesis_block c) l;
       let l = conf_put a \<lparr>ch_height = 1, ch_frontier = h\<rparr> l;
       let l = account_put a \<lparr>ai_head = h, ai_representative = a, ai_open_block = h,
                 ai_balance = - 1, ai_modified = now, ai_block_count = 1, ai_epoch = Epoch0\<rparr> l;
       Some (l\<lparr>l_weights := (l_weights l)\<lparr>rw_store := fmupd a MAX_amount (rw_store (l_weights l))\<rparr>\<rparr>)
     }"

definition initialize ::
  "ledger_constants \<Rightarrow> u64 \<Rightarrow> generate_cache_flags \<Rightarrow> nat \<Rightarrow> nat list \<Rightarrow> nat list \<Rightarrow> ledger \<Rightarrow> ledger option" where
  "initialize c now flags threads order order' l =
     do {
       l \<leftarrow> (if l_account l = fmempty then add_genesis_block c now l else Some l);
       let l = (if gc_reps flags \<or> gc_account_count flags \<or> gc_block_count flags
                then fold (\<lambda>i. load_account_shard (shard_entries (l_account l) (traversal_range threads i))) order l
                else l);
       let l = (if gc_cemented_count flags
                then fold (\<lambda>i. load_conf_shard (shard_entries (l_conf l) (traversal_range threads i))) order' l
                else l);
       Some (l\<lparr>l_pruned_count := l_pruned_count l + of_nat (fcard (fmdom (l_pruned l)))\<rparr>)
     }"

definition empty_ledger :: "amount \<Rightarrow> ledger" where
  "empty_ledger min_weight =
     \<lparr>l_block = fmempty, l_account = fmempty, l_pending = fmempty, l_pruned = fmempty, l_conf = fmempty,
      l_weights = \<lparr>rw_store = fmempty, rw_cache = fmempty, rw_min_weight = min_weight\<rparr>,
      l_block_count = 0, l_account_count = 0, l_cemented_count = 0, l_pruned_count = 0\<rparr>"

section \<open>The traversal visits every entry once\<close>

lemma takeWhile_until_key:
  assumes "sorted (map fst xs)" and "distinct (map fst xs)" and "(k, v) \<in> set xs"
  shows "takeWhile (\<lambda>(k', _). k' \<noteq> k) xs = filter (\<lambda>(k', _). k' < k) xs"
  using assms
proof (induction xs)
  case (Cons x xs)
  obtain k' v' where x: "x = (k', v')"
    by (cases x)
  show ?case
  proof (cases "k' = k")
    case True
    then have "\<forall>y\<in>set xs. \<not> fst y < k"
      using Cons.prems x by auto
    then have "filter (\<lambda>(k', _). k' < k) xs = []"
      by (auto simp: filter_empty_conv)
    with True show ?thesis
      by (simp add: x)
  next
    case False
    then have "(k, v) \<in> set xs"
      using Cons.prems(3) x by simp
    moreover from this have "k' < k"
      using Cons.prems(1) False x by force
    ultimately show ?thesis
      using Cons by (simp add: x)
  qed
qed simp

lemma shard_entries_filter:
  assumes "start \<le> stop"
  shows "shard_entries t (start, stop, is_last)
    = filter (\<lambda>(k, _). start \<le> k \<and> (is_last \<or> k < stop)) (sorted_list_of_fmap t)"
proof (cases "is_last \<or> entries_from stop t = []")
  case True
  then have "k < stop" if "\<not> is_last" "(k, v) \<in> set (sorted_list_of_fmap t)" for k v
    using that entries_from_Nil [of stop t] by (auto simp: set_sorted_list_of_fmap not_less [symmetric])
  then have "filter (\<lambda>(k, _). start \<le> k \<and> (is_last \<or> k < stop)) (sorted_list_of_fmap t)
    = filter (\<lambda>(k, _). start \<le> k) (sorted_list_of_fmap t)"
    by (intro filter_cong) auto
  with True show ?thesis
    by (auto simp: shard_entries_def entries_from_filter)
next
  case False
  then obtain k v rest where e: "entries_from stop t = (k, v) # rest" "\<not> is_last"
    by (cases "entries_from stop t") auto
  note d = entries_from_ConsD [OF e(1)]
  have "(k, v) \<in> set (entries_from start t)"
    using d(1,2) assms by (simp add: set_entries_from)
  from takeWhile_until_key [OF sorted_entries_from distinct_entries_from this]
  have "shard_entries t (start, stop, is_last) = filter (\<lambda>(k', _). k' < k) (entries_from start t)"
    using e by (simp add: shard_entries_def)
  also have "\<dots> = filter (\<lambda>(k', _). start \<le> k' \<and> k' < stop) (sorted_list_of_fmap t)"
    unfolding entries_from_filter filter_filter
  proof (rule filter_cong [OF refl])
    fix x
    assume "x \<in> set (sorted_list_of_fmap t)"
    then obtain k' v' where x: "x = (k', v')" "fmlookup t k' = Some v'"
      by (metis set_sorted_list_of_fmap surj_pair)
    have "k' < k \<longleftrightarrow> k' < stop"
      using d(2) d(3) [of k'] x(2) by (auto simp: not_less [symmetric])
    with x(1) show "(case x of (k', _) \<Rightarrow> start \<le> k') \<and> (case x of (k', _) \<Rightarrow> k' < k)
      \<longleftrightarrow> (case x of (k', _) \<Rightarrow> start \<le> k' \<and> k' < stop)"
      by auto
  qed
  finally show ?thesis
    using e(2) by simp
qed

lemma filter_below_split:
  assumes "sorted (map fst xs)" and "m \<le> n"
  shows "filter (\<lambda>(k, _). k < m) xs @ filter (\<lambda>(k, _). m \<le> k \<and> (b \<or> k < n)) xs
    = filter (\<lambda>(k, _). b \<or> k < n) xs"
  using assms
proof (induction xs)
  case (Cons x xs)
  obtain k v where x: "x = (k, v)"
    by (cases x)
  show ?case
  proof (cases "k < m")
    case True
    with Cons x show ?thesis
      by auto
  next
    case False
    then have "filter (\<lambda>(k, _). k < m) xs = []"
      using Cons.prems x by (force simp: filter_empty_conv)
    with False Cons x show ?thesis
      by auto
  qed
qed simp

lemma traversal_start:
  assumes "i \<le> threads" and "threads < 2 ^ 256"
  shows "unat ((- 1 :: 256 word) div of_nat threads * of_nat i) = (2 ^ 256 - 1) div threads * i"
proof (cases "threads = 0")
  case False
  have t: "unat (of_nat threads :: 256 word) = threads" "unat (of_nat i :: 256 word) = i"
    using assms by (simp_all add: unat_of_nat)
  have m: "unat (- 1 :: 256 word) = 2 ^ 256 - 1"
    by (simp add: unsigned_minus_1_eq_mask mask_eq_exp_minus_1)
  have "(2 ^ 256 - 1) div threads * i \<le> (2 ^ 256 - 1) div threads * threads"
    using assms(1) by simp
  also have "\<dots> \<le> 2 ^ 256 - 1"
    by simp
  finally have "(2 ^ 256 - 1) div threads * i < (2 ^ 256 :: nat)"
    by simp
  then show ?thesis
    using t m by (subst unat_mult_lem [THEN iffD1]) (simp_all only: unat_div_distrib len_num1 len_bit0, simp_all)
qed (use assms in simp)

lemma shards_below:
  assumes "i < threads" and "threads < 2 ^ 256"
  shows "concat (map (\<lambda>j. shard_entries t (traversal_range threads j)) [0..<i])
    = filter (\<lambda>(k, _). k < (- 1 :: 256 word) div of_nat threads * of_nat i) (sorted_list_of_fmap t)"
  using assms(1)
proof (induction i)
  case 0
  then show ?case
    by (auto simp: filter_empty_conv)
next
  case (Suc i)
  let ?s = "\<lambda>i. (- 1 :: 256 word) div of_nat threads * of_nat i"
  have "unat (?s i) \<le> unat (?s (Suc i))"
    using Suc.prems assms(2) traversal_start [of i threads] traversal_start [of "Suc i" threads] by simp
  then have le: "?s i \<le> ?s (Suc i)"
    by (simp add: word_le_nat_alt)
  have "i \<noteq> threads - 1"
    using Suc.prems by simp
  then have "shard_entries t (traversal_range threads i)
      = filter (\<lambda>(k, _). ?s i \<le> k \<and> (False \<or> k < ?s (Suc i))) (sorted_list_of_fmap t)"
    using shard_entries_filter [OF le, of t False] Suc.prems by (simp add: traversal_range_def Let_def)
  then show ?case
    using Suc filter_below_split [OF sorted_sorted_list_of_fmap le, of t False] by simp
qed

lemma traversal_complete:
  assumes "0 < threads" and "threads < 2 ^ 256"
  shows "concat (map (\<lambda>j. shard_entries t (traversal_range threads j)) [0..<threads]) = sorted_list_of_fmap t"
proof -
  obtain i where i: "threads = Suc i"
    using assms(1) by (cases threads) auto
  let ?s = "\<lambda>i. (- 1 :: 256 word) div of_nat threads * of_nat i"
  have "unat (?s i) \<le> unat (?s (Suc i))"
    using i assms(2) traversal_start [of i threads] traversal_start [of "Suc i" threads] by simp
  then have le: "?s i \<le> ?s (Suc i)"
    by (simp add: word_le_nat_alt)
  have "shard_entries t (traversal_range threads i)
      = filter (\<lambda>(k, _). ?s i \<le> k \<and> (True \<or> k < ?s (Suc i))) (sorted_list_of_fmap t)"
    using shard_entries_filter [OF le, of t True] i by (simp add: traversal_range_def Let_def)
  then have "concat (map (\<lambda>j. shard_entries t (traversal_range threads j)) [0..<threads])
    = filter (\<lambda>(k, _). True \<or> k < ?s (Suc i)) (sorted_list_of_fmap t)"
    using shards_below [of i threads t] assms(2) i
      filter_below_split [OF sorted_sorted_list_of_fmap le, of t True] by simp
  then show ?thesis
    by (simp add: split_def)
qed

lemma thread_count_range: "10 \<le> thread_count cpus" "thread_count cpus \<le> 40"
  by (simp_all add: thread_count_def)

section \<open>The counters after loading\<close>

lemma scan_accounts_counts:
  "\<exists>ws. scan_accounts es = (\<Sum>(_, i)\<leftarrow>es. ai_block_count i, of_nat (length es), ws)"
proof -
  have "\<exists>ws'. fold (\<lambda>(_, i) (blocks, accounts, ws).
         (blocks + ai_block_count i, accounts + 1, add_rep_weight i ws)) es (m, n, ws)
    = (m + (\<Sum>(_, i)\<leftarrow>es. ai_block_count i), n + of_nat (length es), ws')" for m n ws
  proof (induction es arbitrary: m n ws)
    case (Cons e es)
    obtain a i where e: "e = (a, i)"
      by (cases e)
    from Cons [of "m + ai_block_count i" "n + 1" "add_rep_weight i ws"] show ?case
      by (auto simp: e algebra_simps)
  qed simp
  from this [of 0 0 "[]"] show ?thesis
    by (simp add: scan_accounts_def)
qed

lemma load_account_shard_fields [simp]:
  "l_block_count (load_account_shard es l) = l_block_count l + (\<Sum>(_, i)\<leftarrow>es. ai_block_count i)"
  "l_account_count (load_account_shard es l) = l_account_count l + of_nat (length es)"
  "l_account (load_account_shard es l) = l_account l" "l_block (load_account_shard es l) = l_block l"
  "l_conf (load_account_shard es l) = l_conf l" "l_cemented_count (load_account_shard es l) = l_cemented_count l"
  "l_pending (load_account_shard es l) = l_pending l" "l_pruned (load_account_shard es l) = l_pruned l"
  using scan_accounts_counts [of es] by (auto simp: load_account_shard_def)

lemma load_conf_shard_fields [simp]:
  "l_cemented_count (load_conf_shard es l) = l_cemented_count l + (\<Sum>(_, i)\<leftarrow>es. ch_height i)"
  "l_block_count (load_conf_shard es l) = l_block_count l"
  "l_account_count (load_conf_shard es l) = l_account_count l" "l_account (load_conf_shard es l) = l_account l"
  "l_block (load_conf_shard es l) = l_block l" "l_conf (load_conf_shard es l) = l_conf l"
  "l_weights (load_conf_shard es l) = l_weights l" "l_pending (load_conf_shard es l) = l_pending l"
  "l_pruned (load_conf_shard es l) = l_pruned l"
proof -
  have "fold (\<lambda>(_, i) n. n + ch_height i) es n = n + (\<Sum>(_, i)\<leftarrow>es. ch_height i)" for n
    by (induction es arbitrary: n) (auto simp: add.assoc)
  then show "l_cemented_count (load_conf_shard es l) = l_cemented_count l + (\<Sum>(_, i)\<leftarrow>es. ch_height i)"
    by (simp add: load_conf_shard_def)
qed (simp_all add: load_conf_shard_def)

lemma fold_load_accounts:
  "l_block_count (fold (\<lambda>i. load_account_shard (f i)) order l)
     = l_block_count l + (\<Sum>i\<leftarrow>order. \<Sum>(_, j)\<leftarrow>f i. ai_block_count j)"
  "l_account_count (fold (\<lambda>i. load_account_shard (f i)) order l)
     = l_account_count l + (\<Sum>i\<leftarrow>order. of_nat (length (f i)))"
  "l_conf (fold (\<lambda>i. load_account_shard (f i)) order l) = l_conf l"
  "l_cemented_count (fold (\<lambda>i. load_account_shard (f i)) order l) = l_cemented_count l"
  "l_pruned (fold (\<lambda>i. load_account_shard (f i)) order l) = l_pruned l"
  "l_account (fold (\<lambda>i. load_account_shard (f i)) order l) = l_account l"
  "l_block (fold (\<lambda>i. load_account_shard (f i)) order l) = l_block l"
  "l_pending (fold (\<lambda>i. load_account_shard (f i)) order l) = l_pending l"
  by (induction order arbitrary: l) (simp_all add: add.assoc)

lemma fold_load_conf:
  "l_cemented_count (fold (\<lambda>i. load_conf_shard (f i)) order l)
     = l_cemented_count l + (\<Sum>i\<leftarrow>order. \<Sum>(_, j)\<leftarrow>f i. ch_height j)"
  "l_block_count (fold (\<lambda>i. load_conf_shard (f i)) order l) = l_block_count l"
  "l_account_count (fold (\<lambda>i. load_conf_shard (f i)) order l) = l_account_count l"
  "l_account (fold (\<lambda>i. load_conf_shard (f i)) order l) = l_account l"
  "l_block (fold (\<lambda>i. load_conf_shard (f i)) order l) = l_block l"
  "l_conf (fold (\<lambda>i. load_conf_shard (f i)) order l) = l_conf l"
  "l_weights (fold (\<lambda>i. load_conf_shard (f i)) order l) = l_weights l"
  "l_pending (fold (\<lambda>i. load_conf_shard (f i)) order l) = l_pending l"
  "l_pruned (fold (\<lambda>i. load_conf_shard (f i)) order l) = l_pruned l"
  by (induction order arbitrary: l) (simp_all add: add.assoc)

lemma sum_list_concat: "(\<Sum>i\<leftarrow>xs. sum_list (map g (f i))) = sum_list (map g (concat (map f xs)))"
  for g :: "'a \<Rightarrow> 'b::comm_monoid_add"
  by (induction xs) simp_all

lemma sum_list_mset_cong:
  fixes g :: "nat \<Rightarrow> 'b::comm_monoid_add"
  assumes "mset xs = mset ys"
  shows "sum_list (map g xs) = sum_list (map g ys)"
  using assms by (metis mset_map sum_mset_sum_list)

text \<open>The order in which the threads finish does not matter.\<close>

lemma shards_sum:
  fixes g :: "256 word \<times> 'v \<Rightarrow> 'b::comm_monoid_add"
  assumes "mset order = mset [0..<threads]" and "0 < threads" and "threads < 2 ^ 256"
  shows "(\<Sum>i\<leftarrow>order. sum_list (map g (shard_entries t (traversal_range threads i))))
    = sum_list (map g (sorted_list_of_fmap t))"
  using sum_list_mset_cong [OF assms(1), of "\<lambda>i. sum_list (map g (shard_entries t (traversal_range threads i)))"]
    sum_list_concat [of g "\<lambda>i. shard_entries t (traversal_range threads i)" "[0..<threads]"]
    traversal_complete [OF assms(2,3), of t]
  by simp

lemma initialize_counts:
  assumes "mset order = mset [0..<threads]" and "mset order' = mset [0..<threads]"
    and "0 < threads" and "threads < 2 ^ 256" and "l_account l \<noteq> fmempty"
    and "gc_block_count flags" and "gc_cemented_count flags"
  obtains l' where "initialize c now flags threads order order' l = Some l'"
    "l_block_count l' = l_block_count l + (\<Sum>(_, i)\<leftarrow>sorted_list_of_fmap (l_account l). ai_block_count i)"
    "l_account_count l' = l_account_count l + of_nat (length (sorted_list_of_fmap (l_account l)))"
    "l_cemented_count l' = l_cemented_count l + (\<Sum>(_, i)\<leftarrow>sorted_list_of_fmap (l_conf l). ch_height i)"
proof -
  have n: "(\<Sum>i\<leftarrow>order. (of_nat (length (shard_entries (l_account l) (traversal_range threads i))) :: u64))
    = of_nat (length (sorted_list_of_fmap (l_account l)))"
    using shards_sum [OF assms(1,3,4), of "\<lambda>_. 1 :: u64" "l_account l"] by (simp add: sum_list_triv)
  let ?l1 = "fold (\<lambda>i. load_account_shard (shard_entries (l_account l) (traversal_range threads i))) order l"
  let ?l2 = "fold (\<lambda>i. load_conf_shard (shard_entries (l_conf l) (traversal_range threads i))) order' ?l1"
  let ?l' = "?l2\<lparr>l_pruned_count := l_pruned_count ?l2 + of_nat (fcard (fmdom (l_pruned l)))\<rparr>"
  have "initialize c now flags threads order order' l = Some ?l'"
    using assms(5-7) by (simp add: initialize_def Let_def fold_load_accounts fold_load_conf)
  then show ?thesis
    using n shards_sum [OF assms(1,3,4), of "\<lambda>(_, i). ai_block_count i" "l_account l"]
      shards_sum [OF assms(2-4), of "\<lambda>(_, i). ch_height i" "l_conf l"]
    by (intro that [of ?l']) (simp_all add: fold_load_accounts fold_load_conf)
qed

section \<open>The weights after loading\<close>

text \<open>
  Every shard adds its part of the weight of a representative to the cache, and a sum below the
  minimum weight is forgotten at once (\<open>put_cache\<close>). \<open>kept_weights\<close> is what the cache then has after
  the shards in the given order.
\<close>

definition weight_in :: "(public_key \<times> amount) list \<Rightarrow> public_key \<Rightarrow> amount" where
  "weight_in ws r = (\<Sum>(r', x)\<leftarrow>ws. if r' = r then x else 0)"

definition shard_weight :: "(account, account_info) fmap \<Rightarrow> nat \<Rightarrow> public_key \<Rightarrow> nat \<Rightarrow> amount" where
  "shard_weight t threads r i =
     (\<Sum>(_, j)\<leftarrow>shard_entries t (traversal_range threads i). if r = ai_representative j then ai_balance j else 0)"

definition above :: "amount \<Rightarrow> amount \<Rightarrow> amount" where
  "above mw x = (if x < mw then 0 else x)"

definition kept_weights :: "amount \<Rightarrow> amount list \<Rightarrow> amount \<Rightarrow> amount" where
  "kept_weights mw = fold (\<lambda>p x. above mw (x + p))"

lemma above_0 [simp]: "above mw 0 = 0"
  by (simp add: above_def)

lemma weight_get_put_cache:
  "weight_get (put_cache mw c r x) r' = (if r' = r then above mw x else weight_get c r')"
  by (auto simp: put_cache_def above_def)

lemma copy_from_nonzero:
  assumes "\<forall>r. fmlookup c r \<noteq> Some 0"
  shows "fmlookup (copy_from mw c ws) r \<noteq> Some 0"
  using assms by (induction mw c ws rule: copy_from.induct) (auto simp: put_cache_def)

lemma weight_in_absent: "r \<notin> fst ` set ws \<Longrightarrow> weight_in ws r = 0"
  by (induction ws) (auto simp: weight_in_def)

lemma copy_from_sum:
  assumes "distinct (map fst ws)" and "above mw (weight_get c r) = weight_get c r"
  shows "weight_get (copy_from mw c ws) r = above mw (weight_get c r + weight_in ws r)"
  using assms
proof (induction ws arbitrary: c)
  case (Cons w ws)
  obtain r' x where w: "w = (r', x)"
    by (cases w)
  let ?c = "put_cache mw c r' (weight_get c r' + x)"
  show ?case
  proof (cases "r = r'")
    case True
    then have "r \<notin> fst ` set ws"
      using Cons.prems(1) by (simp add: w)
    then have "weight_get (copy_from mw ?c ws) r = weight_get ?c r" "weight_in ws r = 0"
      by (simp_all add: weight_get_def copy_from_other weight_in_absent)
    with True show ?thesis
      by (simp add: w weight_in_def weight_get_put_cache)
  next
    case False
    with Cons.IH [of ?c] Cons.prems show ?thesis
      by (simp add: w weight_in_def weight_get_put_cache)
  qed
qed (simp add: weight_in_def)

lemma weight_in_update:
  assumes "distinct (map fst ws)"
  shows "weight_in (AList.update r x ws) r' = (if r' = r then x else weight_in ws r')"
  using assms
proof (induction ws)
  case (Cons w ws)
  obtain q y where w: "w = (q, y)"
    by (cases w)
  have "weight_in ws q = 0"
    using Cons.prems w by (intro weight_in_absent) simp
  with Cons show ?case
    by (auto simp: w weight_in_def)
qed (simp add: weight_in_def)

lemma weight_in_map_of:
  assumes "distinct (map fst ws)"
  shows "weight_in ws r = unwrap_or (map_of ws r) 0"
  using assms
proof (induction ws)
  case (Cons w ws)
  obtain q y where w: "w = (q, y)"
    by (cases w)
  have "weight_in ws q = 0"
    using Cons.prems w by (intro weight_in_absent) simp
  with Cons show ?case
    by (auto simp: w weight_in_def)
qed (simp add: weight_in_def)

lemma scan_accounts_weights:
  assumes "scan_accounts es = (m, n, ws)"
  shows "weight_in ws r = (\<Sum>(_, i)\<leftarrow>es. if r = ai_representative i then ai_balance i else 0) \<and> distinct (map fst ws)"
proof -
  let ?f = "\<lambda>(_ :: account, i) (blocks :: u64, accounts :: u64, ws).
         (blocks + ai_block_count i, accounts + 1, add_rep_weight i ws)"
  have "distinct (map fst ws) \<Longrightarrow> weight_in (snd (snd (fold ?f es (m, n, ws)))) r
    = weight_in ws r + (\<Sum>(_, i)\<leftarrow>es. if r = ai_representative i then ai_balance i else 0)
    \<and> distinct (map fst (snd (snd (fold ?f es (m, n, ws)))))" for m n ws
  proof (induction es arbitrary: m n ws)
    case (Cons e es)
    obtain a i where e: "e = (a, i)"
      by (cases e)
    have "distinct (map fst (add_rep_weight i ws))"
      using Cons.prems by (simp add: add_rep_weight_def distinct_update)
    from Cons.IH [OF this, of "m + ai_block_count i" "n + 1"] show ?case
      using Cons.prems by (auto simp: e add_rep_weight_def weight_in_update weight_in_map_of add.assoc)
  qed simp
  from this [of "[]" 0 0] assms show ?thesis
    by (simp add: scan_accounts_def weight_in_def)
qed

lemma above_above [simp]: "above mw (above mw x) = above mw x"
  by (simp add: above_def)

lemma load_account_shard_weights:
  assumes "above (rw_min_weight (l_weights l)) (weight_get (rw_cache (l_weights l)) r) = weight_get (rw_cache (l_weights l)) r"
  shows "weight_get (rw_cache (l_weights (load_account_shard es l))) r
      = above (rw_min_weight (l_weights l)) (weight_get (rw_cache (l_weights l)) r
          + (\<Sum>(_, i)\<leftarrow>es. if r = ai_representative i then ai_balance i else 0))"
    "rw_min_weight (l_weights (load_account_shard es l)) = rw_min_weight (l_weights l)"
    "rw_store (l_weights (load_account_shard es l)) = rw_store (l_weights l)"
  using assms scan_accounts_weights [of es]
  by (auto simp: load_account_shard_def copy_from_sum split: prod.splits)

lemma load_account_shard_nonzero:
  assumes "\<forall>r. fmlookup (rw_cache (l_weights l)) r \<noteq> Some 0"
  shows "\<forall>r. fmlookup (rw_cache (l_weights (load_account_shard es l))) r \<noteq> Some 0"
  using copy_from_nonzero [OF assms] by (simp add: load_account_shard_def split: prod.splits)

lemma fold_load_weights:
  assumes "above (rw_min_weight (l_weights l)) (weight_get (rw_cache (l_weights l)) r) = weight_get (rw_cache (l_weights l)) r"
    and "\<forall>r. fmlookup (rw_cache (l_weights l)) r \<noteq> Some 0"
  shows "weight_get (rw_cache (l_weights (fold (\<lambda>i. load_account_shard (f i)) order l))) r
      = kept_weights (rw_min_weight (l_weights l))
          (map (\<lambda>i. \<Sum>(_, j)\<leftarrow>f i. if r = ai_representative j then ai_balance j else 0) order)
          (weight_get (rw_cache (l_weights l)) r)
    \<and> (\<forall>r. fmlookup (rw_cache (l_weights (fold (\<lambda>i. load_account_shard (f i)) order l))) r \<noteq> Some 0)
    \<and> rw_min_weight (l_weights (fold (\<lambda>i. load_account_shard (f i)) order l)) = rw_min_weight (l_weights l)
    \<and> rw_store (l_weights (fold (\<lambda>i. load_account_shard (f i)) order l)) = rw_store (l_weights l)"
  using assms
proof (induction order arbitrary: l)
  case (Cons i order)
  note s = load_account_shard_weights [OF Cons.prems(1), of "f i"]
  from Cons.IH [OF _ load_account_shard_nonzero [OF Cons.prems(2)]] s show ?case
    by (simp add: kept_weights_def)
qed (simp add: kept_weights_def)

text \<open>Parts that each reach the minimum add up; parts that are all below it are all lost.\<close>

lemma unat_sum_list_le: "unat (sum_list ps) \<le> sum_list (map unat ps)"
  for ps :: "'a::len word list"
proof (induction ps)
  case (Cons p ps)
  have "unat (p + sum_list ps) \<le> unat p + unat (sum_list ps)"
    by (simp add: unat_word_ariths(1))
  with Cons show ?case
    by simp
qed simp

lemma kept_weights_sum:
  assumes "\<forall>p \<in> set ps. p = 0 \<or> mw \<le> p" and "x = 0 \<or> mw \<le> x"
    and "unat x + sum_list (map unat ps) < 2 ^ 128"
  shows "kept_weights mw ps x = x + sum_list ps"
  using assms
proof (induction ps arbitrary: x)
  case (Cons p ps)
  have u: "unat (x + p) = unat x + unat p"
    using Cons.prems(3) by (subst unat_add_lem [THEN iffD1]) simp_all
  then have "x \<le> x + p" "p \<le> x + p"
    by (simp_all add: word_le_nat_alt)
  moreover have "p = 0 \<or> mw \<le> p"
    using Cons.prems(1) by simp
  ultimately have ge: "x + p = 0 \<or> mw \<le> x + p"
    using Cons.prems(2) by (metis add_0 order.trans)
  then have "above mw (x + p) = x + p"
    by (auto simp: above_def)
  with Cons.IH [of "x + p"] ge u Cons.prems(1,3) show ?case
    by (simp add: kept_weights_def add.assoc)
qed (simp add: kept_weights_def)

lemma kept_weights_above: "above mw x = x \<Longrightarrow> above mw (kept_weights mw ps x) = kept_weights mw ps x"
  by (induction ps arbitrary: x) (simp_all add: kept_weights_def)

lemma kept_weights_lost: "\<forall>p \<in> set ps. p < mw \<Longrightarrow> kept_weights mw ps 0 = 0"
  by (induction ps) (simp_all add: kept_weights_def above_def)

lemma table_sum_sorted_list:
  "table_sum f m = (\<Sum>(k, v)\<leftarrow>sorted_list_of_fmap m. f k v)"
proof -
  have "(\<Sum>(k, v)\<leftarrow>sorted_list_of_fmap m. f k v)
    = (\<Sum>k\<leftarrow>sorted_list_of_fset (fmdom m). f k (the (fmlookup m k)))"
    by (simp add: sorted_list_of_fmap_def comp_def)
  also have "\<dots> = (\<Sum>k\<in>fset (fmdom m). f k (the (fmlookup m k)))"
    by (simp add: sorted_list_of_fset.rep_eq sum.distinct_set_conv_list [symmetric])
  finally show ?thesis
    by (simp add: table_sum_def)
qed

lemma cache_of_storeI:
  assumes "\<forall>r. fmlookup st r \<noteq> Some 0" and "\<forall>r. fmlookup cache r \<noteq> Some 0"
    and "\<forall>r. weight_get cache r = above mw (weight_get st r)"
  shows "cache_of_store mw st cache"
proof -
  have "fmlookup cache r = Option.bind (fmlookup st r) (\<lambda>x. if x < mw then None else Some x)" for r
    using assms by (cases "fmlookup cache r"; cases "fmlookup st r")
      (auto simp: weight_get_def above_def dest!: spec [of _ r] split: if_splits)
  with assms(1) show ?thesis
    by (simp add: cache_of_store_def)
qed

text \<open>The parts of a representative add up to the delegated balance, without overflow.\<close>

lemma shard_weights_sum:
  assumes "mset order = mset [0..<threads]" and "0 < threads" and "threads < 2 ^ 256"
  shows "sum_list (map (shard_weight t threads r) order) = delegated t r"
    "sum_list (map unat (map (shard_weight t threads r) order)) \<le> table_sum (\<lambda>_ i. unat (ai_balance i)) t"
proof -
  let ?g = "\<lambda>(_ :: account, i). if r = ai_representative i then ai_balance i else 0"
  let ?f = "\<lambda>i. shard_entries t (traversal_range threads i)"
  show "sum_list (map (shard_weight t threads r) order) = delegated t r"
    using shards_sum [OF assms, of ?g t] by (simp add: shard_weight_def [abs_def] delegated_def table_sum_sorted_list)
  have "unat (shard_weight t threads r i) \<le> (\<Sum>(_, j)\<leftarrow>?f i. unat (ai_balance j))" for i
  proof -
    have "unat (shard_weight t threads r i) \<le> sum_list (map unat (map ?g (?f i)))"
      unfolding shard_weight_def by (rule unat_sum_list_le)
    also have "\<dots> \<le> (\<Sum>(_, j)\<leftarrow>?f i. unat (ai_balance j))"
      unfolding map_map by (rule sum_list_mono) auto
    finally show ?thesis .
  qed
  then have "sum_list (map (\<lambda>i. unat (shard_weight t threads r i)) order)
      \<le> (\<Sum>i\<leftarrow>order. \<Sum>(_, j)\<leftarrow>?f i. unat (ai_balance j))"
    by (intro sum_list_mono)
  then show "sum_list (map unat (map (shard_weight t threads r) order)) \<le> table_sum (\<lambda>_ i. unat (ai_balance i)) t"
    using shards_sum [OF assms, of "\<lambda>(_, i). unat (ai_balance i)" t]
    by (simp add: table_sum_sorted_list comp_def)
qed

lemma shard_weight_le:
  assumes "mset order = mset [0..<threads]" and "0 < threads" and "threads < 2 ^ 256"
    and "table_sum (\<lambda>_ i. unat (ai_balance i)) t < 2 ^ 128" and "i < threads"
  shows "shard_weight t threads r i \<le> delegated t r"
proof -
  let ?ps = "map (shard_weight t threads r) order"
  note s = shard_weights_sum [OF assms(1-3), of t r]
  have "unat (sum_list ps) = sum_list (map unat ps)" if "sum_list (map unat ps) < 2 ^ 128" for ps :: "amount list"
    using that by (induction ps) (simp_all add: unat_word_ariths(1))
  from this [of ?ps] s assms(4) have "unat (delegated t r) = sum_list (map unat ?ps)"
    by simp
  moreover have "set order = set [0..<threads]"
    by (rule mset_eq_setD [OF assms(1)])
  then have "unat (shard_weight t threads r i) \<in> set (map unat ?ps)"
    using assms(5) by simp
  then have "unat (shard_weight t threads r i) \<le> sum_list (map unat ?ps)"
    by (intro member_le_sum_list) simp_all
  ultimately show ?thesis
    by (simp add: word_le_nat_alt)
qed

lemma initialize_loads:
  assumes "mset order = mset [0..<threads]" and "0 < threads" and "threads < 2 ^ 256"
    and "l_account l \<noteq> fmempty" and "gc_reps flags" and "rw_cache (l_weights l) = fmempty"
  obtains l' where "initialize c now flags threads order order' l = Some l'" "l_account l' = l_account l"
    "rw_store (l_weights l') = rw_store (l_weights l)" "rw_min_weight (l_weights l') = rw_min_weight (l_weights l)"
    "\<forall>r. fmlookup (rw_cache (l_weights l')) r \<noteq> Some 0"
    "\<And>r. weight_get (rw_cache (l_weights l')) r
       = kept_weights (rw_min_weight (l_weights l)) (map (shard_weight (l_account l) threads r) order) 0"
proof -
  let ?f = "\<lambda>i. shard_entries (l_account l) (traversal_range threads i)"
  let ?l1 = "fold (\<lambda>i. load_account_shard (?f i)) order l"
  have z: "\<forall>r. fmlookup (rw_cache (l_weights l)) r \<noteq> Some 0" "\<And>r. weight_get (rw_cache (l_weights l)) r = 0"
    by (simp_all add: assms(6) weight_get_def)
  have w: "weight_get (rw_cache (l_weights ?l1)) r
       = kept_weights (rw_min_weight (l_weights l)) (map (shard_weight (l_account l) threads r) order) 0"
    "\<forall>r. fmlookup (rw_cache (l_weights ?l1)) r \<noteq> Some 0"
    "rw_store (l_weights ?l1) = rw_store (l_weights l)" "rw_min_weight (l_weights ?l1) = rw_min_weight (l_weights l)" for r
    using fold_load_weights [OF _ z(1), of r ?f order] by (simp_all add: z(2) shard_weight_def [abs_def])
  obtain l' where "initialize c now flags threads order order' l = Some l'" "l_account l' = l_account l"
    "l_weights l' = l_weights ?l1"
    using assms(4,5) by (auto simp: initialize_def Let_def fold_load_accounts fold_load_conf)
  with w that show ?thesis
    by metis
qed

lemma initialize_weights:
  assumes "mset order = mset [0..<threads]" and "0 < threads" and "threads < 2 ^ 256"
    and "l_account l \<noteq> fmempty" and "gc_reps flags" and "rw_cache (l_weights l) = fmempty"
    and "\<forall>r. fmlookup (rw_store (l_weights l)) r \<noteq> Some 0"
    and "\<forall>r. stored_weight (l_weights l) r = delegated (l_account l) r"
    and "total_supply l < 2 ^ 128" and mw: "mw = rw_min_weight (l_weights l)"
  shows "\<exists>l'. initialize c now flags threads order order' l = Some l'
    \<and> l_account l' = l_account l \<and> rw_store (l_weights l') = rw_store (l_weights l)
    \<and> (\<forall>r. (\<forall>i<threads. shard_weight (l_account l) threads r i = 0 \<or> mw \<le> shard_weight (l_account l) threads r i) \<longrightarrow>
         weight_get (rw_cache (l_weights l')) r = above mw (stored_weight (l_weights l) r))
    \<and> (\<forall>r. (\<forall>i<threads. shard_weight (l_account l) threads r i < mw) \<longrightarrow> weight_get (rw_cache (l_weights l')) r = 0)
    \<and> ((\<forall>r. stored_weight (l_weights l) r < mw
          \<or> (\<forall>i<threads. shard_weight (l_account l) threads r i = 0 \<or> mw \<le> shard_weight (l_account l) threads r i)) \<longrightarrow>
         rep_weights_ok l')"
proof -
  let ?p = "shard_weight (l_account l) threads"
  obtain l' where l': "initialize c now flags threads order order' l = Some l'" "l_account l' = l_account l"
    "rw_store (l_weights l') = rw_store (l_weights l)" "rw_min_weight (l_weights l') = mw"
    "\<forall>r. fmlookup (rw_cache (l_weights l')) r \<noteq> Some 0"
    "\<And>r. weight_get (rw_cache (l_weights l')) r = kept_weights mw (map (?p r) order) 0"
    by (rule initialize_loads [OF assms(1-6), of c now order']) (simp_all add: mw)
  have bound: "table_sum (\<lambda>_ i. unat (ai_balance i)) (l_account l) < 2 ^ 128"
    using assms(9) unfolding total_supply_def by (rule add_lessD1)
  note s = shard_weights_sum [OF assms(1-3), of "l_account l"]
  have idx: "set order = {..<threads}"
    using mset_eq_setD [OF assms(1)] by (simp only: set_upt lessThan_atLeast0)
  have whole: "weight_get (rw_cache (l_weights l')) r = above mw (stored_weight (l_weights l) r)"
    if r: "\<forall>i<threads. ?p r i = 0 \<or> mw \<le> ?p r i" for r
  proof -
    have "kept_weights mw (map (?p r) order) 0 = delegated (l_account l) r"
      using kept_weights_sum [of "map (?p r) order" mw 0] r s [of r] bound by (simp add: idx)
    with kept_weights_above [of mw 0 "map (?p r) order"] show ?thesis
      using l'(6) assms(8) by simp
  qed
  have lost: "weight_get (rw_cache (l_weights l')) r = 0" if "\<forall>i<threads. ?p r i < mw" for r
    using kept_weights_lost [of "map (?p r) order" mw] that l'(6) by (simp add: idx)
  have small: "weight_get (rw_cache (l_weights l')) r = above mw (stored_weight (l_weights l) r)"
    if r: "stored_weight (l_weights l) r < mw" for r
  proof -
    have "\<forall>i<threads. ?p r i < mw"
      using shard_weight_le [OF assms(1-3) bound] r assms(8) by (metis le_less_trans)
    from lost [OF this] r show ?thesis
      by (simp add: above_def)
  qed
  have "rep_weights_ok l'"
    if "\<forall>r. stored_weight (l_weights l) r < mw \<or> (\<forall>i<threads. ?p r i = 0 \<or> mw \<le> ?p r i)"
  proof -
    have "weight_get (rw_cache (l_weights l')) r = above mw (stored_weight (l_weights l') r)" for r
      using that whole [of r] small [of r] l'(3) by metis
    then have "weights_ok (l_weights l')"
      unfolding weights_ok_def using assms(7) l'(3-5) by (intro cache_of_storeI) simp_all
    then show ?thesis
      using assms(8) l'(2,3) by (simp add: rep_weights_ok_def)
  qed
  with l'(1-3) whole lost show ?thesis
    by (intro exI [of _ l'] conjI allI impI) simp_all
qed

section \<open>The ledger with the genesis block\<close>

text \<open>What the genesis data of every network has: an open block that represents itself.\<close>

definition genesis_wf :: "ledger_constants \<Rightarrow> bool" where
  "genesis_wf c \<longleftrightarrow> lc_genesis_account c \<noteq> 0 \<and> genesis_hash c \<noteq> 0
     \<and> (\<exists>t. svb_sideband (lc_genesis_block c) = genesis_sideband (lc_genesis_account c) t)
     \<and> (case svb_block (lc_genesis_block c) of
          LegacyOpen b \<Rightarrow> oh_account (ob_hashables b) = lc_genesis_account c
            \<and> oh_representative (ob_hashables b) = lc_genesis_account c
        | _ \<Rightarrow> False)"

definition genesis_info :: "ledger_constants \<Rightarrow> u64 \<Rightarrow> account_info" where
  "genesis_info c now =
     \<lparr>ai_head = genesis_hash c, ai_representative = lc_genesis_account c, ai_open_block = genesis_hash c,
      ai_balance = - 1, ai_modified = now, ai_block_count = 1, ai_epoch = Epoch0\<rparr>"

text \<open>The state of a new ledger in which the caches agree with the tables.\<close>

definition genesis_ledger :: "ledger_constants \<Rightarrow> u64 \<Rightarrow> amount \<Rightarrow> ledger" where
  "genesis_ledger c now min_weight =
     \<lparr>l_block = fmupd (genesis_hash c) (normalise (lc_genesis_block c)) fmempty,
      l_account = fmupd (lc_genesis_account c) (genesis_info c now) fmempty,
      l_pending = fmempty, l_pruned = fmempty,
      l_conf = fmupd (lc_genesis_account c) \<lparr>ch_height = 1, ch_frontier = genesis_hash c\<rparr> fmempty,
      l_weights = \<lparr>rw_store = fmupd (lc_genesis_account c) (- 1) fmempty,
                   rw_cache = fmupd (lc_genesis_account c) (- 1) fmempty, rw_min_weight = min_weight\<rparr>,
      l_block_count = 1, l_account_count = 1, l_cemented_count = 1, l_pruned_count = 0\<rparr>"

lemma fold_one:
  assumes "j \<in> set order" and "distinct order" and "\<And>i x. i \<in> set order \<Longrightarrow> i \<noteq> j \<Longrightarrow> g i x = x"
  shows "fold g order l = g j l"
proof -
  have rest: "(\<And>i x. i \<in> set xs \<Longrightarrow> g i x = x) \<Longrightarrow> fold g xs l = l" for xs l
    by (induction xs arbitrary: l) auto
  from assms show ?thesis
  proof (induction order arbitrary: l)
    case (Cons i order)
    show ?case
    proof (cases "i = j")
      case True
      have "g i' x = x" if "i' \<in> set order" for i' x
        using Cons.prems that True by auto
      with True rest [of order] show ?thesis
        by simp
    next
      case False
      with Cons show ?thesis
        by auto
    qed
  qed simp
qed

lemma single_shard:
  assumes "0 < threads" and "threads < 2 ^ 256"
  obtains j where "j < threads" "shard_entries (fmupd k v fmempty) (traversal_range threads j) = [(k, v)]"
    "\<And>i. i < threads \<Longrightarrow> i \<noteq> j \<Longrightarrow> shard_entries (fmupd k v fmempty) (traversal_range threads i) = []"
proof -
  have one: "\<exists>j<n. f j = [x] \<and> (\<forall>i<n. i \<noteq> j \<longrightarrow> f i = [])" if "concat (map f [0..<n]) = [x]" for f :: "nat \<Rightarrow> 'c list" and n x
    using that
  proof (induction n)
    case (Suc n)
    show ?case
    proof (cases "f n = []")
      case True
      then obtain j where "j < n" "f j = [x]" "\<forall>i<n. i \<noteq> j \<longrightarrow> f i = []"
        using Suc by auto
      with True show ?thesis
        by (auto simp: less_Suc_eq)
    next
      case False
      then have "f n = [x]" "concat (map f [0..<n]) = []"
        using Suc.prems by (auto simp: append_eq_Cons_conv)
      then show ?thesis
        by (auto simp: less_Suc_eq)
    qed
  qed simp
  have "sorted_list_of_fmap (fmupd k v fmempty) = [(k, v)]"
    by (simp add: sorted_list_of_fmap_def sorted_list_of_fset.rep_eq)
  from one [OF traversal_complete [OF assms, of "fmupd k v fmempty", unfolded this]] that show ?thesis
    by blast
qed

lemma load_account_shard_Nil [simp]: "load_account_shard [] l = l"
  by (auto simp: load_account_shard_def scan_accounts_def)

lemma load_conf_shard_Nil [simp]: "load_conf_shard [] l = l"
  by (auto simp: load_conf_shard_def)

lemma initialize_genesis:
  assumes "genesis_wf c" and "distinct order" "set order = {..<threads}" and "distinct order'" "set order' = {..<threads}"
    and "0 < threads" and "threads < 2 ^ 256" and "flags = \<lparr>gc_reps = True, gc_cemented_count = True,
      gc_unchecked_count = u, gc_account_count = True, gc_block_count = True\<rparr>"
  shows "initialize c now flags threads order order' (empty_ledger min_weight)
    = Some (genesis_ledger c now min_weight)"
proof -
  let ?a = "lc_genesis_account c" and ?h = "genesis_hash c"
  let ?i = "genesis_info c now" and ?ci = "\<lparr>ch_height = 1, ch_frontier = ?h\<rparr>"
  let ?l = "\<lparr>l_block = fmupd ?h (normalise (lc_genesis_block c)) fmempty, l_account = fmupd ?a ?i fmempty,
      l_pending = fmempty, l_pruned = fmempty, l_conf = fmupd ?a ?ci fmempty,
      l_weights = \<lparr>rw_store = fmupd ?a (- 1) fmempty, rw_cache = fmempty, rw_min_weight = min_weight\<rparr>,
      l_block_count = 0, l_account_count = 0, l_cemented_count = 0, l_pruned_count = 0\<rparr>"
  have prev: "previous (svb_block (lc_genesis_block c)) = 0"
    using assms(1) by (auto simp: genesis_wf_def block_base_defs split: block.splits)
  have add: "add_genesis_block c now (empty_ledger min_weight) = Some ?l"
    using prev by (simp add: add_genesis_block_def empty_ledger_def ledger_block_put_def block_put_def
        update_predecessor_def conf_put_def account_put_def genesis_hash_def genesis_info_def MAX_amount_def Let_def)
  obtain j where j: "j < threads" "shard_entries (fmupd ?a ?i fmempty) (traversal_range threads j) = [(?a, ?i)]"
    "\<And>i. i < threads \<Longrightarrow> i \<noteq> j \<Longrightarrow> shard_entries (fmupd ?a ?i fmempty) (traversal_range threads i) = []"
    using single_shard [OF assms(6,7)] by metis
  obtain k where k: "k < threads" "shard_entries (fmupd ?a ?ci fmempty) (traversal_range threads k) = [(?a, ?ci)]"
    "\<And>i. i < threads \<Longrightarrow> i \<noteq> k \<Longrightarrow> shard_entries (fmupd ?a ?ci fmempty) (traversal_range threads i) = []"
    using single_shard [OF assms(6,7)] by metis
  let ?l1 = "?l\<lparr>l_block_count := 1, l_account_count := 1, l_weights := (l_weights ?l)\<lparr>rw_cache := fmupd ?a (- 1) fmempty\<rparr>\<rparr>"
  have "\<not> (- 1 :: amount) < min_weight"
    by (simp add: not_less)
  then have "load_account_shard [(?a, ?i)] ?l = ?l1"
    by (simp add: load_account_shard_def scan_accounts_def add_rep_weight_def genesis_info_def put_cache_def weight_get_def)
  then have acc: "fold (\<lambda>i. load_account_shard (shard_entries (fmupd ?a ?i fmempty) (traversal_range threads i))) order ?l = ?l1"
    using fold_one [of j order "\<lambda>i. load_account_shard (shard_entries (fmupd ?a ?i fmempty) (traversal_range threads i))" ?l]
      j assms(2,3) by simp
  have "load_conf_shard [(?a, ?ci)] ?l1 = ?l1\<lparr>l_cemented_count := 1\<rparr>"
    by (simp add: load_conf_shard_def)
  then have conf: "fold (\<lambda>i. load_conf_shard (shard_entries (fmupd ?a ?ci fmempty) (traversal_range threads i))) order' ?l1
      = ?l1\<lparr>l_cemented_count := 1\<rparr>"
    using fold_one [of k order' "\<lambda>i. load_conf_shard (shard_entries (fmupd ?a ?ci fmempty) (traversal_range threads i))" ?l1]
      k assms(4,5) by simp
  have e: "l_account (empty_ledger min_weight) = fmempty"
    by (simp add: empty_ledger_def)
  show ?thesis
    unfolding initialize_def e assms(8) using add acc conf by (simp add: genesis_ledger_def Let_def fcard.rep_eq)
qed

lemma genesis_block_facts:
  assumes "genesis_wf c"
  defines "g \<equiv> normalise (lc_genesis_block c)"
  shows "hash (svb_block g) = genesis_hash c" "saved_account g = lc_genesis_account c"
    "saved_balance g = - 1" "saved_height g = 1" "saved_epoch g = Epoch0" "sd_successor (svb_sideband g) = 0"
    "previous (svb_block g) = 0" "is_open (svb_block g)" "\<not> saved_is_send g" "normalised g"
    "representative_field (svb_block g) = Some (lc_genesis_account c)"
    "case svb_block g of LegacyOpen _ \<Rightarrow> True | _ \<Rightarrow> False" "\<not> is_recv c g"
  using assms
  by (auto simp: genesis_wf_def g_def normalise_def fill_sideband_def genesis_sideband_def block_details_new_def
      genesis_hash_def saved_account_def saved_balance_def saved_is_send_def normalised_def is_recv_def
      block_base_defs split: block.splits)

lemma genesis_ledger_fields [simp]:
  "fmlookup (l_block (genesis_ledger c now mw)) h
     = (if h = genesis_hash c then Some (normalise (lc_genesis_block c)) else None)"
  "fmlookup (l_account (genesis_ledger c now mw)) a
     = (if a = lc_genesis_account c then Some (genesis_info c now) else None)"
  "l_pending (genesis_ledger c now mw) = fmempty" "l_pruned (genesis_ledger c now mw) = fmempty"
  "fmlookup (l_conf (genesis_ledger c now mw)) a
     = (if a = lc_genesis_account c then Some \<lparr>ch_height = 1, ch_frontier = genesis_hash c\<rparr> else None)"
  by (simp_all add: genesis_ledger_def)

lemma genesis_supply: "total_supply (genesis_ledger c now mw) = 2 ^ 128 - 1"
proof -
  have "unat (- 1 :: amount) = 2 ^ 128 - 1"
    by (simp add: unsigned_minus_1_eq_mask mask_eq_exp_minus_1)
  then show ?thesis
    by (simp add: total_supply_def genesis_ledger_def table_sum_insert genesis_info_def)
qed

lemma genesis_weights:
  "rep_weights_ok (genesis_ledger c now mw)"
proof -
  have "\<not> (- 1 :: amount) < mw"
    by (simp add: not_less)
  then show ?thesis
    by (auto simp: rep_weights_ok_def weights_ok_def cache_of_store_def genesis_ledger_def weight_get_def
        delegated_def table_sum_insert genesis_info_def)
qed

lemma genesis_chain_inv:
  assumes "genesis_wf c"
  shows "chain_inv c (genesis_ledger c now mw)"
proof -
  let ?l = "genesis_ledger c now mw"
  note g = genesis_block_facts [OF assms]
  have nz: "lc_genesis_account c \<noteq> 0" "genesis_hash c \<noteq> 0"
    using assms by (simp_all add: genesis_wf_def)
  have "ledger_inv ?l"
    using genesis_weights [of c now mw] genesis_supply [of c now mw] g nz
    by (auto simp: ledger_inv_def blocks_ok_def accounts_ok_def pending_ok_def head_of_def genesis_info_def)
  moreover have "links_ok (l_block ?l)" "ends_ok ?l" "heights_ok (l_block ?l)" "flows_ok c ?l"
    "kinds_ok c (l_block ?l)" "unique_recv c (l_block ?l)" "pending_sends c ?l"
    using g by (auto simp: links_ok_def ends_ok_def heights_ok_def flows_ok_def kinds_ok_def unique_recv_def
        pending_sends_def genesis_info_def)
  moreover have "ranked c (l_block ?l) (\<lambda>_. 0)"
    using g by (auto simp: ranked_def depends_on_def)
  then have "\<exists>rank. ranked c (l_block ?l) rank"
    by (rule exI [of _ "\<lambda>_. 0"])
  moreover have "reps_ok ?l"
    using g(11) by (auto simp: reps_ok_def genesis_info_def intro: rep_here)
  moreover have "opens_ok ?l"
    using g by (auto simp: opens_ok_def genesis_info_def)
  ultimately show ?thesis
    using g(9) by (simp add: chain_inv_def)
qed

lemma genesis_ledger_ok:
  assumes "genesis_wf c"
  shows "ledger_ok c (genesis_ledger c now mw)"
proof -
  let ?l = "genesis_ledger c now mw"
  note g = genesis_block_facts [OF assms]
  have "genesis_stored c ?l"
    using g by (simp add: genesis_stored_def)
  moreover have "genesis_confirmed c ?l"
    using g by (simp add: genesis_confirmed_def confirmed_iff)
  moreover have "conf_inv c ?l"
    using g by (auto simp: conf_inv_def depends_on_def)
  ultimately show ?thesis
    using genesis_chain_inv [OF assms] by (simp add: ledger_ok_def)
qed

end
