(* ===== verification/Cementing_Liveness.thy ===== *)
theory Cementing_Liveness
  imports Cementing_Safety
begin

text \<open>
  With enough room on the stack the walk confirms its target. The stack consists of frames: a
  block that waits for its dependencies, and above it those that were unconfirmed when it was
  expanded. No block is expanded twice, which bounds the stack by twice the number of blocks.
\<close>

inductive stk ::
  "(block_hash \<Rightarrow> block_hash set) \<Rightarrow> (block_hash \<Rightarrow> nat) \<Rightarrow> block_hash set \<Rightarrow> block_hash \<Rightarrow> ledger
    \<Rightarrow> block_hash list \<Rightarrow> block_hash list \<Rightarrow> bool" for D rank R target l where
  stk_base: "stk D rank R target l [] [target]"
| stk_frame: "stk D rank R target l ps (h # st) \<Longrightarrow> h \<in> R \<Longrightarrow> set ds \<subseteq> D h \<Longrightarrow> length ds \<le> 2 \<Longrightarrow>
    \<forall>d\<in>D h. confirmed_block_exists l d \<or> d \<in> set ds \<Longrightarrow> \<forall>p\<in>set ps. rank h < rank p \<Longrightarrow>
    stk D rank R target l (h # ps) (ds @ h # st)"

lemma stk_length: "stk D rank R target l ps st \<Longrightarrow> length st \<le> 1 + 2 * length ps"
  by (induction rule: stk.induct) auto

lemma stk_last: "stk D rank R target l ps st \<Longrightarrow> st \<noteq> [] \<and> last st = target"
  by (induction rule: stk.induct) auto

lemma stk_parents: "stk D rank R target l ps st \<Longrightarrow> set ps \<subseteq> R \<and> distinct ps"
  by (induction rule: stk.induct) auto

lemma stk_parents_bound:
  assumes "stk D rank R target l ps st" and "finite R"
  shows "length ps \<le> card R"
  using stk_parents [OF assms(1)] assms(2) by (metis card_mono distinct_card)

lemma stk_mono: "stk D rank R target l ps st \<Longrightarrow> advances l l' \<Longrightarrow> stk D rank R target l' ps st"
proof (induction rule: stk.induct)
  case (stk_frame ps h st ds)
  then show ?case
    by (intro stk.stk_frame) (auto simp: advances_def)
qed (rule stk_base)

lemma stk_tail:
  assumes "stk D rank R target l ps st" and "st = h # rest" and "confirmed_block_exists l h"
  shows "rest = [] \<or> (\<exists>ps. stk D rank R target l ps rest)"
  using assms
proof (induction arbitrary: rest rule: stk.induct)
  case (stk_frame ps h' st ds)
  show ?case
  proof (cases ds)
    case Nil
    with stk_frame show ?thesis
      by auto
  next
    case (Cons d ds')
    with stk_frame have "d = h" "rest = ds' @ h' # st"
      by auto
    moreover have "stk D rank R target l (h' # ps) (ds' @ h' # st)"
      using stk_frame Cons \<open>d = h\<close> by (intro stk.stk_frame) auto
    ultimately show ?thesis
      by blast
  qed
qed simp

text \<open>The block on top is expanded for the first time if one of its dependencies is unconfirmed.\<close>

lemma stk_top_rank:
  assumes "stk D rank R target l ps (h # st)" and "closed_deps D rank R"
    and "d \<in> D h" and "\<not> confirmed_block_exists l d"
  shows "\<forall>p\<in>set ps. rank h < rank p"
  using assms(1)
proof (cases rule: stk.cases)
  case (stk_frame ps' h' st' ds)
  show ?thesis
  proof (cases ds)
    case Nil
    with stk_frame assms(3,4) show ?thesis
      by auto
  next
    case (Cons d' ds')
    with stk_frame have "h \<in> D h'"
      by auto
    then have "rank h < rank h'"
      using assms(2) stk_frame by (auto simp: closed_deps_def)
    with stk_frame show ?thesis
      by auto
  qed
qed auto

lemma fold_push_untruncated:
  assumes "length stack + length (unconfirmed_dependents l ds) \<le> m"
  shows "fold (push_dependent l m) ds stack = rev (unconfirmed_dependents l ds) @ stack"
  using assms
proof (induction ds arbitrary: stack)
  case (Cons d ds)
  show ?case
  proof (cases "d \<noteq> 0 \<and> \<not> confirmed_exists_or_pruned l d")
    case True
    then have "push_dependent l m d stack = d # stack"
      using Cons.prems by (simp add: push_dependent_def unconfirmed_dependents_def)
    with True Cons show ?thesis
      by (simp add: unconfirmed_dependents_def)
  next
    case False
    then have "push_dependent l m d stack = stack"
      by (auto simp: push_dependent_def)
    with False Cons show ?thesis
      by (auto simp: unconfirmed_dependents_def)
  qed
qed (simp add: unconfirmed_dependents_def)

section \<open>The target is confirmed at the end\<close>

definition live_inv ::
  "ledger_constants \<Rightarrow> (block_hash \<Rightarrow> block_hash set) \<Rightarrow> (block_hash \<Rightarrow> nat) \<Rightarrow> block_hash set
    \<Rightarrow> block_hash \<Rightarrow> cementer \<Rightarrow> bool" where
  "live_inv c D rank R target s \<longleftrightarrow> walk_inv c D R s
     \<and> (if cm_stack s = [] then confirmed_block_exists (cm_ledger s) target
        else \<exists>ps. stk D rank R target (cm_ledger s) ps (cm_stack s))
     \<and> length (cm_result s) + card (unconfirmed R (cm_ledger s)) \<le> card R"

lemma live_inv_tail:
  assumes "stk D rank R target l ps (h # rest)" and "confirmed_block_exists l' h" and "advances l l'"
  shows "if rest = [] then confirmed_block_exists l' target else \<exists>ps. stk D rank R target l' ps rest"
  using stk_tail [OF stk_mono [OF assms(1,3)] refl assms(2)] stk_last [OF assms(1)] assms(2)
  by auto

lemma unconfirmed_advances:
  assumes "advances l l'" and "finite R"
  shows "card (unconfirmed R l') \<le> card (unconfirmed R l)"
  using assms by (intro card_mono) (auto simp: unconfirmed_def advances_def)

lemma live_round:
  assumes "live_inv c D rank R target s" and "closed_deps D rank R" and "cm_stack s \<noteq> []"
    and "2 * card R < m"
  obtains s' where "cement_round c m s = Some s'" "live_inv c D rank R target s'"
    "(walk_measure R rank (cm_ledger s') (cm_stack s'), walk_measure R rank (cm_ledger s) (cm_stack s)) \<in> walk_order"
proof -
  from assms(1) have w: "walk_inv c D R s" and cnt: "length (cm_result s) + card (unconfirmed R (cm_ledger s)) \<le> card R"
    by (simp_all add: live_inv_def)
  from assms(1,3) obtain ps h rest where st: "cm_stack s = h # rest" and
    stk: "stk D rank R target (cm_ledger s) ps (h # rest)"
    by (cases "cm_stack s") (auto simp: live_inv_def)
  have fin: "finite R" and hR: "h \<in> R"
    using assms(2) w st by (simp_all add: closed_deps_def walk_inv_def)
  have ok: "ledger_ok c (cm_ledger s)"
    using w by (simp add: walk_inv_def)
  note eq5 = ledger_okD(5) [OF ok]
  obtain s' where s': "cement_round c m s = Some s'" "walk_inv c D R s'"
    "(walk_measure R rank (cm_ledger s') (cm_stack s'), walk_measure R rank (cm_ledger s) (cm_stack s)) \<in> walk_order"
    "advances (cm_ledger s) (cm_ledger s')"
    by (rule round_progress [OF w assms(2,3), of m])
  from w assms(2) st have "live_inv c D rank R target s'"
  proof (cases rule: cement_round_cases [where m = m])
    case (push stack d ds)
    let ?u = "unconfirmed_dependents (cm_ledger s) ds"
    note top = stk_top_rank [OF stk assms(2) push(2,3)]
    have "length ?u \<le> 2"
      using push(8) unfolding unconfirmed_dependents_def by (rule order_trans [OF length_filter_le])
    moreover have "length (h # rest) \<le> 1 + 2 * length ps"
      by (rule stk_length [OF stk])
    moreover have "length (h # ps) \<le> card R"
    proof -
      have "set (h # ps) \<subseteq> R" "distinct (h # ps)"
        using stk_parents [OF stk] hR top by auto
      then show ?thesis
        using fin by (metis card_mono distinct_card)
    qed
    ultimately have "length (h # rest) + length ?u \<le> m"
      using assms(4) by simp
    from fold_push_untruncated [OF this] have eq: "d # stack = rev ?u @ h # rest"
      using push(6) by simp
    have "\<forall>d\<in>D h. confirmed_block_exists (cm_ledger s) d \<or> d \<in> set (rev ?u)"
    proof
      fix d'
      assume d': "d' \<in> D h"
      have "d' \<noteq> 0"
      proof -
        from w hR obtain b where "fmlookup (l_block (cm_ledger s)) h = Some b" "depends_on c b = D h"
          by (auto simp: walk_inv_def keeps_def)
        from stored_dependency [OF ledger_okD(1) [OF ok] this(1), of d'] this(2) d' show ?thesis
          using chain_invD(18) [OF ledger_okD(1) [OF ok]] by auto
      qed
      then show "confirmed_block_exists (cm_ledger s) d' \<or> d' \<in> set (rev ?u)"
        using d' push(7) by (auto simp: unconfirmed_dependents_def eq5)
    qed
    moreover have "set (rev ?u) \<subseteq> D h"
      using push(7) by (auto simp: unconfirmed_dependents_def)
    ultimately have "stk D rank R target (cm_ledger s) (h # ps) (rev ?u @ h # rest)"
      using stk hR top \<open>length ?u \<le> 2\<close> by (intro stk_frame) auto
    then show ?thesis
      using s'(1,2) push(1) eq cnt by (auto simp: live_inv_def)
  next
    case (cement b)
    let ?l = "cement_block b (cm_ledger s)"
    note conf = cement_block_confirms [OF ok cement(1-3)]
    have s'': "s' = \<lparr>cm_ledger = ?l, cm_stack = rest, cm_result = cm_result s @ [b]\<rparr>"
      using s'(1) cement(4) by simp
    have "unconfirmed R ?l = unconfirmed R (cm_ledger s) - {h}"
      by (auto simp: unconfirmed_def conf)
    moreover have "h \<in> unconfirmed R (cm_ledger s)" "finite (unconfirmed R (cm_ledger s))"
      using hR cement(2) fin by (simp_all add: unconfirmed_def)
    ultimately have "Suc (card (unconfirmed R ?l)) = card (unconfirmed R (cm_ledger s))"
      by (metis card_Suc_Diff1)
    moreover have "confirmed_block_exists ?l h"
      by (simp add: conf)
    ultimately show ?thesis
      using s'(2,4) s'' cnt live_inv_tail [OF stk, of ?l] by (simp add: live_inv_def)
  next
    case pop
    then have "s' = s\<lparr>cm_stack := rest\<rparr>"
      using s'(1) by simp
    then show ?thesis
      using s'(2) cnt live_inv_tail [OF stk pop(2)] by (simp add: live_inv_def)
  qed
  with s' that show ?thesis
    by blast
qed

text \<open>Other writers do not remove the target.\<close>

definition target_kept :: "(nat \<Rightarrow> ledger \<Rightarrow> ledger option) \<Rightarrow> block_hash \<Rightarrow> bool" where
  "target_kept refresh target \<longleftrightarrow> (\<forall>n l l'. refresh n l = Some l' \<longrightarrow> block_exists l' target)"

lemma live_inv_refresh:
  assumes "live_inv c D rank R target s" and "advances (cm_ledger s) l" and "walk_inv c D R (s\<lparr>cm_ledger := l\<rparr>)"
    and "finite R"
  shows "live_inv c D rank R target (s\<lparr>cm_ledger := l\<rparr>)"
  using assms(1,3) unconfirmed_advances [OF assms(2,4)] assms(2)
  by (auto simp: live_inv_def advances_def split: if_splits intro: stk_mono [OF _ assms(2)])

lemma cement_loop_live:
  assumes "env_ok c refresh" and "target_kept refresh target" and "closed_deps D rank R"
    and R: "\<And>x. x \<in> R \<Longrightarrow> depends_star c t target x" "\<And>x. x \<in> R \<Longrightarrow> stored_deps c t x = D x" "target \<in> R"
    and "live_inv c D rank R target s" and "2 * card R < m"
  shows "\<exists>s'. cement_loop c refresh target m n s = Some (Some s')
    \<and> confirmed_block_exists (cm_ledger s') target"
  using assms(7)
proof (induction "walk_measure R rank (cm_ledger s) (cm_stack s)" arbitrary: s n rule: wf_induct_rule [OF walk_order_wf])
  case (1 s n)
  show ?case
  proof (cases "cm_stack s = []")
    case True
    then show ?thesis
      using 1(2) by (subst cement_loop.simps) (simp add: live_inv_def)
  next
    case False
    obtain s1 where s1: "cement_round c m s = Some s1" "live_inv c D rank R target s1"
      "(walk_measure R rank (cm_ledger s1) (cm_stack s1), walk_measure R rank (cm_ledger s) (cm_stack s)) \<in> walk_order"
      by (rule live_round [OF 1(2) assms(3) False assms(8)])
    have fin: "finite R"
      using assms(3) by (simp add: closed_deps_def)
    from s1(2) have ok1: "ledger_ok c (cm_ledger s1)" "set (cm_stack s1) \<subseteq> R" "keeps c D R (cm_ledger s1)"
      "\<not> m \<le> length (cm_result s1)"
      using assms(8) by (auto simp: live_inv_def walk_inv_def)
    show ?thesis
    proof (cases "refresh n (cm_ledger s1)")
      case None
      from 1(1) [OF s1(3,2), of "Suc n"] show ?thesis
        using False s1(1) ok1(4) None by (subst cement_loop.simps) simp
    next
      case (Some l)
      let ?s2 = "s1\<lparr>cm_ledger := l\<rparr>"
      have env: "ledger_ok c l" "advances (cm_ledger s1) l"
        using assms(1) ok1(1) Some unfolding env_ok_def advances_def by blast+
      have tgt: "block_exists l target"
        using assms(2) Some unfolding target_kept_def by blast
      from keeps_refresh [OF assms(1) ok1(1) Some tgt assms(3) ok1(3) R]
      have "walk_inv c D R ?s2"
        using env(1) ok1(2) by (simp add: walk_inv_def)
      from live_inv_refresh [OF s1(2) env(2) this fin] have live: "live_inv c D rank R target ?s2" .
      from walk_measure_advances [OF env(2) ok1(2) fin, of rank] s1(3)
      have "(walk_measure R rank (cm_ledger ?s2) (cm_stack ?s2), walk_measure R rank (cm_ledger s) (cm_stack s)) \<in> walk_order"
        by (auto dest: transD [OF walk_order_trans])
      from 1(1) [OF this live, of "Suc n"] show ?thesis
        using False s1(1) ok1(4) Some tgt by (subst cement_loop.simps) simp
    qed
  qed
qed

lemma confirm_max_confirms:
  assumes "ledger_ok c l" and "block_exists l target" and "env_ok c refresh" and "target_kept refresh target"
    and "2 * card (fmdom' (l_block l)) < m"
  shows "\<exists>s. confirm_max c refresh l target m = Some (Some s) \<and> confirmed_block_exists (cm_ledger s) target"
proof (rule depends_star_closed [OF ledger_okD(1) [OF assms(1)] assms(2)])
  fix rank
  let ?R = "{x. depends_star c (l_block l) target x}" and ?D = "stored_deps c (l_block l)"
  let ?s = "\<lparr>cm_ledger = l, cm_stack = [target], cm_result = []\<rparr>"
  assume R: "closed_deps ?D rank ?R" "keeps c ?D ?R l"
  have "?R \<subseteq> fmdom' (l_block l)"
    using R(2) by (auto simp: keeps_def intro: fmdom'I)
  then have card: "2 * card ?R < m"
    using card_mono [of "fmdom' (l_block l)" ?R] assms(5) by simp
  have tgt: "target \<in> ?R"
    by (simp add: depends_refl)
  have "card (unconfirmed ?R l) \<le> card ?R"
    using R(1) by (intro card_mono) (auto simp: closed_deps_def unconfirmed_def)
  then have "live_inv c ?D rank ?R target ?s"
    using assms(1) R(2) tgt by (auto simp: live_inv_def walk_inv_def intro: stk_base)
  from cement_loop_live [OF assms(3,4) R(1) _ _ tgt this card, of "l_block l" 0] show ?thesis
    by (simp add: confirm_max_def)
qed

end
