(* ===== verification/Ledger_Steps.thy ===== *)
theory Ledger_Steps
  imports Ledger_Init Cementing_Liveness
begin

text \<open>
  The ledger as a state machine: it starts with the genesis block and processes, rolls back and
  cements blocks in any order. Every reachable ledger is well-formed and holds exactly the
  genesis amount, and what is confirmed stays confirmed.
\<close>

section \<open>The confirmation invariant under processing and rollback\<close>

lemma confirmed_transfer:
  assumes conf: "l_conf l' = l_conf l"
    and keep: "\<And>x y. fmlookup (l_block l) x = Some y \<Longrightarrow> confirmed_block_exists l x \<Longrightarrow>
      \<exists>s. fmlookup (l_block l') x = Some (set_successor s y)"
    and old: "\<And>x y'. fmlookup (l_block l') x = Some y' \<Longrightarrow> confirmed_block_exists l' x \<Longrightarrow>
      \<exists>s y. fmlookup (l_block l) x = Some y \<and> y' = set_successor s y"
  shows "confirmed_block_exists l' x = confirmed_block_exists l x"
proof
  assume c: "confirmed_block_exists l' x"
  then obtain y' where y': "fmlookup (l_block l') x = Some y'"
    by (auto simp: confirmed_iff)
  from old [OF this c] obtain s y where "fmlookup (l_block l) x = Some y" "y' = set_successor s y"
    by blast
  then show "confirmed_block_exists l x"
    using confirmed_set_successor [OF conf] c y' by simp
next
  assume c: "confirmed_block_exists l x"
  then obtain y where y: "fmlookup (l_block l) x = Some y"
    by (auto simp: confirmed_iff)
  from keep [OF this c] obtain s where "fmlookup (l_block l') x = Some (set_successor s y)"
    by blast
  then show "confirmed_block_exists l' x"
    using confirmed_set_successor [OF conf y] c by simp
qed

lemma ledger_ok_transfer:
  assumes "ledger_ok c l" and "chain_inv c l'" and conf: "l_conf l' = l_conf l"
    and keep: "\<And>x y. fmlookup (l_block l) x = Some y \<Longrightarrow> confirmed_block_exists l x \<Longrightarrow>
      \<exists>s. fmlookup (l_block l') x = Some (set_successor s y)"
    and old: "\<And>x y'. fmlookup (l_block l') x = Some y' \<Longrightarrow> confirmed_block_exists l' x \<Longrightarrow>
      \<exists>s y. fmlookup (l_block l) x = Some y \<and> y' = set_successor s y"
  shows "ledger_ok c l'"
proof -
  note inv = ledger_okD [OF assms(1)]
  note same = confirmed_transfer [OF conf keep old]
  have entry: "\<exists>b. fmlookup (l_block l') (ch_frontier ci) = Some b \<and> saved_account b = a \<and> saved_height b = ch_height ci"
    if "fmlookup (l_conf l') a = Some ci" for a ci
  proof -
    from that conf_invD(1) [OF inv(4), of a ci] obtain b where
      b: "fmlookup (l_block l) (ch_frontier ci) = Some b" "saved_account b = a" "saved_height b = ch_height ci"
      by (auto simp: conf)
    moreover have "confirmed_block_exists l (ch_frontier ci)"
      using b that by (auto simp: confirmed_iff conf)
    ultimately show ?thesis
      using keep [OF b(1)] by auto
  qed
  have deps: "confirmed_block_exists l' d"
    if "fmlookup (l_block l') x = Some y'" "confirmed_block_exists l' x" "d \<in> depends_on c y'" for x y' d
  proof -
    from old [OF that(1,2)] obtain s y where "fmlookup (l_block l) x = Some y" "y' = set_successor s y"
      by blast
    then show ?thesis
      using conf_invD(2) [OF inv(4)] that same by simp
  qed
  have "conf_inv c l'"
    unfolding conf_inv_def using entry deps by blast
  moreover have gc: "genesis_confirmed c l'"
    using inv(3) same by (simp add: genesis_confirmed_def)
  moreover have "genesis_stored c l'"
  proof -
    from inv(2) obtain g where g: "fmlookup (l_block l) (genesis_hash c) = Some g"
      "saved_account g = lc_genesis_account c" "previous (svb_block g) = 0"
      "case svb_block g of LegacyOpen _ \<Rightarrow> True | _ \<Rightarrow> False"
      by (auto simp: genesis_stored_def)
    from keep [OF g(1)] inv(3) g show ?thesis
      by (auto simp: genesis_stored_def genesis_confirmed_def)
  qed
  ultimately show ?thesis
    using assms(2) by (simp add: ledger_ok_def)
qed

lemma new_block_unconfirmed:
  assumes "good_step verify c now l b" and "ledger_ok c l"
  shows "\<not> confirmed_block_exists (ledger_after (create_validator c now l b) w l) (hash b)"
proof
  let ?v = "create_validator c now l b"
  note inv = ledger_okD [OF assms(2)]
  note acc = good_stepD(1) [OF assms(1)]
  assume "confirmed_block_exists (ledger_after ?v w l) (hash b)"
  then obtain ci where ci: "fmlookup (l_conf l) (bv_account ?v) = Some ci"
    "unat (new_block_count ?v) \<le> unat (ch_height ci)"
    by (auto simp: confirmed_iff ledger_after_def blocks_after_lookup [OF acc] new_saved_account new_saved_height [OF acc])
  from conf_invD(1) [OF inv(4) ci(1)] obtain y where "fmlookup (l_block l) (ch_frontier ci) = Some y"
    "saved_account y = bv_account ?v" "saved_height y = ch_height ci"
    by blast
  with chain_invD(5) [OF inv(1)] obtain i where "fmlookup (l_account l) (bv_account ?v) = Some i"
    "unat (ch_height ci) \<le> unat (ai_block_count i)"
    unfolding ends_ok_def by metis
  with new_block_count_Suc [OF assms(1)] ci(2) show False
    by fastforce
qed

lemma process_ledger_ok:
  assumes "good_step verify c now l b" and "ledger_ok c l"
    and "process verify c now l b = Some (Inr (sb, l'))"
  shows "ledger_ok c l' \<and> total_supply l' = total_supply l \<and> advances l l'"
proof -
  let ?v = "create_validator c now l b"
  note inv = ledger_okD [OF assms(2)]
  note acc = good_stepD(1) [OF assms(1)]
  obtain w where w: "process verify c now l b = Some (Inr (new_saved ?v, ledger_after ?v w l))"
    "chain_inv c (ledger_after ?v w l)"
    by (rule process_chain_inv [OF assms(1) inv(1)])
  have l': "l' = ledger_after ?v w l"
    using w(1) assms(3) by simp
  have blk: "l_block l' = blocks_after ?v (l_block l)" "l_conf l' = l_conf l"
    by (simp_all add: l' ledger_after_def)
  have fresh: "\<not> confirmed_block_exists l' (hash b)"
    using new_block_unconfirmed [OF assms(1,2)] by (simp add: l')
  have keep: "\<exists>s. fmlookup (l_block l') x = Some (set_successor s y)" if "fmlookup (l_block l) x = Some y" for x y
    using after_old(2) [OF acc that] by (simp add: blk)
  have old: "\<exists>s y. fmlookup (l_block l) x = Some y \<and> y' = set_successor s y"
    if "fmlookup (l_block l') x = Some y'" "confirmed_block_exists l' x" for x y'
  proof -
    from that(1) have "fmlookup (blocks_after ?v (l_block l)) x = Some y'"
      by (simp add: blk)
    with acc show ?thesis
    proof (cases rule: after_cases)
      case new
      with fresh that(2) show ?thesis
        by simp
    next
      case (old s y)
      then show ?thesis
        by blast
    qed
  qed
  have "ledger_ok c l'"
    using w(2) l' by (intro ledger_ok_transfer [OF assms(2) _ blk(2) keep old]) auto
  moreover have "advances l l'"
    using confirmed_transfer [OF blk(2) keep old] by (simp add: advances_def)
  moreover have "total_supply l' = total_supply l"
    unfolding l' using chain_invD [OF inv(1)] by (intro supply_after [OF acc _ _ _ good_stepD(3) [OF assms(1)]]) auto
  ultimately show ?thesis
    by blast
qed

lemma rolled_ledger_ok:
  assumes "ledger_ok c l" and "rolled c l l' bs"
  shows "ledger_ok c l' \<and> total_supply l' = total_supply l \<and> advances l l'"
proof -
  note r = rolledD [OF assms(2)]
  have keep: "\<exists>s. fmlookup (l_block l') x = Some (set_successor s y)"
    if "fmlookup (l_block l) x = Some y" "confirmed_block_exists l x" for x y
    using r(5,6) [OF that(1)] that(2) by blast
  have old: "\<exists>s y. fmlookup (l_block l) x = Some y \<and> y' = set_successor s y"
    if y': "fmlookup (l_block l') x = Some y'" for x y'
  proof -
    from y' r(4) [of x] obtain y where y: "fmlookup (l_block l) x = Some y"
      by (cases "fmlookup (l_block l) x") auto
    with r(5) [OF y] y' have "x \<notin> set (map (\<lambda>b. hash (svb_block b)) bs)"
      by auto
    from r(6) [OF y this] y y' show ?thesis
      by auto
  qed
  have "ledger_ok c l'"
    by (rule ledger_ok_transfer [OF assms(1) r(1,3) keep old])
  moreover have "advances l l'"
    using confirmed_transfer [OF r(3) keep old] by (simp add: advances_def)
  ultimately show ?thesis
    using r(2) by blast
qed

section \<open>Cementing keeps the other tables\<close>

definition same_funds :: "ledger \<Rightarrow> ledger \<Rightarrow> bool" where
  "same_funds l l' \<longleftrightarrow> l_account l' = l_account l \<and> l_pending l' = l_pending l \<and> l_block l' = l_block l"

lemma cement_round_funds:
  "cement_round c m s = Some s1 \<Longrightarrow> same_funds (cm_ledger s) (cm_ledger s1)"
  by (auto simp: cement_round_def Let_def same_funds_def split: list.splits option.splits if_splits)

lemma cement_loop_funds:
  assumes "cement_loop c (\<lambda>_ _. None) target m n s = Some (Some s')"
  shows "same_funds (cm_ledger s) (cm_ledger s')"
proof -
  let ?P = "\<lambda>(c :: ledger_constants) (refresh :: nat \<Rightarrow> ledger \<Rightarrow> ledger option) (target :: block_hash) (m :: nat)
      (n :: nat) s r. refresh = (\<lambda>_ _. None) \<longrightarrow>
    (\<forall>s'. r = Some s' \<longrightarrow> same_funds (cm_ledger s) (cm_ledger s'))"
  have "?P c (\<lambda>_ _. None) target m n s (Some s')"
  proof (rule cement_loop.raw_induct [where P = ?P, OF _ assms])
    fix loop c refresh target m n s r
    assume IH: "\<And>c refresh target m n s r. loop c refresh target m n s = Some r \<Longrightarrow> ?P c refresh target m n s r"
      and eq: "(if cm_stack s = [] then Some (Some s)
      else case cement_round c m s of
        None \<Rightarrow> Some None
      | Some s' \<Rightarrow>
          (case refresh n (cm_ledger s') of
             None \<Rightarrow>
               if length (cm_result s') \<ge> m then Some (Some s')
               else loop c refresh target m (Suc n) s'
           | Some l \<Rightarrow>
               if \<not> block_exists l target then Some (Some (s'\<lparr>cm_ledger := l\<rparr>))
               else if length (cm_result s') \<ge> m then Some (Some (s'\<lparr>cm_ledger := l\<rparr>))
               else loop c refresh target m (Suc n) (s'\<lparr>cm_ledger := l\<rparr>))) = Some r"
    show "?P c refresh target m n s r"
    proof (intro impI allI)
      fix s'
      assume ref: "refresh = (\<lambda>_ _. None)" and r: "r = Some s'"
      show "same_funds (cm_ledger s) (cm_ledger s')"
      proof (cases "cm_stack s = [] \<or> cement_round c m s = None")
        case True
        with eq r show ?thesis
          by (auto simp: same_funds_def split: if_splits)
      next
        case False
        then obtain s1 where s1: "cement_round c m s = Some s1" "cm_stack s \<noteq> []"
          by auto
        note f = cement_round_funds [OF s1(1)]
        show ?thesis
        proof (cases "m \<le> length (cm_result s1)")
          case True
          with eq r ref s1 f show ?thesis
            by simp
        next
          case False
          then have "loop c refresh target m (Suc n) s1 = Some r"
            using eq ref s1 by simp
          from IH [OF this] ref r f show ?thesis
            by (simp add: same_funds_def)
        qed
      qed
    qed
  qed
  then show ?thesis
    by blast
qed

lemma confirm_max_ledger_ok:
  assumes "ledger_ok c l" and "confirm_max c (\<lambda>_ _. None) l h m = Some (Some s)"
  shows "ledger_ok c (cm_ledger s) \<and> total_supply (cm_ledger s) = total_supply l \<and> advances l (cm_ledger s)"
proof (cases "block_exists l h")
  case True
  have "env_ok c (\<lambda>_ _. None)"
    by (simp add: env_ok_def)
  from confirm_max_total [OF assms(1) True this, of m] assms(2)
  have "ledger_ok c (cm_ledger s)" "advances l (cm_ledger s)"
    by auto
  moreover have "same_funds l (cm_ledger s)"
    using cement_loop_funds assms(2) unfolding confirm_max_def by fastforce
  ultimately show ?thesis
    by (simp add: total_supply_def same_funds_def)
next
  case False
  then have "confirm_max c (\<lambda>_ _. None) l h m = Some None"
    unfolding confirm_max_def
    by (subst cement_loop.simps) (simp add: cement_round_def get_block_def block_exists_def)
  with assms(2) show ?thesis
    by simp
qed

section \<open>Reachable ledgers\<close>

inductive ledger_step :: "ed25519_verify \<Rightarrow> ledger_constants \<Rightarrow> ledger \<Rightarrow> ledger \<Rightarrow> bool" for verify c where
  step_process: "good_step verify c now l b \<Longrightarrow> process verify c now l b = Some (Inr (sb, l')) \<Longrightarrow>
    ledger_step verify c l l'"
| step_reject: "process verify c now l b = Some (Inl e) \<Longrightarrow> ledger_step verify c l l"
| step_rollback: "roll_back c now l h = Some (Inr (l', bs)) \<Longrightarrow> ledger_step verify c l l'"
| step_rollback_error: "roll_back c now l h = Some (Inl (e, l', bs)) \<Longrightarrow> ledger_step verify c l l'"
| step_confirm: "confirm_max c (\<lambda>_ _. None) l h m = Some (Some s) \<Longrightarrow> ledger_step verify c l (cm_ledger s)"

inductive reachable :: "ed25519_verify \<Rightarrow> ledger_constants \<Rightarrow> ledger \<Rightarrow> bool" for verify c where
  reach_genesis: "reachable verify c (genesis_ledger c now min_weight)"
| reach_step: "reachable verify c l \<Longrightarrow> ledger_step verify c l l' \<Longrightarrow> reachable verify c l'"

text \<open>
  \<open>ledger_run\<close>: the runs of the code itself. Every accepted block is inserted, whatever it is, and the
  run records it with the time and the ledger it was inserted into. (A rejected block
  leaves the ledger as it is.) The runs whose blocks are all \<open>regular\<close> lead to reachable ledgers.
\<close>

inductive ledger_run :: "ed25519_verify \<Rightarrow> ledger_constants \<Rightarrow> (u64 \<times> ledger \<times> block) list \<Rightarrow> ledger \<Rightarrow> bool"
  for verify c where
  run_genesis: "ledger_run verify c [] (genesis_ledger c now min_weight)"
| run_process: "ledger_run verify c es l \<Longrightarrow> process verify c now l b = Some (Inr (sb, l')) \<Longrightarrow>
    ledger_run verify c (es @ [(now, l, b)]) l'"
| run_rollback: "ledger_run verify c es l \<Longrightarrow> roll_back c now l h = Some (Inr (l', bs)) \<Longrightarrow> ledger_run verify c es l'"
| run_rollback_error: "ledger_run verify c es l \<Longrightarrow> roll_back c now l h = Some (Inl (e, l', bs)) \<Longrightarrow>
    ledger_run verify c es l'"
| run_confirm: "ledger_run verify c es l \<Longrightarrow> confirm_max c (\<lambda>_ _. None) l h m = Some (Some s) \<Longrightarrow>
    ledger_run verify c es (cm_ledger s)"

lemma ledger_run_reachable:
  assumes "ledger_run verify c es l" and "\<forall>(now, l, b) \<in> set es. regular c now l b"
  shows "reachable verify c l"
  using assms
proof induction
  case (run_process es l now b sb l')
  then have "good_step verify c now l b"
    by (simp add: good_step_def process_Inr_accepted [OF run_process(2)])
  with run_process show ?case
    by (simp add: reach_step [OF _ step_process])
qed (blast intro: reachable.intros ledger_step.intros)+

lemma roll_back_ledger_ok:
  assumes "ledger_ok c l" and "roll_back c now l h = Some res"
    and "res = Inr (l', bs) \<or> res = Inl (e, l', bs)"
  shows "ledger_ok c l' \<and> total_supply l' = total_supply l \<and> advances l l'"
proof (cases "block_exists l h")
  case True
  from roll_back_correct [OF ledger_okD(1,3) [OF assms(1)] True, of now] assms(2)
  have "rollback_ok c l h [] res"
    by simp
  with assms(3) have "rolled c l l' bs"
    by (auto simp: rollback_ok_def)
  from rolled_ledger_ok [OF assms(1) this] show ?thesis .
next
  case False
  then have "res = Inl (BlockNotFound, l, [])"
    using assms(2) by (simp add: roll_back_def rb_load_block_def get_block_def block_exists_def)
  with assms(1,3) show ?thesis
    by auto
qed

lemma ledger_step_ok:
  assumes "ledger_step verify c l l'" and "ledger_ok c l"
  shows "ledger_ok c l' \<and> total_supply l' = total_supply l \<and> advances l l'"
  using assms
proof cases
  case (step_process now b sb)
  then show ?thesis
    using process_ledger_ok assms(2) by blast
next
  case (step_rollback now h bs)
  then show ?thesis
    using roll_back_ledger_ok [OF assms(2)] by blast
next
  case (step_rollback_error now h e bs)
  then show ?thesis
    using roll_back_ledger_ok [OF assms(2)] by blast
next
  case (step_confirm h m s)
  then show ?thesis
    using confirm_max_ledger_ok [OF assms(2)] by blast
qed (use assms(2) in simp)

lemma reachable_ok:
  assumes "reachable verify c l" and "genesis_wf c"
  shows "ledger_ok c l \<and> total_supply l = 2 ^ 128 - 1"
  using assms(1)
proof induction
  case (reach_genesis now min_weight)
  show ?case
    using genesis_ledger_ok [OF assms(2)] genesis_supply by blast
next
  case (reach_step l l')
  then show ?case
    using ledger_step_ok by metis
qed

lemma reachable_advances:
  assumes "reachable verify c l" and "genesis_wf c" and "(ledger_step verify c)\<^sup>*\<^sup>* l l'"
  shows "advances l l' \<and> reachable verify c l'"
  using assms(3)
proof induction
  case (step l1 l2)
  then show ?case
    using ledger_step_ok [OF step(2)] reachable_ok [OF _ assms(2)] advances_trans reach_step by metis
qed (use assms(1) in simp)

end
