(* ===== verification/Rollback_Inverse.thy ===== *)
theory Rollback_Inverse
  imports Ledger_Steps
begin

text \<open>
  Rolling back the block that was processed last restores the ledger: all tables, counters and
  weights are as before, only the modification time of the account differs.
\<close>

definition restored :: "u64 \<Rightarrow> account \<Rightarrow> ledger \<Rightarrow> ledger \<Rightarrow> bool" where
  "restored now a l l' \<longleftrightarrow>
     l' = l\<lparr>l_account := (case fmlookup (l_account l) a of
                None \<Rightarrow> l_account l
              | Some i \<Rightarrow> fmupd a (i\<lparr>ai_modified := now\<rparr>) (l_account l))\<rparr>"

lemma fmap_eqI: "(\<And>x. fmlookup m x = fmlookup m' x) \<Longrightarrow> m = m'"
  by (rule fmap_ext)

lemma weights_unique:
  assumes "weights_ok w" and "weights_ok w'" and "rw_min_weight w = rw_min_weight w'"
    and "\<And>r. stored_weight w r = stored_weight w' r"
  shows "w = w'"
proof -
  have "fmlookup (rw_store w) r = fmlookup (rw_store w') r" for r
    using assms(1,2) assms(4) [of r]
    by (cases "fmlookup (rw_store w) r"; cases "fmlookup (rw_store w') r")
      (auto simp: weights_ok_def cache_of_store_def weight_get_def)
  moreover from this have "fmlookup (rw_cache w) r = fmlookup (rw_cache w') r" for r
    using assms(1-3) by (simp add: weights_ok_def cache_of_store_def)
  ultimately have "rw_store w = rw_store w'" "rw_cache w = rw_cache w'"
    by (auto intro: fmap_eqI)
  with assms(3) show ?thesis
    by (cases w; cases w') simp
qed

lemma rep_via_unique: "rep_via t h r \<Longrightarrow> rep_via t h r' \<Longrightarrow> r = r'"
proof (induction arbitrary: r' rule: rep_via.induct)
  case (rep_here h b r)
  from rep_here(3) show ?case
    by cases (use rep_here(1,2) in simp_all)
next
  case (rep_before h b r)
  from rep_before(5) show ?case
    by cases (use rep_before(1,2,4) in simp_all)
qed

lemma blocks_restored:
  assumes "good_step verify c now l b" and "chain_inv c l"
  shows "blocks_without (normalise (new_saved (create_validator c now l b)))
    (blocks_after (create_validator c now l b) (l_block l)) = l_block l"
proof (rule fmap_eqI)
  let ?v = "create_validator c now l b"
  note acc = good_stepD(1) [OF assms(1)]
  fix x
  have prev: "set_successor 0 p = p" if p: "fmlookup (l_block l) (previous b) = Some p" "previous b \<noteq> 0" for p
  proof (rule predecessor_account [OF acc assms(2) p(2)])
    fix q i
    assume "fmlookup (l_block l) (previous b) = Some q" "fmlookup (l_account l) (bv_account ?v) = Some i"
      "previous b = ai_head i"
    moreover from this have "head_of (l_block l) (bv_account ?v) i"
      using chain_invD(14) [OF assms(2)] by (simp add: accounts_ok_def)
    ultimately have "sd_successor (svb_sideband p) = 0"
      using p(1) by (simp add: head_of_def)
    then show ?thesis
      by (rule set_successor_same)
  qed
  show "fmlookup (blocks_without (normalise (new_saved ?v)) (blocks_after ?v (l_block l))) x = fmlookup (l_block l) x"
    using new_previous_ne [OF acc good_stepD(2) [OF assms(1)]] new_hash_absent [OF acc] prev chain_invD(18) [OF assms(2)]
    by (auto simp: blocks_without_def Let_def blocks_after_lookup [OF acc] split: option.splits)
qed

lemma new_block_at_head:
  assumes "good_step verify c now l b" and "chain_inv c l"
    and "l' = ledger_after (create_validator c now l b) w l" and "chain_inv c l'"
  shows "at_head c l' (bv_account (create_validator c now l b)) (new_account_info (create_validator c now l b))
    (normalise (new_saved (create_validator c now l b)))"
  using assms(3,4) new_not_genesis [OF good_stepD(1) [OF assms(1)] assms(2)]
  by (simp add: at_head_def is_head_def ledger_after_def blocks_after_lookup [OF good_stepD(1) [OF assms(1)]])

lemma new_block_removable:
  assumes "good_step verify c now l b" and "chain_inv c l"
    and "l' = ledger_after (create_validator c now l b) w l"
  shows "removable l' (normalise (new_saved (create_validator c now l b)))"
proof -
  let ?v = "create_validator c now l b"
  have "fmlookup (pending_after ?v (l_pending l)) (PendingKey (destination_or_link b) (hash b)) \<noteq> None"
    if "bv_is_send ?v"
  proof -
    from new_pending_info_send [OF that] obtain k i where ki: "new_pending_info ?v = Some (k, i)"
      by blast
    with new_pending_info_dest(2) [OF ki] show ?thesis
      by (simp add: pending_after_lookup)
  qed
  then show ?thesis
    using new_saved_is_send [of c now l b] by (simp add: removable_def assms(3) ledger_after_def)
qed

text \<open>The entry that a receive consumed comes back as it was.\<close>

lemma pending_entry_restored:
  assumes "good_step verify c now l b" and "chain_inv c l" and "chain_inv c l'"
    and l': "l' = ledger_after (create_validator c now l b) w l"
    and recv: "bv_is_receive (create_validator c now l b)"
  defines "v \<equiv> create_validator c now l b"
  defines "n \<equiv> normalise (new_saved v)"
  shows "fmlookup (l_pending l) (PendingKey (bv_account v) (source_or_link b))
    = fmlookup (pending_without c l' n) (PendingKey (bv_account v) (source_or_link b))"
proof -
  note acc = good_stepD(1) [OF assms(1)]
  let ?k = "PendingKey (bv_account v) (source_or_link b)"
  have at: "at_head c l' (bv_account v) (new_account_info v) n"
    unfolding v_def n_def by (rule new_block_at_head [OF assms(1,2) l' assms(3)])
  have isr: "is_recv c n" "svb_block n = b"
    using new_is_recv [OF acc assms(2)] recv by (simp_all add: n_def v_def)
  have blk: "l_block l' = blocks_after v (l_block l)"
    by (simp add: l' v_def ledger_after_def)
  from acc recv obtain i where i: "fmlookup (l_pending l) ?k = Some i" "bv_source_epoch v = pi_epoch i"
    by (auto simp: accepted_def validate_Inr ensure_pending_receive_is_correct_def bv_source_epoch_def v_def
        split: if_splits)
  from chain_invD(10) [OF assms(2)] i(1) obtain s where s: "source_or_link b \<noteq> genesis_hash c"
    "fmlookup (l_block l) (source_or_link b) = Some s" "saved_is_send s"
    "destination_or_link (svb_block s) = bv_account v"
    unfolding pending_sends_def by fastforce
  have send: "send_ok c l (source_or_link b) s"
    using chain_invD(7) [OF assms(2)] s(1-3) by (auto simp: flows_ok_def)
  then have amt: "pi_amount i = prev_balance (l_block l) (svb_block s) - saved_balance s" "pi_source i = saved_account s"
    using i(1) s(4) by (simp_all add: send_ok_def)
  from after_old(2) [OF acc s(2)] obtain q where q: "fmlookup (l_block l') (source_or_link b) = Some (set_successor q s)"
    by (auto simp: blk v_def)
  have pb: "prev_balance (l_block l') (svb_block s) = prev_balance (l_block l) (svb_block s)"
    using prev_balance_after [OF acc stored_previous_ne_new [OF acc assms(2) good_stepD(2) [OF assms(1)] s(2)]]
    by (simp add: blk v_def)
  have epoch: "sd_source_epoch (svb_sideband n) = pi_epoch i"
    using i(2) legacy_source_epoch [OF acc]
    by (cases b) (auto simp: n_def v_def normalise_def fill_sideband_def new_saved_def new_sideband_def block_base_defs)
  show ?thesis
  proof (rule head_receive [OF at head_recv_not_send [OF at isr(1)] isr(1)])
    fix s'
    assume "fmlookup (l_block l') (source_or_link (svb_block n)) = Some s'"
      "prev_balance (l_block l') (svb_block s') - saved_balance s' = saved_balance n - prev_balance (l_block l') (svb_block n)"
      "fmlookup (pending_without c l' n) (PendingKey (bv_account v) (source_or_link (svb_block n)))
         = Some \<lparr>pi_source = saved_account s', pi_amount = saved_balance n - prev_balance (l_block l') (svb_block n),
                 pi_epoch = sd_source_epoch (svb_sideband n)\<rparr>"
    with q pb amt epoch isr(2) i(1) show ?thesis
      by (cases i) auto
  qed
qed

lemma pending_restored:
  assumes "good_step verify c now l b" and "chain_inv c l" and "chain_inv c l'"
    and l': "l' = ledger_after (create_validator c now l b) w l"
  shows "pending_without c l' (normalise (new_saved (create_validator c now l b))) = l_pending l"
proof -
  let ?v = "create_validator c now l b"
  let ?n = "normalise (new_saved ?v)"
  note acc = good_stepD(1) [OF assms(1)]
  have pend: "l_pending l' = pending_after ?v (l_pending l)"
    by (simp add: l' ledger_after_def)
  have nb: "saved_is_send ?n = bv_is_send ?v" "is_recv c ?n = bv_is_receive ?v" "svb_block ?n = b"
    "saved_account ?n = bv_account ?v"
    using new_saved_is_send new_is_recv [OF acc assms(2)] new_saved_account by simp_all
  consider (send) "bv_is_send ?v" "\<not> bv_is_receive ?v" | (recv) "bv_is_receive ?v" "\<not> bv_is_send ?v"
    | (plain) "\<not> bv_is_send ?v" "\<not> bv_is_receive ?v"
    using send_not_receive [OF assms(1,2)] by blast
  then show ?thesis
  proof cases
    case send
    from new_pending_info_send [OF send(1)] obtain k i where ki: "new_pending_info ?v = Some (k, i)"
      by blast
    note k = new_pending_info_dest(2) [OF ki]
    have "delete_received_pending_info ?v = None"
      using send(2) by (simp add: delete_received_pending_info_def)
    then have "pending_after ?v (l_pending l) = fmupd k i (l_pending l)"
      using ki by (simp add: pending_after_def)
    then show ?thesis
      using send(1) nb pend k pending_fresh [OF acc chain_invD(15) [OF assms(2)] ki]
      by (simp add: pending_without_def fmdrop_absent)
  next
    case recv
    have none: "new_pending_info ?v = None"
      using recv(2) new_pending_info_dest(1) [of c now l b]
      by (cases "new_pending_info ?v") auto
    have del: "delete_received_pending_info ?v = Some (PendingKey (bv_account ?v) (source_or_link b))"
      using recv(1) by (simp add: delete_received_pending_info_def)
    have look: "fmlookup (pending_without c l' ?n) k = fmlookup (l_pending l) k"
      if "k \<noteq> PendingKey (bv_account ?v) (source_or_link b)" for k
      using that recv nb by (simp add: pending_without_def pend pending_after_lookup none del)
    show ?thesis
    proof (rule fmap_eqI)
      fix k
      show "fmlookup (pending_without c l' ?n) k = fmlookup (l_pending l) k"
        using look [of k] pending_entry_restored [OF assms(1-3) l' recv(1)]
        by (cases "k = PendingKey (bv_account ?v) (source_or_link b)") simp_all
    qed
  next
    case plain
    have "new_pending_info ?v = None"
      using plain(1) new_pending_info_dest(1) [of c now l b] by (cases "new_pending_info ?v") auto
    moreover have "delete_received_pending_info ?v = None"
      using plain(2) by (simp add: delete_received_pending_info_def)
    ultimately show ?thesis
      using plain nb by (simp add: pending_without_def pend pending_after_def)
  qed
qed

lemma accounts_restored:
  assumes "good_step verify c now l b" and "chain_inv c l"
    and l': "l' = ledger_after (create_validator c now l b) w l"
    and r: "previous b = 0 \<longrightarrow> r = None"
      "previous b \<noteq> 0 \<longrightarrow> (\<exists>x. r = Some x \<and> rep_via (l_block l') (previous b) x)"
  shows "accounts_without now' l' (new_account_info (create_validator c now l b))
      (normalise (new_saved (create_validator c now l b))) r
    = (case fmlookup (l_account l) (bv_account (create_validator c now l b)) of
         None \<Rightarrow> l_account l
       | Some i \<Rightarrow> fmupd (bv_account (create_validator c now l b)) (i\<lparr>ai_modified := now'\<rparr>) (l_account l))"
    "r = None \<longleftrightarrow> fmlookup (l_account l) (bv_account (create_validator c now l b)) = None"
proof -
  let ?v = "create_validator c now l b"
  note acc = good_stepD(1) [OF assms(1)]
  have l'_acc: "l_account l' = fmupd (bv_account ?v) (new_account_info ?v) (l_account l)"
    and l'_blk: "l_block l' = blocks_after ?v (l_block l)"
    by (simp_all add: l' ledger_after_def)
  have "accounts_without now' l' (new_account_info ?v) (normalise (new_saved ?v)) r
    = (case fmlookup (l_account l) (bv_account ?v) of
         None \<Rightarrow> l_account l
       | Some i \<Rightarrow> fmupd (bv_account ?v) (i\<lparr>ai_modified := now'\<rparr>) (l_account l))
    \<and> (r = None \<longleftrightarrow> fmlookup (l_account l) (bv_account ?v) = None)"
  proof (cases "previous b = 0")
    case True
    with r(1) first_block_account(1) [OF acc assms(2)] show ?thesis
      by (simp add: accounts_without_def l'_acc new_saved_account fmdrop_absent)
  next
    case False
    show ?thesis
    proof (rule predecessor_account [OF acc assms(2) False])
      fix p i
      assume p: "fmlookup (l_block l) (previous b) = Some p" "fmlookup (l_account l) (bv_account ?v) = Some i"
        "previous b = ai_head i" "saved_balance p = ai_balance i" "\<not> is_open b"
      from r(2) False obtain x where x: "r = Some x" "rep_via (l_block l') (previous b) x"
        by blast
      have "rep_via (l_block l) (ai_head i) (ai_representative i)"
        using chain_invD(12) [OF assms(2)] p(2) by (simp add: reps_ok_def)
      then have "rep_via (l_block l') (previous b) (ai_representative i)"
        using rep_via_after [OF acc] p(3) by (simp add: l'_blk)
      then have rep: "x = ai_representative i"
        using rep_via_unique x(2) by blast
      have "head_of (l_block l) (bv_account ?v) i"
        using chain_invD(14) [OF assms(2)] p(2) by (simp add: accounts_ok_def)
      then have epoch: "saved_epoch p = ai_epoch i"
        using p(1,3) by (simp add: head_of_def)
      have "fmlookup (l_block l') (previous b) = Some (set_successor (hash b) p)"
        using False p(1) new_previous_ne [OF acc good_stepD(2) [OF assms(1)]]
        by (simp add: l'_blk blocks_after_lookup [OF acc])
      then have "info_without now' l' (new_account_info ?v) (normalise (new_saved ?v)) x = i\<lparr>ai_modified := now'\<rparr>"
        using p epoch rep
        by (cases i) (simp add: info_without_def prev_balance_def bv_open_block_def new_block_count_def)
      then show ?thesis
        using x(1) p(2) by (simp add: accounts_without_def l'_acc new_saved_account)
    qed
  qed
  then show "accounts_without now' l' (new_account_info ?v) (normalise (new_saved ?v)) r
    = (case fmlookup (l_account l) (bv_account ?v) of
         None \<Rightarrow> l_account l
       | Some i \<Rightarrow> fmupd (bv_account ?v) (i\<lparr>ai_modified := now'\<rparr>) (l_account l))"
    "r = None \<longleftrightarrow> fmlookup (l_account l) (bv_account ?v) = None"
    by blast+
qed

lemma delegated_restored:
  assumes "fmlookup t a = Some i"
  shows "delegated (fmupd a (i\<lparr>ai_modified := now\<rparr>) t) r = delegated t r"
  using delegated_update [OF assms, of "i\<lparr>ai_modified := now\<rparr>" r] by (simp split: if_splits)

lemma ledger_restored:
  assumes "good_step verify c now l b" and "chain_inv c l" and "chain_inv c l'"
    and l': "l' = ledger_after (create_validator c now l b) w l"
    and r: "previous b = 0 \<longrightarrow> r = None"
      "previous b \<noteq> 0 \<longrightarrow> (\<exists>x. r = Some x \<and> rep_via (l_block l') (previous b) x)"
    and w': "weights_ok w'" "rw_min_weight w' = rw_min_weight (l_weights l)"
      "\<And>x. stored_weight w' x = delegated (accounts_without now' l' (new_account_info (create_validator c now l b))
        (normalise (new_saved (create_validator c now l b))) r) x"
  shows "restored now' (bv_account (create_validator c now l b)) l
    (ledger_without c now' l' (new_account_info (create_validator c now l b))
      (normalise (new_saved (create_validator c now l b))) r w')"
proof -
  let ?v = "create_validator c now l b"
  note acc = accounts_restored(1) [OF assms(1,2) l' r, of now'] accounts_restored(2) [OF assms(1,2) l' r]
  have "delegated (accounts_without now' l' (new_account_info ?v) (normalise (new_saved ?v)) r) x
      = stored_weight (l_weights l) x" for x
    using chain_invD(16) [OF assms(2)]
    by (auto simp: acc rep_weights_ok_def delegated_restored split: option.splits)
  then have "w' = l_weights l"
    using w' chain_invD(16) [OF assms(2)] by (intro weights_unique) (simp_all add: rep_weights_ok_def)
  moreover have "l_account_count l' = (if r = None then l_account_count l + 1 else l_account_count l)"
    using acc(2) by (simp add: l' ledger_after_def account_count_after_def)
  ultimately show ?thesis
    using acc(1) pending_restored [OF assms(1-3) l'] blocks_restored [OF assms(1,2)]
    by (auto simp: restored_def ledger_without_def l' ledger_after_def)
qed

lemma process_roll_back:
  assumes "good_step verify c now l b" and "ledger_ok c l"
    and "process verify c now l b = Some (Inr (sb, l'))"
  shows "\<exists>l''. roll_back c now' l' (hash b) = Some (Inr (l'', [normalise sb]))
    \<and> restored now' (bv_account (create_validator c now l b)) l l''"
proof -
  let ?v = "create_validator c now l b"
  let ?n = "normalise (new_saved ?v)" and ?a = "bv_account ?v" and ?i = "new_account_info ?v"
  note inv = ledger_okD [OF assms(2)]
  note acc = good_stepD(1) [OF assms(1)]
  obtain w where w: "process verify c now l b = Some (Inr (new_saved ?v, ledger_after ?v w l))"
    "rw_min_weight w = rw_min_weight (l_weights l)"
    by (rule process_chain_inv [OF assms(1) inv(1)])
  have l': "l' = ledger_after ?v w l" and sb: "sb = new_saved ?v"
    using w(1) assms(3) by simp_all
  have chain': "chain_inv c l'"
    using process_ledger_ok [OF assms] ledger_okD(1) by blast
  have at: "at_head c l' ?a ?i ?n"
    by (rule new_block_at_head [OF assms(1) inv(1) l' chain'])
  have rem: "removable l' ?n"
    by (rule new_block_removable [OF assms(1) inv(1) l'])
  have stored: "fmlookup (l_block l') (hash b) = Some ?n"
    by (simp add: l' ledger_after_def blocks_after_lookup [OF acc])
  have free: "\<not> head_confirmed l' ?a ?n"
    using head_confirmed_iff [OF chain' stored] new_block_unconfirmed [OF assms(1,2)]
    by (simp add: l' new_saved_account)
  show ?thesis
  proof (rule next_step_head [OF at_head_is_head [OF at], of ?n now'])
    show "saved_account ?n = ?a"
      by (simp add: new_saved_account)
    fix r
    assume step: "next_rollback_step c now' l' ?n = Some (and_then
        (plan_roll_back_head_block (head_planner c now' l' ?a ?i ?n r)) (\<lambda>s. Inr (?n, s)))"
      and "previous (svb_block ?n) = 0 \<Longrightarrow> r = None"
        "previous (svb_block ?n) \<noteq> 0 \<Longrightarrow> \<exists>x. r = Some x \<and> rep_via (l_block l') (previous (svb_block ?n)) x"
    then have r: "previous b = 0 \<longrightarrow> r = None"
      "previous b \<noteq> 0 \<longrightarrow> (\<exists>x. r = Some x \<and> rep_via (l_block l') (previous b) x)"
      by simp_all
    from plan_block [OF at free rem, of now' r] obtain ins where
      plan: "plan_roll_back_head_block (head_planner c now' l' ?a ?i ?n r) = Inr (RollBackBlock ins)"
      by blast
    show ?thesis
    proof (rule execute_head [OF at rem free plan])
      fix w'
      let ?l = "ledger_without c now' l' ?i ?n r w'"
      assume ex: "execute_rollback ins l' = Some ?l" and ww: "weights_ok w'"
        "rw_min_weight w' = rw_min_weight (l_weights l')"
        "\<And>x. stored_weight w' x = delegated (accounts_without now' l' ?i ?n r) x"
      have "restored now' ?a l ?l"
        using ww(2) w(2) by (intro ledger_restored [OF assms(1) inv(1) chain' l' r ww(1) _ ww(3)])
          (simp_all add: l' ledger_after_def)
      moreover have "\<not> block_exists ?l (hash b)"
        using without_lookup [OF at, of "hash b"] by (simp add: block_exists_def)
      then have "roll_back_loop c now' ?n (hash b) (?l, [?n]) = Some (Inr (?l, [?n]))"
        by (rule roll_back_loop_absent)
      then have "roll_back c now' l' (hash b) = Some (Inr (?l, [?n]))"
        using stored step plan ex
        by (simp add: roll_back_def rb_load_block_def get_block_def)
          (subst roll_back_loop.simps, simp add: block_exists_def)
      ultimately show ?thesis
        by (auto simp: sb)
    qed (use r in auto)
  qed
qed

end
