(* ===== verification/Acceptance.thy ===== *)
theory Acceptance
  imports Chains
begin

text \<open>
  The rule that decides on an ordinary state block, written over the tables of the ledger: a
  specification of \<open>BlockValidator::validate\<close> on the blocks that are neither legacy blocks nor
  candidates for an epoch upgrade. The theorem says that the fourteen checks of the source
  accept exactly the blocks of the specification.
\<close>

lemma plain_state_checks:
  assumes "bv_block v = State st" and "\<not> has_epoch_link v st"
  shows "epoch_block_pre_checks verify v = Inr ()"
    and "ensure_valid_signature verify v = Inr () \<longleftrightarrow> verify (bv_account v) (stb_hash st) (stb_signature st)"
    and "ensure_valid_epoch_block v = Inr ()"
    and "ensure_no_negative_amount_send v = Inr ()"
    and "ensure_legacy_source_is_epoch_0 v = Inr ()"
  using assms
  by (simp_all add: epoch_block_pre_checks_def ensure_valid_signature_def is_epoch_block_def
      ensure_epoch_block_candidate_is_signed_by_owner_or_epoch_account_def
      ensure_previous_block_exists_for_epoch_block_candidate_def ensure_valid_epoch_block_def
      ensure_epoch_block_does_not_change_representative_def ensure_epoch_open_has_burn_account_as_rep_def
      ensure_epoch_open_has_pending_entry_def ensure_valid_epoch_for_unopened_account_def
      ensure_epoch_upgrade_is_sequential_for_existing_account_def
      ensure_epoch_block_does_not_change_balance_def ensure_no_negative_amount_send_def
      ensure_legacy_source_is_epoch_0_def block_base_defs)

text \<open>What the balance of a state block may be, given the account and what it can receive.\<close>

definition balance_rule :: "account_info option \<Rightarrow> pending_info option \<Rightarrow> state_hashables \<Rightarrow> bool" where
  "balance_rule info pend h \<longleftrightarrow>
     (case info of
        None \<Rightarrow> sth_previous h = 0 \<and> (\<exists>p. pend = Some p \<and> sth_balance h = pi_amount p)
      | Some i \<Rightarrow> sth_previous h = ai_head i
          \<and> (sth_balance h < ai_balance i
             \<or> sth_balance h = ai_balance i \<and> sth_link h = 0
             \<or> ai_balance i \<le> sth_balance h
                 \<and> (\<exists>p. pend = Some p \<and> sth_balance h - ai_balance i = pi_amount p)))"

definition state_block_rule ::
  "ed25519_verify \<Rightarrow> ledger_constants \<Rightarrow> u64 \<Rightarrow> ledger \<Rightarrow> state_block \<Rightarrow> bool" where
  "state_block_rule verify c now l st \<longleftrightarrow>
     (let h = stb_hashables st
      in \<not> block_exists_or_pruned l (stb_hash st)
         \<and> sth_account h \<noteq> 0
         \<and> verify (sth_account h) (stb_hash st) (stb_signature st)
         \<and> is_valid_pow (lc_work c) (State st) (bv_block_details (create_validator c now l (State st)))
         \<and> balance_rule (get_account l (sth_account h))
             (if sth_link h = 0 then None else get_pending l (PendingKey (sth_account h) (sth_link h))) h)"

lemma plain_state_validator:
  assumes "accounts_ok l" and "\<not> is_epoch_link (lc_epochs c) (sth_link (stb_hashables st))"
    and v: "v = create_validator c now l (State st)"
  shows "bv_block v = State st" "\<not> has_epoch_link v st" "bv_account v = sth_account (stb_hashables st)"
    "bv_pending_receive_info v = (if sth_link (stb_hashables st) = 0 then None
       else get_pending l (PendingKey (sth_account (stb_hashables st)) (sth_link (stb_hashables st))))"
    "bv_source_block_exists v \<longleftrightarrow> sth_link (stb_hashables st) \<noteq> 0
       \<and> block_exists_or_pruned l (sth_link (stb_hashables st))"
  using assms(2)
  by (simp_all add: v has_epoch_link_def bv_account_create_validator block_base_defs source_or_link_def
      get_pending_def)

text \<open>The checks that depend on the account.\<close>

definition chain_checks :: "block_validator \<Rightarrow> state_hashables \<Rightarrow> bool" where
  "chain_checks v h \<longleftrightarrow>
     (sth_previous h \<noteq> 0 \<longrightarrow> bv_previous_block v \<noteq> None)
     \<and> (sth_previous h = 0 \<longleftrightarrow> bv_old_account_info v = None)
     \<and> (\<forall>i. bv_old_account_info v = Some i \<longrightarrow> sth_previous h = ai_head i)
     \<and> (sth_previous h = 0 \<longrightarrow> sth_link h \<noteq> 0)
     \<and> (sth_link h = 0 \<longrightarrow> amount_received v = 0)
     \<and> (bv_is_receive v \<longrightarrow> bv_source_block_exists v
          \<and> (\<exists>p. bv_pending_receive_info v = Some p \<and> amount_received v = pi_amount p))"

lemma plain_state_accepted:
  assumes "v = create_validator c now l (State st)" and "\<not> has_epoch_link v st"
  shows "accepted verify c now l (State st) \<longleftrightarrow>
     \<not> bv_block_exists v \<and> verify (bv_account v) (stb_hash st) (stb_signature st) \<and> bv_account v \<noteq> 0
     \<and> is_valid_pow (lc_work c) (State st) (bv_block_details v) \<and> chain_checks v (stb_hashables st)"
proof -
  have b: "bv_block v = State st"
    by (simp add: assms(1))
  show ?thesis
    unfolding accepted_def validate_Inr assms(1) [symmetric] chain_checks_def
      ensure_previous_block_is_correct_def ensure_pending_receive_is_correct_def check_all_eq_Inr
    using b plain_state_checks [OF b assms(2)]
    by (auto simp: ensure_open_block_has_link_def ensure_no_reveive_balance_change_without_link_def
        account_exists_def block_base_defs assms(1) split: if_splits)
qed

lemma chain_checks_iff:
  assumes "accounts_ok l" and "pending_ok l" and v: "v = create_validator c now l (State st)"
    and link: "\<not> is_epoch_link (lc_epochs c) (sth_link (stb_hashables st))"
  shows "chain_checks v (stb_hashables st) \<longleftrightarrow>
    balance_rule (bv_old_account_info v) (bv_pending_receive_info v) (stb_hashables st)"
proof -
  let ?h = "stb_hashables st" and ?i = "fmlookup (l_account l) (sth_account (stb_hashables st))"
  note f = plain_state_validator [OF assms(1) link v]
  have info: "bv_old_account_info v = ?i"
    using f(3) by (simp add: v)
  have src: "bv_source_block_exists v" if "bv_pending_receive_info v = Some p" for p
    using that assms(2) f(4,5) by (auto simp: pending_ok_def get_pending_def split: if_splits)
  show ?thesis
  proof (cases ?i)
    case None
    then have "bv_is_receive v"
      using f(1,2) info by (simp add: bv_is_receive_def)
    moreover have "amount_received v = sth_balance ?h" if "sth_previous ?h = 0"
      using that f(1) by (auto simp: amount_received_def previous_balance_def v load_previous_block_def
          block_base_defs word_gt_0)
    ultimately show ?thesis
      using None info src f(4) by (auto simp: chain_checks_def balance_rule_def split: if_splits)
  next
    case (Some i)
    then have head: "head_of (l_block l) (sth_account ?h) i"
      using assms(1) by (simp add: accounts_ok_def)
    then obtain p where p: "ai_head i \<noteq> 0" "fmlookup (l_block l) (ai_head i) = Some p" "saved_balance p = ai_balance i"
      by (auto simp: head_of_def)
    have "bv_previous_block v = Some p" "previous_balance v = ai_balance i" if "sth_previous ?h = ai_head i"
      using that p by (simp_all add: v load_previous_block_def block_base_defs get_block_def previous_balance_def)
    moreover have "bv_is_receive v \<longleftrightarrow> ai_balance i \<le> sth_balance ?h \<and> sth_link ?h \<noteq> 0"
      using f(1,2) info Some by (simp add: bv_is_receive_def)
    ultimately show ?thesis
      using p(1) info Some f(1,4) src
      by (auto simp: chain_checks_def balance_rule_def amount_received_def split: if_splits)
  qed
qed

lemma state_block_accepted_iff:
  assumes "accounts_ok l" and "pending_ok l"
    and "\<not> is_epoch_link (lc_epochs c) (sth_link (stb_hashables st))"
  shows "accepted verify c now l (State st) \<longleftrightarrow> state_block_rule verify c now l st"
proof -
  define v where "v = create_validator c now l (State st)"
  note f = plain_state_validator [OF assms(1,3) v_def]
  have info: "bv_old_account_info v = get_account l (sth_account (stb_hashables st))"
    using f(3) by (simp add: v_def get_account_def)
  show ?thesis
    unfolding plain_state_accepted [OF v_def f(2)] chain_checks_iff [OF assms(1,2) v_def assms(3)]
      state_block_rule_def f(3,4) info Let_def
    by (auto simp: v_def block_base_defs)
qed

section \<open>Raising the balance with an epoch link\<close>

text \<open>
  A state block whose link is an epoch link and whose balance is above that of the account is
  no epoch block, because the balance changes, and no receive block, because of the link. No
  check looks at the amount: the owner of an account can raise its balance at will.
\<close>

lemma epoch_link_accepted:
  assumes "accounts_ok l" and h: "h = stb_hashables st" and "is_epoch_link (lc_epochs c) (sth_link h)" and "sth_link h \<noteq> 0"
    and i: "fmlookup (l_account l) (sth_account h) = Some i" "sth_previous h = ai_head i" "ai_balance i < sth_balance h"
    and v: "v = create_validator c now l (State st)"
    and "\<not> block_exists_or_pruned l (stb_hash st)" and "verify (sth_account h) (stb_hash st) (stb_signature st)"
    and "is_valid_pow (lc_work c) (State st) (bv_block_details v)"
  shows "accepted verify c now l (State st)" "new_balance v = sth_balance h" "old_balance v = ai_balance i"
    "new_pending_info v = None" "\<not> bv_is_receive v"
proof -
  have head: "head_of (l_block l) (sth_account h) i"
    using assms(1) i(1) by (simp add: accounts_ok_def)
  then obtain p where p: "ai_head i \<noteq> 0" "sth_account h \<noteq> 0" "fmlookup (l_block l) (ai_head i) = Some p" "saved_balance p = ai_balance i"
    by (auto simp: head_of_def)
  have f: "bv_block v = State st" "bv_account v = sth_account h" "bv_old_account_info v = Some i"
    "bv_previous_block v = Some p" "has_epoch_link v st" "previous_balance v = ai_balance i"
    using i p h assms(3) by (simp_all add: v bv_account_create_validator block_base_defs load_previous_block_def
        get_block_def has_epoch_link_def previous_balance_def)
  have e: "\<not> is_epoch_block v" and r: "\<not> bv_is_receive v" and s: "\<not> bv_is_send v"
    using f i(3) h by (auto simp: is_epoch_block_def bv_is_receive_def bv_is_send_def)
  show "new_balance v = sth_balance h" "old_balance v = ai_balance i" "new_pending_info v = None" "\<not> bv_is_receive v"
    using f r s i(3) h
    by (auto simp: new_balance_def old_balance_def amount_received_def amount_sent_def new_pending_info_def)
  show "accepted verify c now l (State st)"
    unfolding accepted_def validate_Inr v [symmetric]
      ensure_previous_block_is_correct_def ensure_pending_receive_is_correct_def check_all_eq_Inr
      epoch_block_pre_checks_def ensure_valid_epoch_block_def
    using f e r assms(4,9-11) p(1,2) i(2) h
    by (auto simp: ensure_valid_signature_def block_base_defs account_exists_def verify_signature_def
        ensure_epoch_block_candidate_is_signed_by_owner_or_epoch_account_def
        ensure_previous_block_exists_for_epoch_block_candidate_def
        ensure_epoch_block_does_not_change_representative_def ensure_epoch_open_has_burn_account_as_rep_def
        ensure_epoch_open_has_pending_entry_def ensure_valid_epoch_for_unopened_account_def
        ensure_epoch_upgrade_is_sequential_for_existing_account_def
        ensure_epoch_block_does_not_change_balance_def ensure_no_negative_amount_send_def
        ensure_legacy_source_is_epoch_0_def ensure_open_block_has_link_def
        ensure_no_reveive_balance_change_without_link_def v)
qed

lemma epoch_link_mints:
  assumes "ledger_inv l" and h: "h = stb_hashables st" and "is_epoch_link (lc_epochs c) (sth_link h)" and "sth_link h \<noteq> 0"
    and "fmlookup (l_account l) (sth_account h) = Some i" "sth_previous h = ai_head i" "ai_balance i < sth_balance h"
    and "\<not> block_exists_or_pruned l (stb_hash st)" and "stb_hash st \<noteq> 0"
    and "verify (sth_account h) (stb_hash st) (stb_signature st)"
    and "is_valid_pow (lc_work c) (State st) (bv_block_details (create_validator c now l (State st)))"
  shows "\<exists>sb l'. process verify c now l (State st) = Some (Inr (sb, l'))
    \<and> total_supply l' = total_supply l + unat (sth_balance h - ai_balance i)"
proof -
  let ?v = "create_validator c now l (State st)"
  have inv: "accounts_ok l" "pending_ok l" "rep_weights_ok l"
    using assms(1) by (simp_all add: ledger_inv_def)
  note acc = epoch_link_accepted [where verify = verify and now = now, OF inv(1) h assms(3-7) refl assms(8,10,11)]
  from process_accepted [OF acc(1) inv(1,3)] assms(9) obtain w where w:
    "process verify c now l (State st) = Some (Inr (new_saved ?v, ledger_after ?v w l))"
    by (auto simp: block_base_defs)
  have "sent_amount ?v = 0" "collected_amount ?v = 0"
    using acc(4,5) by (simp_all add: sent_amount_def collected_amount_def)
  moreover have "unat (ai_balance i) \<le> unat (sth_balance h)"
    using assms(7) by (simp add: word_less_nat_alt)
  ultimately have "total_supply (ledger_after ?v w l) = total_supply l + unat (sth_balance h - ai_balance i)"
    using accounts_sum_after [of c now l "State st"] pending_sum_after [OF acc(1) inv(2)] acc(2,3) assms(7)
    by (simp add: total_supply_def ledger_after_def unat_amount_sub)
  with w show ?thesis
    by blast
qed

end
