(* ===== verification/Sample_Ledger.thy ===== *)
theory Sample_Ledger
  imports Rollback_Inverse Acceptance
begin

text \<open>
  A small ledger with concrete blocks: a genesis block, a send from the genesis account and
  the open block that receives it. The concrete instances of the ledger properties are taken
  at these blocks. Every signature verifies; the difficulty of a block is its work value, the
  \<open>StubDifficulty\<close> without presets.
\<close>

definition sample_verify :: ed25519_verify where
  "sample_verify key h sig \<longleftrightarrow> True"

definition sample_genesis :: block where
  "sample_genesis = LegacyOpen \<lparr>ob_work = 0, ob_signature = 0,
     ob_hashables = \<lparr>oh_source = 7, oh_representative = 7, oh_account = 7\<rparr>, ob_hash = 1\<rparr>"

definition sample_constants :: ledger_constants where
  "sample_constants = \<lparr>lc_work = publish_dev (stub_difficulty (\<lambda>_. None)),
     lc_genesis_block = \<lparr>svb_block = sample_genesis, svb_sideband = genesis_sideband 7 0\<rparr>,
     lc_genesis_account = 7,
     lc_epochs = epochs_add (epochs_add [] Epoch1 7 epoch_v1_link) Epoch2 9 epoch_v2_link\<rparr>"

definition sample_state :: "account \<Rightarrow> block_hash \<Rightarrow> amount \<Rightarrow> link \<Rightarrow> block_hash \<Rightarrow> block" where
  "sample_state a p x lnk h = State \<lparr>
     stb_hashables = \<lparr>sth_account = a, sth_previous = p, sth_representative = a, sth_balance = x, sth_link = lnk\<rparr>,
     stb_signature = 0, stb_hash = h, stb_work = - 1\<rparr>"

definition sample_send :: block where
  "sample_send = sample_state 7 1 (- 11) 8 2"

definition sample_open :: block where
  "sample_open = sample_state 8 0 10 2 3"

definition sample_l0 :: ledger where
  "sample_l0 = genesis_ledger sample_constants 0 0"

text \<open>\<open>sample_process\<close> is the ledger after a block that is known to be accepted.\<close>

definition sample_process :: "ledger \<Rightarrow> block \<Rightarrow> ledger" where
  "sample_process l b =
     (case process sample_verify sample_constants 100 l b of Some (Inr (_, l')) \<Rightarrow> l' | _ \<Rightarrow> l)"

definition sample_l1 :: ledger where
  "sample_l1 = sample_process sample_l0 sample_send"

lemma sample_constants_new:
  "ledger_constants_new (publish_dev (stub_difficulty (\<lambda>_. None))) sample_genesis 9 0 = Some sample_constants"
  by (simp add: ledger_constants_new_def sample_constants_def sample_genesis_def block_base_defs)

lemma sample_wf: "genesis_wf sample_constants"
  by (auto simp: genesis_wf_def sample_constants_def sample_genesis_def genesis_hash_def block_base_defs)

lemma sample_l0_ok: "ledger_ok sample_constants sample_l0"
  unfolding sample_l0_def using sample_wf by (rule genesis_ledger_ok)

lemma nat_of_le_zeros: "nat_of_le (replicate n 0 @ bs) = 256 ^ n * nat_of_le bs"
  by (induction n) simp_all

lemma epoch_link_values:
  "epoch_v1_link = 0x65706f636820763120626c6f636b000000000000000000000000000000000000"
  "epoch_v2_link = 0x65706f636820763220626c6f636b000000000000000000000000000000000000"
  by (simp_all add: epoch_v1_link_def epoch_v2_link_def from_be_bytes_def from_le_bytes_def
      nat_of_le_zeros)

lemma sample_epoch_link:
  "is_epoch_link (lc_epochs sample_constants) lnk \<longleftrightarrow> lnk = epoch_v1_link \<or> lnk = epoch_v2_link"
  by (auto simp: sample_constants_def is_epoch_link_def epochs_add_def)

lemmas sample_defs = sample_send_def sample_open_def sample_state_def

lemma sample_work: "is_valid_pow (lc_work sample_constants) (sample_state a p x lnk h) d"
  by (auto simp: is_valid_pow_def difficulty_block_def sample_constants_def publish_dev_def
      stub_difficulty_def sample_state_def block_base_defs)

lemma sample_verify [simp]: "sample_verify key h sig"
  by (simp add: sample_verify_def)

lemma sample_genesis_block:
  "lc_genesis_block sample_constants = \<lparr>svb_block = sample_genesis, svb_sideband = genesis_sideband 7 0\<rparr>"
  "genesis_hash sample_constants = 1" "lc_genesis_account sample_constants = 7"
  by (simp_all add: sample_constants_def genesis_hash_def sample_genesis_def block_base_defs)

lemma sample_l0_accounts:
  "l_account sample_l0 \<noteq> fmempty"
  "sorted_list_of_fmap (l_account sample_l0) = [(7, genesis_info sample_constants 0)]"
proof -
  have "l_account sample_l0 = fmupd 7 (genesis_info sample_constants 0) fmempty"
    by (simp add: sample_l0_def genesis_ledger_def sample_genesis_block)
  then show "l_account sample_l0 \<noteq> fmempty"
    "sorted_list_of_fmap (l_account sample_l0) = [(7, genesis_info sample_constants 0)]"
    by (metis fmempty_lookup fmupd_lookup option.distinct(1), simp add: sorted_list_of_fmap_def sorted_list_of_fset.rep_eq)
qed

lemma sample_state_good:
  assumes "ledger_ok sample_constants l" and "h \<noteq> 0" and "a \<noteq> 0"
    and "\<not> is_epoch_link (lc_epochs sample_constants) lnk"
    and "fmlookup (l_block l) h = None" and "\<forall>i. fmlookup (l_account l) a = Some i \<longrightarrow> ai_block_count i \<noteq> - 1"
    and "balance_rule (fmlookup (l_account l) a) (if lnk = 0 then None else fmlookup (l_pending l) (PendingKey a lnk))
      \<lparr>sth_account = a, sth_previous = p, sth_representative = a, sth_balance = x, sth_link = lnk\<rparr>"
  shows "good_step sample_verify sample_constants now l (sample_state a p x lnk h)"
proof -
  note inv = chain_invD [OF ledger_okD(1) [OF assms(1)]]
  have acc: "accepted sample_verify sample_constants now l (sample_state a p x lnk h)"
    unfolding sample_state_def using assms(2-5,7) inv(2) sample_work [of a p x lnk h]
    by (subst state_block_accepted_iff [OF inv(14,15)])
      (simp_all add: state_block_rule_def Let_def block_exists_or_pruned_def block_exists_def get_account_def
        get_pending_def sample_state_def split: if_splits)
  then show ?thesis
    using assms(2,4,6) unfolding good_step_def regular_def
    by (simp add: sample_state_def block_base_defs mints_def has_epoch_link_def legacy_zero_send_def
        bv_account_create_validator)
qed

lemma sample_send_good: "good_step sample_verify sample_constants 100 sample_l0 sample_send"
  unfolding sample_send_def
  by (rule sample_state_good [OF sample_l0_ok])
    (simp_all add: sample_epoch_link epoch_link_values sample_l0_def genesis_ledger_def sample_genesis_block
      genesis_info_def balance_rule_def)

text \<open>The ledger after the send has one entry in the pending table.\<close>

lemma sample_process_good:
  assumes "good_step sample_verify sample_constants 100 l b" and "ledger_ok sample_constants l"
  obtains w sb where "process sample_verify sample_constants 100 l b = Some (Inr (sb, sample_process l b))"
    "sample_process l b = ledger_after (create_validator sample_constants 100 l b) w l"
    "ledger_ok sample_constants (sample_process l b)"
proof -
  from process_chain_inv [OF assms(1) ledger_okD(1) [OF assms(2)]] obtain w where w:
    "process sample_verify sample_constants 100 l b = Some (Inr (new_saved (create_validator sample_constants 100 l b),
       ledger_after (create_validator sample_constants 100 l b) w l))"
    by metis
  then have "sample_process l b = ledger_after (create_validator sample_constants 100 l b) w l"
    by (simp add: sample_process_def)
  with w show ?thesis
    using process_ledger_ok [OF assms w] that by metis
qed

lemma sample_l1_tables:
  "ledger_ok sample_constants sample_l1" "block_exists sample_l1 2" "\<not> block_exists sample_l1 3"
  "fmlookup (l_pending sample_l1) (PendingKey 8 2) = Some \<lparr>pi_source = 7, pi_amount = 10, pi_epoch = Epoch0\<rparr>"
  "fmlookup (l_account sample_l1) 8 = None"
  "\<exists>i. fmlookup (l_account sample_l1) 7 = Some i \<and> ai_head i = 2 \<and> ai_balance i = - 11"
proof -
  let ?v = "create_validator sample_constants 100 sample_l0 sample_send"
  from sample_process_good [OF sample_send_good sample_l0_ok] obtain w where w:
    "sample_l1 = ledger_after ?v w sample_l0" "ledger_ok sample_constants sample_l1"
    unfolding sample_l1_def by metis
  show "ledger_ok sample_constants sample_l1"
    by (rule w(2))
  have a: "bv_account ?v = 7"
    by (simp add: bv_account_create_validator sample_defs block_base_defs)
  have i: "bv_old_account_info ?v = Some (genesis_info sample_constants 0)"
    using a by (simp add: sample_l0_def genesis_ledger_def sample_genesis_block)
  have p: "bv_previous_block ?v = Some (normalise (lc_genesis_block sample_constants))"
    by (simp add: load_previous_block_def sample_defs block_base_defs sample_l0_def get_block_def
        genesis_ledger_def sample_genesis_block)
  then have pb: "previous_balance ?v = - 1"
    by (simp add: previous_balance_def sample_genesis_block)
      (simp add: saved_balance_def sample_genesis_def genesis_sideband_def block_base_defs)
  have q: "bv_pending_receive_info ?v = None"
    by (simp add: sample_l0_def genesis_ledger_def)
  have b: "bv_block ?v = sample_send"
    by simp
  have "\<not> has_epoch_link ?v \<lparr>stb_hashables = \<lparr>sth_account = 7, sth_previous = 1, sth_representative = 7,
       sth_balance = - 11, sth_link = 8\<rparr>, stb_signature = 0, stb_hash = 2, stb_work = - 1\<rparr>"
    by (simp add: has_epoch_link_def sample_epoch_link epoch_link_values)
  note f = this pb q i b a
  have lt: "\<not> (- 1 :: amount) \<le> - 11"
    by (simp add: word_order.extremum_unique)
  have s: "bv_is_send ?v" "\<not> bv_is_receive ?v" "amount_received ?v = 0" "amount_sent ?v = 10" "\<not> is_epoch_block ?v"
    unfolding bv_is_send_def bv_is_receive_def amount_received_def amount_sent_def is_epoch_block_def f
    using f by (simp_all add: sample_defs genesis_info_def lt)
  have "bv_amount ?v = 10" "bv_epoch ?v = Epoch0"
    unfolding bv_amount_def bv_epoch_def new_balance_def old_balance_def bv_source_epoch_def old_epoch_version_def s f
    using s by (simp_all add: genesis_info_def)
  then have "pending_after ?v fmempty = fmupd (PendingKey 8 2) \<lparr>pi_source = 7, pi_amount = 10, pi_epoch = Epoch0\<rparr> fmempty"
    unfolding pending_after_def delete_received_pending_info_def new_pending_info_def b
    using s a by (simp add: sample_defs pending_key_for_send_block_def block_base_defs)
  then show "fmlookup (l_pending sample_l1) (PendingKey 8 2) = Some \<lparr>pi_source = 7, pi_amount = 10, pi_epoch = Epoch0\<rparr>"
    by (simp add: w(1) ledger_after_def sample_l0_def genesis_ledger_def)
  show "fmlookup (l_account sample_l1) 8 = None"
    using a by (simp add: w(1) ledger_after_def sample_l0_def genesis_ledger_def sample_genesis_block)
  have "new_balance ?v = - 11"
    unfolding new_balance_def old_balance_def s f by (simp add: genesis_info_def)
  then show "\<exists>i. fmlookup (l_account sample_l1) 7 = Some i \<and> ai_head i = 2 \<and> ai_balance i = - 11"
    using a by (simp add: w(1) ledger_after_def sample_defs block_base_defs)
  show "block_exists sample_l1 2" "\<not> block_exists sample_l1 3"
    using p by (simp_all add: w(1) ledger_after_def blocks_after_def Let_def block_exists_def sample_l0_def
      genesis_ledger_def sample_genesis_block sample_defs block_base_defs)
qed

lemma sample_l1_blocks: "h \<noteq> 1 \<Longrightarrow> h \<noteq> 2 \<Longrightarrow> fmlookup (l_block sample_l1) h = None"
proof -
  assume h: "h \<noteq> 1" "h \<noteq> 2"
  let ?v = "create_validator sample_constants 100 sample_l0 sample_send"
  from sample_process_good [OF sample_send_good sample_l0_ok] obtain w where
    w: "sample_l1 = ledger_after ?v w sample_l0"
    unfolding sample_l1_def by metis
  have "l_block sample_l1 = blocks_after ?v (l_block sample_l0)"
    by (simp add: w ledger_after_def)
  moreover have "hash sample_send = 2" "previous sample_send = 1" "fmlookup (l_block sample_l0) h = None"
    using h by (simp_all add: sample_defs block_base_defs sample_l0_def genesis_ledger_def sample_genesis_block)
  ultimately show ?thesis
    using h blocks_after_lookup [OF good_stepD(1) [OF sample_send_good], of h] by simp
qed

lemma sample_open_good: "good_step sample_verify sample_constants 100 sample_l1 sample_open"
  unfolding sample_open_def
  using sample_l1_tables(2-)
  by (intro sample_state_good [OF sample_l1_tables(1)])
    (simp_all add: sample_epoch_link epoch_link_values balance_rule_def block_exists_def)

definition sample_l2 :: ledger where
  "sample_l2 = sample_process sample_l1 sample_open"

lemma sample_processed:
  "\<exists>sb. process sample_verify sample_constants 100 sample_l0 sample_send = Some (Inr (sb, sample_l1))"
  "\<exists>sb. process sample_verify sample_constants 100 sample_l1 sample_open = Some (Inr (sb, sample_l2))"
  using sample_process_good [OF sample_send_good sample_l0_ok]
    sample_process_good [OF sample_open_good sample_l1_tables(1)]
  unfolding sample_l1_def sample_l2_def by metis+

lemma sample_l2_tables:
  "ledger_ok sample_constants sample_l2" "block_exists sample_l2 3" "card (fmdom' (l_block sample_l2)) \<le> 3"
  "\<exists>b. get_block sample_l2 3 = Some b \<and> is_recv sample_constants b \<and> source_or_link (svb_block b) = 2"
proof -
  let ?v = "create_validator sample_constants 100 sample_l1 sample_open"
  let ?u = "create_validator sample_constants 100 sample_l0 sample_send"
  from sample_process_good [OF sample_open_good sample_l1_tables(1)] obtain w where w:
    "sample_l2 = ledger_after ?v w sample_l1" "ledger_ok sample_constants sample_l2"
    unfolding sample_l2_def by metis
  from sample_process_good [OF sample_send_good sample_l0_ok] obtain w' where w':
    "sample_l1 = ledger_after ?u w' sample_l0"
    unfolding sample_l1_def by metis
  have "load_previous_block sample_l1 sample_open = None"
    by (simp add: load_previous_block_def sample_defs block_base_defs)
  then have l2: "l_block sample_l2 = fmupd 3 (normalise (new_saved ?v)) (l_block sample_l1)"
    by (simp add: w(1) ledger_after_def blocks_after_def Let_def sample_defs block_base_defs)
  have "load_previous_block sample_l0 sample_send = Some (normalise (lc_genesis_block sample_constants))"
    by (simp add: load_previous_block_def sample_defs block_base_defs sample_l0_def get_block_def
        genesis_ledger_def sample_genesis_block)
  then have l1: "fmdom' (l_block sample_l1) = {1, 2}"
    by (auto simp: w' ledger_after_def blocks_after_def Let_def sample_l0_def genesis_ledger_def
        sample_genesis_block sample_defs block_base_defs)
  show "ledger_ok sample_constants sample_l2" "block_exists sample_l2 3"
    using w(2) l2 by (simp_all add: block_exists_def)
  have "fmdom' (l_block sample_l2) = {3, 1, 2}"
    by (simp add: l2 l1)
  then show "card (fmdom' (l_block sample_l2)) \<le> 3"
    by simp
  have "bv_account ?v = 8"
    by (simp add: bv_account_create_validator sample_defs block_base_defs)
  then have "bv_old_account_info ?v = None" "bv_block ?v = sample_open"
    using sample_l1_tables(5) by simp_all
  then have "bv_is_receive ?v"
    by (simp add: bv_is_receive_def sample_defs has_epoch_link_def sample_epoch_link epoch_link_values)
  then have "is_recv sample_constants (normalise (new_saved ?v))"
    using new_is_recv [OF good_stepD(1) [OF sample_open_good] ledger_okD(1) [OF sample_l1_tables(1)]] by simp
  then show "\<exists>b. get_block sample_l2 3 = Some b \<and> is_recv sample_constants b \<and> source_or_link (svb_block b) = 2"
    using l2 by (simp add: get_block_def source_or_link_def sample_defs block_base_defs)
qed

lemma sample_reachable:
  "reachable sample_verify sample_constants sample_l0" "ledger_step sample_verify sample_constants sample_l0 sample_l1"
  "ledger_step sample_verify sample_constants sample_l1 sample_l2" "reachable sample_verify sample_constants sample_l1"
  "reachable sample_verify sample_constants sample_l2"
proof -
  show r: "reachable sample_verify sample_constants sample_l0"
    unfolding sample_l0_def by (rule reach_genesis)
  show s: "ledger_step sample_verify sample_constants sample_l0 sample_l1"
    using sample_processed(1) step_process [OF sample_send_good] by blast
  show t: "ledger_step sample_verify sample_constants sample_l1 sample_l2"
    using sample_processed(2) step_process [OF sample_open_good] by blast
  show "reachable sample_verify sample_constants sample_l1" "reachable sample_verify sample_constants sample_l2"
    using reach_step r s t by blast+
qed

lemma sample_open_regular:
  "accepted sample_verify sample_constants 100 sample_l1 sample_open" "regular sample_constants 100 sample_l1 sample_open"
  using sample_open_good by (simp_all add: good_step_def)

lemma sample_run:
  "ledger_run sample_verify sample_constants [(100, sample_l0, sample_send), (100, sample_l1, sample_open)] sample_l2"
  "\<forall>(now, l, b) \<in> set [(100, sample_l0, sample_send), (100, sample_l1, sample_open)]. regular sample_constants now l b"
proof -
  have "ledger_run sample_verify sample_constants [] sample_l0"
    unfolding sample_l0_def by (rule run_genesis)
  then have "ledger_run sample_verify sample_constants [(100, sample_l0, sample_send)] sample_l1"
    using run_process [of sample_verify sample_constants "[]" sample_l0 100] sample_processed(1) by auto
  then show "ledger_run sample_verify sample_constants [(100, sample_l0, sample_send), (100, sample_l1, sample_open)] sample_l2"
    using run_process [of sample_verify sample_constants "[(100, sample_l0, sample_send)]" sample_l1 100]
      sample_processed(2) by auto
  show "\<forall>(now, l, b) \<in> set [(100, sample_l0, sample_send), (100, sample_l1, sample_open)]. regular sample_constants now l b"
    using sample_send_good sample_open_good by (simp add: good_step_def)
qed

text \<open>A legacy send of amount zero on the genesis account.\<close>

definition sample_zero_send :: send_block where
  "sample_zero_send = \<lparr>sb_hashables = \<lparr>sh_previous = 1, sh_destination = 8, sh_balance = - 1\<rparr>,
     sb_signature = 0, sb_work = - 1, sb_hash = 2\<rparr>"

lemma sample_zero_send_accepted:
  "accepted sample_verify sample_constants 100 sample_l0 (LegacySend sample_zero_send)"
  "previous_balance (create_validator sample_constants 100 sample_l0 (LegacySend sample_zero_send)) = - 1"
proof -
  let ?b = "LegacySend sample_zero_send"
  let ?v = "create_validator sample_constants 100 sample_l0 ?b"
  have tab: "fmlookup (l_block sample_l0) 1 = Some (normalise \<lparr>svb_block = sample_genesis, svb_sideband = genesis_sideband 7 0\<rparr>)"
    "fmlookup (l_block sample_l0) 2 = None" "fmlookup (l_pruned sample_l0) 2 = None"
    "fmlookup (l_account sample_l0) 7 = Some (genesis_info sample_constants 0)"
    by (simp_all add: sample_l0_def genesis_ledger_def sample_genesis_block)
  let ?p = "normalise \<lparr>svb_block = sample_genesis, svb_sideband = genesis_sideband 7 0\<rparr>"
  have b: "previous ?b = 1" "hash ?b = 2" "\<not> is_open ?b" "account_field ?b = None"
    by (simp_all add: sample_zero_send_def block_base_defs)
  have p: "svb_block ?p = sample_genesis" "saved_account ?p = 7" "saved_balance ?p = - 1"
    by (simp_all add: sample_genesis_def genesis_sideband_def normalise_def fill_sideband_def saved_account_def
        saved_balance_def block_base_defs)
  have acc: "bv_account ?v = 7"
    using tab(1) b p by (simp add: bv_account_create_validator load_previous_block_def get_block_def factory_get_account_def)
  have prev: "load_previous_block sample_l0 ?b = Some ?p"
    using tab(1) b by (simp add: load_previous_block_def get_block_def)
  show bal: "previous_balance ?v = - 1"
    using prev p by (simp add: previous_balance_def)
  have old: "get_account sample_l0 7 = Some (genesis_info sample_constants 0)" "ai_head (genesis_info sample_constants 0) = 1"
    using tab(4) by (simp_all add: get_account_def genesis_info_def sample_genesis_block)
  have plain: "bv_is_receive ?v = False" "is_epoch_block ?v = False" "valid_predecessor ?b (block_type sample_genesis)"
    by (simp_all add: bv_is_receive_def is_epoch_block_def sample_genesis_def block_base_defs)
  have work: "is_valid_pow (lc_work sample_constants) ?b d" for d
    by (auto simp: is_valid_pow_def difficulty_block_def sample_constants_def publish_dev_def
        stub_difficulty_def sample_zero_send_def block_base_defs)
  have "\<exists>ins. validate sample_verify ?v = Inr ins"
    unfolding validate_Inr
    using tab b p acc prev bal old plain work
    by (simp add: epoch_block_pre_checks_def ensure_epoch_block_candidate_is_signed_by_owner_or_epoch_account_def
        ensure_previous_block_exists_for_epoch_block_candidate_def ensure_block_does_not_exist_yet_def
        ensure_valid_predecessor_def ensure_valid_signature_def ensure_block_is_not_for_burn_account_def
        ensure_account_exists_for_none_open_block_def ensure_no_double_account_open_def
        ensure_previous_block_is_correct_def ensure_previous_block_exists_def ensure_previous_block_is_account_head_def
        ensure_open_block_has_link_def ensure_no_reveive_balance_change_without_link_def
        ensure_pending_receive_is_correct_def ensure_source_block_exists_def
        ensure_receive_block_receives_pending_amount_def ensure_legacy_source_is_epoch_0_def
        ensure_sufficient_work_def ensure_no_negative_amount_send_def ensure_valid_epoch_block_def
        ensure_epoch_block_does_not_change_representative_def ensure_epoch_open_has_burn_account_as_rep_def
        ensure_epoch_open_has_pending_entry_def ensure_valid_epoch_for_unopened_account_def
        ensure_epoch_upgrade_is_sequential_for_existing_account_def ensure_epoch_block_does_not_change_balance_def
        block_exists_or_pruned_def block_exists_def is_new_account_def account_exists_def sample_zero_send_def)
  then show "accepted sample_verify sample_constants 100 sample_l0 ?b"
    by (auto simp: accepted_def)
qed

text \<open>
  A ledger whose representative 9 has two delegators with accounts in the lower and in the upper half
  of the key space, each with 6 where the minimum weight is 10, and whose representative 11 has one
  with 20.
\<close>

definition sample_split :: ledger where
  "sample_split = sample_l0\<lparr>
     l_account := fmupd 8 ((genesis_info sample_constants 0)\<lparr>ai_representative := 11, ai_balance := 20\<rparr>)
       (fmupd 7 ((genesis_info sample_constants 0)\<lparr>ai_representative := 9, ai_balance := 6\<rparr>)
       (fmupd (- 2) ((genesis_info sample_constants 0)\<lparr>ai_representative := 9, ai_balance := 6\<rparr>) fmempty)),
     l_weights := \<lparr>rw_store = fmupd 9 12 (fmupd 11 20 fmempty), rw_cache = fmempty, rw_min_weight = 10\<rparr>\<rparr>"

lemma sample_split_weights:
  "\<forall>r. stored_weight (l_weights sample_split) r = delegated (l_account sample_split) r"
  "total_supply sample_split = 32"
  by (simp_all add: sample_split_def delegated_def total_supply_def table_sum_insert weight_get_def
      sample_l0_def genesis_ledger_def)

lemma sample_split_accounts: "l_account sample_split \<noteq> fmempty"
  by (simp add: sample_split_def)

lemma sample_split_parts:
  "i < 2 \<Longrightarrow> shard_weight (l_account sample_split) 2 9 i = 6"
  "shard_weight (l_account sample_split) 2 11 0 = 20" "shard_weight (l_account sample_split) 2 11 1 = 0"
proof -
  have t: "sorted_list_of_fmap (l_account sample_split) =
     [(7, (genesis_info sample_constants 0)\<lparr>ai_representative := 9, ai_balance := 6\<rparr>),
      (8, (genesis_info sample_constants 0)\<lparr>ai_representative := 11, ai_balance := 20\<rparr>),
      (- 2, (genesis_info sample_constants 0)\<lparr>ai_representative := 9, ai_balance := 6\<rparr>)]"
    by (simp add: sample_split_def sorted_list_of_fmap_def sorted_list_of_fset.rep_eq)
  have lo: "shard_entries (l_account sample_split) (traversal_range 2 0) =
     [(7, (genesis_info sample_constants 0)\<lparr>ai_representative := 9, ai_balance := 6\<rparr>),
      (8, (genesis_info sample_constants 0)\<lparr>ai_representative := 11, ai_balance := 20\<rparr>)]"
    by (simp add: traversal_range_def Let_def shard_entries_filter t)
  have hi: "shard_entries (l_account sample_split) (traversal_range 2 1) =
     [(- 2, (genesis_info sample_constants 0)\<lparr>ai_representative := 9, ai_balance := 6\<rparr>)]"
    by (simp add: traversal_range_def Let_def shard_entries_filter t)
  show "i < 2 \<Longrightarrow> shard_weight (l_account sample_split) 2 9 i = 6"
    using lo hi by (auto simp: shard_weight_def less_2_cases_iff)
  show "shard_weight (l_account sample_split) 2 11 0 = 20" "shard_weight (l_account sample_split) 2 11 1 = 0"
    using lo hi by (simp_all add: shard_weight_def)
qed

end
