(* ===== verification/Zero_Send.thy ===== *)
theory Zero_Send
  imports Rollback_Inverse
begin

text \<open>
  A legacy send that leaves the balance as it is (\<open>legacy_zero_send\<close>). The inserter puts a receivable
  entry of amount zero into the table, but the planner of the rollback classifies the block by the
  change of the balance (\<open>RollbackPlanner::block_sub_type\<close>) and takes it for a change of
  representative: the block is removed and the entry stays.
\<close>

definition zero_send :: "ed25519_verify \<Rightarrow> ledger_constants \<Rightarrow> u64 \<Rightarrow> ledger \<Rightarrow> block \<Rightarrow> bool" where
  "zero_send verify c now l b \<longleftrightarrow>
     accepted verify c now l b \<and> hash b \<noteq> 0 \<and> legacy_zero_send (create_validator c now l b)
     \<and> (\<forall>i. fmlookup (l_account l) (bv_account (create_validator c now l b)) = Some i \<longrightarrow>
          ai_block_count i \<noteq> - 1)"

lemma zero_sendD:
  assumes "zero_send verify c now l b"
  shows "accepted verify c now l b" "hash b \<noteq> 0" "legacy_zero_send (create_validator c now l b)"
    "\<exists>s. b = LegacySend s" "\<not> is_open b" "\<not> mints (create_validator c now l b)"
    "bv_is_send (create_validator c now l b)"
  using assms by (cases b; simp add: zero_send_def legacy_zero_send_def mints_def bv_is_send_def
      has_epoch_link_def block_base_defs)+

text \<open>The account before the block and the tables after it.\<close>

lemma zero_send_account:
  assumes "zero_send verify c now l b" and "ledger_ok c l"
  obtains p i where "fmlookup (l_block l) (previous b) = Some p" "previous b \<noteq> 0"
    "fmlookup (l_account l) (bv_account (create_validator c now l b)) = Some i"
    "previous b = ai_head i" "saved_balance p = ai_balance i"
    "new_balance (create_validator c now l b) = ai_balance i"
    "amount_sent (create_validator c now l b) = 0"
    "unat (new_block_count (create_validator c now l b)) = Suc (unat (ai_block_count i))"
proof -
  let ?v = "create_validator c now l b"
  note z = zero_sendD [OF assms(1)]
  note inv = ledger_okD(1) [OF assms(2)]
  have ne: "previous b \<noteq> 0"
    using first_block_account(2) [OF z(1) inv] z(5) by blast
  obtain p i where p: "fmlookup (l_block l) (previous b) = Some p"
    "fmlookup (l_account l) (bv_account ?v) = Some i" "previous b = ai_head i" "saved_balance p = ai_balance i"
    by (rule predecessor_account [OF z(1) inv ne])
  obtain s where s: "b = LegacySend s"
    using z(4) ..
  have old: "bv_old_account_info ?v = Some i" "bv_block ?v = LegacySend s"
    using p(2) by (simp_all add: s)
  note eq = previous_balance_old [OF z(1) chain_invD(14) [OF inv]]
  have "ensure_no_negative_amount_send ?v = Inr ()"
    using z(1) by (auto simp: accepted_def validate_Inr)
  then have "new_balance ?v = sh_balance (sb_hashables s)"
    using new_balance_send(1) [OF old(2) eq _ old(1)] by blast
  moreover have "sh_balance (sb_hashables s) = ai_balance i"
    using z(3) eq old by (simp add: legacy_zero_send_def old_balance_def)
  moreover have "unat (new_block_count ?v) = Suc (unat (ai_block_count i))"
    using assms(1) p(2) by (simp add: zero_send_def new_block_count_def unat_Suc_word)
  ultimately show ?thesis
    using that [OF p(1) ne p(2-4)] old by (simp add: amount_sent_def old_balance_def)
qed

lemma zero_send_unconfirmed:
  assumes "zero_send verify c now l b" and "ledger_ok c l"
  shows "\<not> new_block_count (create_validator c now l b)
    \<le> ch_height (unwrap_or (fmlookup (l_conf l) (bv_account (create_validator c now l b))) confirmation_height_default)"
proof -
  let ?v = "create_validator c now l b"
  note inv = ledger_okD [OF assms(2)]
  obtain i where i: "fmlookup (l_account l) (bv_account ?v) = Some i"
    "unat (new_block_count ?v) = Suc (unat (ai_block_count i))"
    by (rule zero_send_account [OF assms])
  show ?thesis
  proof (cases "fmlookup (l_conf l) (bv_account ?v)")
    case None
    then show ?thesis
      using i(2) by (simp add: confirmation_height_default_def word_le_nat_alt)
  next
    case (Some ci)
    from conf_invD(1) [OF inv(4) Some] obtain y where "fmlookup (l_block l) (ch_frontier ci) = Some y"
      "saved_account y = bv_account ?v" "saved_height y = ch_height ci"
      by blast
    with chain_invD(5) [OF inv(1)] i(1) have "unat (ch_height ci) \<le> unat (ai_block_count i)"
      unfolding ends_ok_def by (metis option.inject)
    with Some i(2) show ?thesis
      by (simp add: word_le_nat_alt)
  qed
qed

lemma zero_send_tables:
  assumes "zero_send verify c now l b" and "ledger_ok c l"
    and l': "l' = ledger_after (create_validator c now l b) w l"
  defines "v \<equiv> create_validator c now l b"
  defines "n \<equiv> normalise (new_saved v)"
  shows "fmlookup (l_account l') (bv_account v) = Some (new_account_info v)" "l_conf l' = l_conf l"
    "fmlookup (l_block l') (hash b) = Some n" "svb_block n = b" "bv_block v = b" "saved_account n = bv_account v"
    "saved_height n = new_block_count v"
    "fmlookup (l_pending l') (PendingKey (destination_or_link b) (hash b))
       = Some \<lparr>pi_source = saved_account n, pi_amount = 0, pi_epoch = Epoch0\<rparr>"
    "fmlookup (l_block l) (previous b) = Some p \<Longrightarrow> fmlookup (l_block l') (previous b) = Some (set_successor (hash b) p)"
proof -
  note z = zero_sendD [OF assms(1)]
  obtain s where s: "b = LegacySend s"
    using z(4) ..
  have sent: "previous b \<noteq> 0" "amount_sent v = 0"
    unfolding v_def by (rule zero_send_account [OF assms(1,2)], assumption)+
  show "fmlookup (l_account l') (bv_account v) = Some (new_account_info v)" "l_conf l' = l_conf l"
    "fmlookup (l_block l') (hash b) = Some n" "svb_block n = b" "bv_block v = b" "saved_account n = bv_account v"
    "saved_height n = new_block_count v"
    using new_saved_account [of c now l b] new_saved_height [OF z(1)]
    by (simp_all add: l' v_def n_def ledger_after_def blocks_after_lookup [OF z(1)])
  have "new_pending_info v = Some (PendingKey (destination_or_link b) (hash b),
      \<lparr>pi_source = bv_account v, pi_amount = 0, pi_epoch = Epoch0\<rparr>)"
    using sent(2) s by (simp add: v_def new_pending_info_def destination_or_link_def block_base_defs)
  then show "fmlookup (l_pending l') (PendingKey (destination_or_link b) (hash b))
       = Some \<lparr>pi_source = saved_account n, pi_amount = 0, pi_epoch = Epoch0\<rparr>"
    by (simp add: l' v_def n_def ledger_after_def pending_after_lookup new_saved_account)
  show "fmlookup (l_block l') (previous b) = Some (set_successor (hash b) p)"
    if "fmlookup (l_block l) (previous b) = Some p"
    using that sent(1) new_previous_ne [OF z(1,2)] by (simp add: l' ledger_after_def blocks_after_lookup [OF z(1)])
qed

text \<open>The plan of the rollback: the block is not seen as a send, so no entry is removed.\<close>

lemma zero_send_planner:
  assumes "zero_send verify c now l b" and "ledger_ok c l"
    and l': "l' = ledger_after (create_validator c now l b) w l" and "blocks_ok l'"
  defines "v \<equiv> create_validator c now l b"
  defines "n \<equiv> normalise (new_saved v)"
  obtains x where "next_rollback_step c now' l' n = Some (and_then
    (plan_roll_back_head_block (head_planner c now' l' (bv_account v) (new_account_info v) n (Some x))) (\<lambda>s. Inr (n, s)))"
proof -
  note z = zero_sendD [OF assms(1)]
  obtain p j where p: "fmlookup (l_block l) (previous b) = Some p" "previous b \<noteq> 0"
    "fmlookup (l_account l) (bv_account v) = Some j" "previous b = ai_head j"
    unfolding v_def by (rule zero_send_account [OF assms(1,2)])
  note t = zero_send_tables [OF assms(1-3), folded v_def, folded n_def]
  have "rep_via (l_block l) (ai_head j) (ai_representative j)"
    using chain_invD(12) [OF ledger_okD(1) [OF assms(2)]] p(3) by (simp add: reps_ok_def)
  then have "rep_via (l_block l') (previous b) (ai_representative j)"
    using rep_via_after [OF z(1)] by (simp add: l' ledger_after_def p(4))
  from find_rep_block_rep_via [OF this assms(4)] obtain h' b' where
    r: "find_rep_block (l_block l') (previous b) = Some h'" "h' \<noteq> 0" "fmlookup (l_block l') h' = Some b'"
      "representative_field (svb_block b') = Some (ai_representative j)"
    by blast
  have "create_planner c now' l' n
      = Some (Inr (head_planner c now' l' (bv_account v) (new_account_info v) n (Some (ai_representative j))))"
    using p(2) t(1,3-6) t(9) [OF p(1)] r
    by (simp add: create_planner_def rb_get_account_def block_account_def get_block_def rb_load_block_def
        get_previous_representative_def rb_load_previous_block_def head_planner_def get_account_def get_pending_def)
  with t(1,3-6) that show ?thesis
    by (simp add: next_rollback_step_def load_account_head_def get_account_def rb_load_block_def get_block_def)
qed

lemma zero_send_plan:
  assumes "zero_send verify c now l b" and "ledger_ok c l"
    and l': "l' = ledger_after (create_validator c now l b) w l"
  defines "v \<equiv> create_validator c now l b"
  defines "n \<equiv> normalise (new_saved v)"
  shows "\<exists>t i. plan_roll_back_head_block (head_planner c now' l' (bv_account v) (new_account_info v) n (Some x))
      = Inr (RollBackBlock
        \<lparr>rbi_block_hash = hash b, rbi_block_sub_type = t, rbi_account = bv_account v, rbi_remove_pending = None,
         rbi_add_pending = None, rbi_set_account_info = i, rbi_old_account_info = new_account_info v,
         rbi_clear_successor = Some (previous b), rbi_new_balance = new_balance v, rbi_new_representative = Some x\<rparr>)
    \<and> ai_head i = previous b"
proof -
  obtain p j where p: "fmlookup (l_block l) (previous b) = Some p" "previous b \<noteq> 0"
    "fmlookup (l_account l) (bv_account v) = Some j" "saved_balance p = ai_balance j" "new_balance v = ai_balance j"
    unfolding v_def by (rule zero_send_account [OF assms(1,2)])
  note t = zero_send_tables [OF assms(1-3), folded v_def, folded n_def]
  note prev = t(9) [OF p(1)]
  let ?p = "head_planner c now' l' (bv_account v) (new_account_info v) n (Some x)"
  have free: "ensure_block_is_not_confirmed ?p = Inr ()"
    using zero_send_unconfirmed [OF assms(1,2)]
    by (intro plan_not_confirmed) (simp add: head_confirmed_def t(2,7) v_def)
  have same: "rp_previous_balance ?p = new_balance v" "ai_balance (rp_current_account_info ?p) = new_balance v"
    using prev p(4,5) t(4) by (simp_all add: prev_balance_def) (simp add: head_planner_def)
  then have sub: "rp_block_sub_type ?p \<notin> {SubSend, SubOpen, SubReceive}"
    by (simp add: rp_block_sub_type_def Let_def)
  then have pend: "rp_remove_pending ?p = None" "rp_add_pending ?p = None"
    by (simp_all add: rp_remove_pending_def rp_add_pending_def)
  have "hash (svb_block p) = previous b"
    using chain_invD(13) [OF ledger_okD(1) [OF assms(2)]] p(1) by (auto simp: blocks_ok_def)
  then have "plan_roll_back_head_block ?p = Inr (RollBackBlock
      \<lparr>rbi_block_hash = hash b, rbi_block_sub_type = rp_block_sub_type ?p, rbi_account = bv_account v,
       rbi_remove_pending = None, rbi_add_pending = None, rbi_set_account_info = rp_previous_account_info ?p,
       rbi_old_account_info = new_account_info v, rbi_clear_successor = Some (previous b),
       rbi_new_balance = new_balance v, rbi_new_representative = Some x\<rparr>)"
    using free sub pend same(1) prev t(4) by (simp add: plan_roll_back_head_block_def) (simp add: head_planner_def)
  moreover have "ai_head (rp_previous_account_info ?p) = previous b"
    using p(2) t(4) by (simp add: rp_previous_account_info_def head_planner_def)
  ultimately show ?thesis
    by blast
qed

text \<open>The executor carries the plan out; the pending table is left as it is.\<close>

lemma execute_zero_send:
  assumes "ai_head i \<noteq> 0" and "fmlookup (l_account l) a \<noteq> None" and "fmlookup (l_block l) h \<noteq> None"
    and "fmlookup (l_block l) p \<noteq> None" and "p \<noteq> h" and "weights_ok (l_weights l)"
  shows "\<exists>l'. execute_rollback \<lparr>rbi_block_hash = h, rbi_block_sub_type = t, rbi_account = a, rbi_remove_pending = None,
       rbi_add_pending = None, rbi_set_account_info = i, rbi_old_account_info = old,
       rbi_clear_successor = Some p, rbi_new_balance = bal, rbi_new_representative = Some x\<rparr> l = Some l'
    \<and> l_pending l' = l_pending l \<and> \<not> block_exists l' h"
proof -
  from representation_add_dual_ok [OF assms(6), of "ai_representative old" "0 - ai_balance old" x bal]
  obtain w where w: "representation_add_dual (l_weights l) (ai_representative old) (0 - ai_balance old) x bal = Some w"
    by blast
  show ?thesis
    using assms(1-5) w
    by (auto simp: execute_rollback_def rb_update_pending_table_def update_account_def account_del_def account_put_def
        table_del_def rb_update_block_table_def ledger_block_del_def ledger_successor_clear_def successor_clear_def
        roll_back_representative_cache_def block_exists_def Let_def)
qed

lemma zero_send_roll_back:
  assumes "zero_send verify c now l b" and "ledger_ok c l"
  shows "\<exists>sb l' l''. process verify c now l b = Some (Inr (sb, l'))
    \<and> roll_back c now' l' (hash b) = Some (Inr (l'', [normalise sb])) \<and> \<not> block_exists l'' (hash b)
    \<and> get_pending l'' (PendingKey (destination_or_link b) (hash b))
      = Some \<lparr>pi_source = saved_account (normalise sb), pi_amount = 0, pi_epoch = Epoch0\<rparr>"
proof -
  let ?v = "create_validator c now l b"
  let ?n = "normalise (new_saved ?v)"
  note z = zero_sendD [OF assms(1)]
  note prev = new_previous_ne [OF z(1,2)]
  obtain w where w: "process verify c now l b = Some (Inr (new_saved ?v, ledger_after ?v w l))"
    "ledger_inv (ledger_after ?v w l)"
    by (rule process_inv [OF z(1) chain_invD(1) [OF ledger_okD(1) [OF assms(2)]] z(2,6)])
  define l' where "l' = ledger_after ?v w l"
  note t = zero_send_tables [OF assms l'_def]
  have ok: "blocks_ok l'" "weights_ok (l_weights l')"
    using w(2) by (simp_all add: l'_def ledger_inv_def rep_weights_ok_def)
  obtain p where p: "fmlookup (l_block l) (previous b) = Some p" "previous b \<noteq> 0"
    by (rule zero_send_account [OF assms])
  obtain x where step: "next_rollback_step c now' l' ?n = Some (and_then (plan_roll_back_head_block
      (head_planner c now' l' (bv_account ?v) (new_account_info ?v) ?n (Some x))) (\<lambda>s. Inr (?n, s)))"
    by (rule zero_send_planner [OF assms l'_def ok(1)])
  obtain ins l'' where ex: "plan_roll_back_head_block
      (head_planner c now' l' (bv_account ?v) (new_account_info ?v) ?n (Some x)) = Inr (RollBackBlock ins)"
    "execute_rollback ins l' = Some l''" "l_pending l'' = l_pending l'" "\<not> block_exists l'' (hash b)"
    using zero_send_plan [OF assms l'_def, of now' x]
      execute_zero_send [of _ l' "bv_account ?v" "hash b" "previous b", OF _ _ _ _ prev ok(2)] t(1,3,9) p
    by (metis option.distinct(1))
  have "roll_back c now' l' (hash b) = Some (Inr (l'', [?n]))"
    using t(3) step ex roll_back_loop_absent [OF ex(4), of c now' ?n "[?n]"]
    by (simp add: roll_back_def rb_load_block_def get_block_def)
      (subst roll_back_loop.simps, simp add: block_exists_def)
  then show ?thesis
    using w(1) t(8) ex(3,4) by (auto simp: l'_def get_pending_def)
qed

end
