(* ===== verification/Votes.thy ===== *)
theory Votes
  imports Blocks
begin

text \<open>
  Votes (\<open>core/src/vote.rs\<close>). The four low-order bits of the timestamp field hold the
  duration; a final vote has every bit set. Decoding reads hashes until the stream is empty
  or 255 of them have been read.
\<close>

unbundle bit_operations_syntax

datatype vote_source = Live | Rebroadcast | Cache

datatype vote_code = VC_Invalid | VC_Replay | VC_Vote | VC_Indeterminate | VC_Ignored

record vote =
  v_timestamp :: u64
  v_voting_account :: public_key
  v_signature :: signature
  v_hashes :: "block_hash list"

definition MAX_HASHES :: nat where
  "MAX_HASHES = 255"

definition FINAL_TIMESTAMP :: u64 where
  "FINAL_TIMESTAMP = - 1"

definition DURATION_MAX :: byte where
  "DURATION_MAX = 0x0F"

definition TIMESTAMP_MAX :: u64 where
  "TIMESTAMP_MAX = 0xFFFFFFFFFFFFFFF0"

definition TIMESTAMP_MIN :: u64 where
  "TIMESTAMP_MIN = 0x10"

definition TIMESTAMP_MASK :: u64 where
  "TIMESTAMP_MASK = 0xFFFFFFFFFFFFFFF0"

definition packed_timestamp :: "u64 \<Rightarrow> byte \<Rightarrow> u64" where
  "packed_timestamp timestamp duration = (timestamp AND TIMESTAMP_MASK) OR ucast duration"

definition is_final :: "vote \<Rightarrow> bool" where
  "is_final v \<longleftrightarrow> v_timestamp v = FINAL_TIMESTAMP"

definition vote_timestamp :: "vote \<Rightarrow> u64" where
  "vote_timestamp v = (if is_final v then v_timestamp v else v_timestamp v AND TIMESTAMP_MASK)"

definition duration_bits :: "vote \<Rightarrow> byte" where
  "duration_bits v = ucast (v_timestamp v AND NOT TIMESTAMP_MASK)"

text \<open>In milliseconds.\<close>

definition vote_duration :: "vote \<Rightarrow> nat" where
  "vote_duration v = 2 ^ (unat (duration_bits v) + 4)"

definition vote_hash :: "blake2b \<Rightarrow> vote \<Rightarrow> block_hash" where
  "vote_hash blake v =
     blake (map (\<lambda>c. word_of_nat (of_char c)) ''vote '' @ concat (map ser_u256 (v_hashes v))
       @ to_le_bytes 8 (v_timestamp v))"

definition vote_full_hash :: "blake2b \<Rightarrow> vote \<Rightarrow> block_hash" where
  "vote_full_hash blake v =
     blake (ser_u256 (vote_hash blake v) @ ser_u256 (v_voting_account v) @ ser_signature (v_signature v))"

text \<open>
  \<open>sign\<close> is the Ed25519 signature of the crate; \<open>None\<close> is the failed assertion on the number
  of hashes.
\<close>

definition vote_new ::
  "blake2b \<Rightarrow> (block_hash \<Rightarrow> signature) \<Rightarrow> public_key \<Rightarrow> u64 \<Rightarrow> byte \<Rightarrow> block_hash list \<Rightarrow> vote option" where
  "vote_new blake sign key timestamp duration hashes =
     (if length hashes > MAX_HASHES then None
      else let v = \<lparr>v_timestamp = packed_timestamp timestamp duration, v_voting_account = key,
                    v_signature = 0, v_hashes = hashes\<rparr>
           in Some (v\<lparr>v_signature := sign (vote_hash blake v)\<rparr>))"

definition vote_new_final ::
  "blake2b \<Rightarrow> (block_hash \<Rightarrow> signature) \<Rightarrow> public_key \<Rightarrow> block_hash list \<Rightarrow> vote option" where
  "vote_new_final blake sign key hashes = vote_new blake sign key TIMESTAMP_MAX DURATION_MAX hashes"

definition vote_validate ::
  "(public_key \<Rightarrow> block_hash \<Rightarrow> signature \<Rightarrow> bool) \<Rightarrow> blake2b \<Rightarrow> vote \<Rightarrow> bool" where
  "vote_validate verify blake v = verify (v_voting_account v) (vote_hash blake v) (v_signature v)"

definition vote_serialize :: "vote \<Rightarrow> byte list" where
  "vote_serialize v =
     ser_u256 (v_voting_account v) @ ser_signature (v_signature v) @ to_le_bytes 8 (v_timestamp v)
     @ concat (map ser_u256 (v_hashes v))"

text \<open>The loop over the hashes; the argument is how many more are allowed.\<close>

fun read_hashes :: "nat \<Rightarrow> block_hash list parser" where
  "read_hashes 0 bs = preturn [] bs"
| "read_hashes (Suc n) bs =
     (if length bs > 0 then pbind de_u256 (\<lambda>h. pbind (read_hashes n) (\<lambda>hs. preturn (h # hs))) bs
      else preturn [] bs)"

definition vote_deserialize :: "vote parser" where
  "vote_deserialize =
     pbind de_u256 (\<lambda>account.
     pbind de_signature (\<lambda>sig.
     pbind (read_word_le 8) (\<lambda>timestamp.
     pbind (read_hashes MAX_HASHES) (\<lambda>hashes.
     preturn \<lparr>v_timestamp = timestamp, v_voting_account = account, v_signature = sig, v_hashes = hashes\<rparr>))))"

definition vote_serialized_size :: "nat \<Rightarrow> nat" where
  "vote_serialized_size count = 32 + 64 + 8 + 32 * count"

section \<open>The encoding\<close>

lemma length_concat_hashes: "length (concat (map ser_u256 hs)) = 32 * length hs"
  by (induction hs) simp_all

lemma length_vote_serialize: "length (vote_serialize v) = vote_serialized_size (length (v_hashes v))"
  by (simp add: vote_serialize_def vote_serialized_size_def length_concat_hashes)

lemma read_hashes_round_trip:
  assumes "length hs \<le> n"
  shows "read_hashes n (concat (map ser_u256 hs)) = Inr (hs, [])"
  using assms
proof (induction hs arbitrary: n)
  case Nil
  then show ?case
    by (cases n) (simp_all add: preturn_def)
next
  case (Cons h hs)
  then obtain m where m: "n = Suc m" "length hs \<le> m"
    by (cases n) auto
  have "pbind (read_hashes m) (\<lambda>hs. preturn (h # hs)) (concat (map ser_u256 hs)) = Inr (h # hs, [])"
    using Cons.IH [OF m(2)] by (simp add: pbind_def preturn_def)
  then show ?case
    by (simp add: m(1) u256_be.pbind_de_ser)
qed

lemma vote_round_trip:
  assumes "length (v_hashes v) \<le> MAX_HASHES"
  shows "vote_deserialize (vote_serialize v) = Inr (v, [])"
  using read_hashes_round_trip [OF assms]
  by (simp add: vote_deserialize_def vote_serialize_def codec_simps pbind_def [of "read_hashes _"])

text \<open>Decoding never yields more hashes than a vote may have.\<close>

lemma read_hashes_bound: "read_hashes n bs = Inr (hs, rest) \<Longrightarrow> length hs \<le> n"
proof (induction n arbitrary: bs hs rest)
  case (Suc n)
  show ?case
  proof (cases "length bs > 0")
    case True
    with Suc.prems obtain h r hs' where "read_hashes n r = Inr (hs', rest)" "hs = h # hs'"
      by (auto simp: pbind_def preturn_def and_then_eq_Inr)
    with Suc.IH show ?thesis
      by simp
  qed (use Suc.prems in \<open>auto simp: preturn_def\<close>)
qed (auto simp: preturn_def)

lemma vote_deserialize_bound:
  "vote_deserialize bs = Inr (v, rest) \<Longrightarrow> length (v_hashes v) \<le> MAX_HASHES"
  by (auto simp: vote_deserialize_def pbind_def preturn_def and_then_eq_Inr dest: read_hashes_bound)

section \<open>Timestamps\<close>

lemma TIMESTAMP_MASK_mask: "TIMESTAMP_MASK = NOT (mask 4)"
  by (simp add: TIMESTAMP_MASK_def mask_eq_exp_minus_1)

lemma low_bits:
  assumes "(w :: 'a::len word) \<le> 15" and "bit w n" and "4 < LENGTH('a)"
  shows "n < 4"
proof -
  have "unat (15 :: 'a word) \<le> 15"
    using take_bit_nat_less_eq_self [of "LENGTH('a)" 15] by (subst unsigned_numeral) simp
  moreover have "unat w \<le> unat (15 :: 'a word)"
    using assms(1) by (simp only: word_le_nat_alt)
  ultimately have "unat w \<le> 15"
    by (rule order_trans [rotated])
  then have "unat w < 2 ^ 4"
    by simp
  then have "take_bit 4 w = w"
    by (simp add: word_unat_eq_iff unsigned_take_bit_eq take_bit_nat_eq_self)
  with assms(2) show ?thesis
    by (metis bit_take_bit_iff)
qed

lemma duration_low_bits:
  assumes "duration \<le> DURATION_MAX" and "bit duration n"
  shows "n < 4"
  using assms low_bits [of duration n] by (simp add: DURATION_MAX_def)

lemma and_mask_max_iff: "t AND TIMESTAMP_MASK = TIMESTAMP_MAX \<longleftrightarrow> TIMESTAMP_MAX \<le> t"
proof
  assume "t AND TIMESTAMP_MASK = TIMESTAMP_MAX"
  then show "TIMESTAMP_MAX \<le> t"
    by (metis word_and_le2)
next
  assume "TIMESTAMP_MAX \<le> t"
  moreover have "NOT t = - 1 - t"
    by (simp add: not_eq_complement)
  moreover have "unat (- 1 - t) = 2 ^ 64 - 1 - unat t"
    by (subst unat_sub) (simp_all add: unsigned_minus_1_eq_mask mask_eq_exp_minus_1)
  ultimately have "NOT t \<le> 15"
    by (simp add: word_le_nat_alt TIMESTAMP_MAX_def)
  then have "bit t n" if "\<not> n < 4" "n < 64" for n
    using low_bits [of "NOT t" n] that by (auto simp: bit_simps)
  then have "t AND TIMESTAMP_MASK = TIMESTAMP_MASK"
    by (auto intro!: bit_word_eqI simp: TIMESTAMP_MASK_mask bit_simps)
  then show "t AND TIMESTAMP_MASK = TIMESTAMP_MAX"
    by (simp add: TIMESTAMP_MASK_def TIMESTAMP_MAX_def)
qed

lemma timestamp_parts:
  assumes "duration \<le> DURATION_MAX"
  shows "packed_timestamp t duration AND TIMESTAMP_MASK = t AND TIMESTAMP_MASK"
    and "ucast (packed_timestamp t duration AND NOT TIMESTAMP_MASK) = duration"
  using duration_low_bits [OF assms]
  by (auto intro!: bit_word_eqI simp: packed_timestamp_def TIMESTAMP_MASK_mask bit_simps)

lemma packed_is_final_iff:
  assumes "duration \<le> DURATION_MAX" and "v_timestamp v = packed_timestamp t duration"
  shows "is_final v \<longleftrightarrow> t AND TIMESTAMP_MASK = TIMESTAMP_MAX \<and> duration = DURATION_MAX"
proof
  assume "is_final v"
  then have "packed_timestamp t duration = - 1"
    using assms(2) by (simp add: is_final_def FINAL_TIMESTAMP_def)
  with timestamp_parts [OF assms(1), of t] show "t AND TIMESTAMP_MASK = TIMESTAMP_MAX \<and> duration = DURATION_MAX"
    by (simp add: TIMESTAMP_MASK_def TIMESTAMP_MAX_def DURATION_MAX_def)
next
  assume "t AND TIMESTAMP_MASK = TIMESTAMP_MAX \<and> duration = DURATION_MAX"
  then show "is_final v"
    using assms(2) by (simp add: packed_timestamp_def is_final_def FINAL_TIMESTAMP_def TIMESTAMP_MAX_def
        DURATION_MAX_def)
qed

text \<open>
  The constructors and the accessors agree: a vote that is not final shows the timestamp with
  the low bits cleared and the duration it was made with, and only \<open>new_final\<close>, or a
  timestamp above \<open>TIMESTAMP_MAX\<close>, gives a final vote.
\<close>

lemma vote_new_fields:
  assumes "vote_new blake sign key t duration hashes = Some v" and "duration \<le> DURATION_MAX"
  shows "duration_bits v = duration \<and> v_hashes v = hashes
    \<and> (is_final v \<longleftrightarrow> TIMESTAMP_MAX \<le> t \<and> duration = DURATION_MAX)
    \<and> (\<not> is_final v \<longrightarrow> vote_timestamp v = t AND TIMESTAMP_MASK)"
proof -
  have v: "v_timestamp v = packed_timestamp t duration" "v_hashes v = hashes"
    using assms(1) by (auto simp: vote_new_def Let_def split: if_splits)
  show ?thesis
    using v and_mask_max_iff [of t] timestamp_parts [OF assms(2), of t] packed_is_final_iff [OF assms(2) v(1)]
    by (simp add: duration_bits_def vote_timestamp_def)
qed

lemma vote_new_final_is_final:
  assumes "vote_new_final blake sign key hashes = Some v"
  shows "is_final v"
  using vote_new_fields [OF assms [unfolded vote_new_final_def]] by simp

section \<open>Properties\<close>

text \<open>
  C32. The timestamp of a vote packs the time and the duration into one word without losing either:
  the duration is read back as given, the time with its low four bits cleared, and a vote is final
  exactly when it was made with the largest duration and a time that is not below the largest
  timestamp. It is serialized and read back unchanged.
\<close>

theorem vote_keeps_fields:
  assumes "vote_new blake sign key t duration hashes = Some v" and "duration \<le> DURATION_MAX"
  shows "duration_bits v = duration \<and> v_hashes v = hashes \<and>
    (is_final v \<longleftrightarrow> TIMESTAMP_MAX \<le> t \<and> duration = DURATION_MAX) \<and>
    (\<not> is_final v \<longrightarrow> vote_timestamp v = t AND TIMESTAMP_MASK) \<and>
    vote_deserialize (vote_serialize v) = Inr (v, [])"
proof -
  have "length (v_hashes v) \<le> MAX_HASHES"
    using assms(1) by (auto simp: vote_new_def Let_def split: if_splits)
  then show ?thesis
    using vote_new_fields [OF assms] vote_round_trip [of v] by simp
qed

theorem vote_keeps_fields_witness:
  "\<exists>v. vote_new (\<lambda>_. 0) (\<lambda>_. 0) 5 123456789 3 [1, 2] = Some v \<and> duration_bits v = 3 \<and> \<not> is_final v \<and>
     vote_timestamp v = 123456784 \<and> vote_deserialize (vote_serialize v) = Inr (v, [])"
proof -
  obtain v where v: "vote_new (\<lambda>_. 0) (\<lambda>_. 0) 5 123456789 3 [1, 2] = Some v"
    by (simp add: vote_new_def MAX_HASHES_def)
  have "(3 :: byte) \<le> DURATION_MAX" "(3 :: byte) \<noteq> DURATION_MAX" "(123456789 :: u64) AND TIMESTAMP_MASK = 123456784"
    by (simp_all add: DURATION_MAX_def TIMESTAMP_MASK_def)
  then show ?thesis
    using v vote_keeps_fields [OF v] by simp
qed

end
