(* ===== verification/Message_Header.thy ===== *)
theory Message_Header
  imports Votes
begin

text \<open>
  The header of every network message (\<open>messages/src/message_header.rs\<close>) and the network
  identifiers of \<open>core/src/lib.rs\<close>. The extension field is a \<open>BitArray<u16>\<close> in the
  crate's default order, bit 0 being the least significant one; indexing it and \<open>set\<close> are
  \<open>bit\<close> and \<open>ext_set\<close> on a \<open>16 word\<close>.
\<close>

datatype networks =
    NetInvalid
  | BananoDevNetwork
  | BananoBetaNetwork
  | BananoLiveNetwork
  | BananoTestNetwork

fun network_as_u16 :: "networks \<Rightarrow> u16" where
  "network_as_u16 NetInvalid = 0x0"
| "network_as_u16 BananoDevNetwork = 0x4241"
| "network_as_u16 BananoBetaNetwork = 0x4242"
| "network_as_u16 BananoLiveNetwork = 0x4258"
| "network_as_u16 BananoTestNetwork = 0x4243"

definition network_from_u16 :: "u16 \<Rightarrow> networks option" where
  "network_from_u16 v =
     (if v = 0x0 then Some NetInvalid
      else if v = 0x4241 then Some BananoDevNetwork
      else if v = 0x4242 then Some BananoBetaNetwork
      else if v = 0x4258 then Some BananoLiveNetwork
      else if v = 0x4243 then Some BananoTestNetwork
      else None)"

datatype message_type =
    MT_Invalid
  | MT_NotAType
  | MT_Keepalive
  | MT_Publish
  | MT_ConfirmReq
  | MT_ConfirmAck
  | MT_BulkPull
  | MT_BulkPush
  | MT_FrontierReq
  | MT_NodeIdHandshake
  | MT_BulkPullAccount
  | MT_TelemetryReq
  | MT_TelemetryAck
  | MT_AscPullReq
  | MT_AscPullAck

fun message_type_as_u8 :: "message_type \<Rightarrow> byte" where
  "message_type_as_u8 MT_Invalid = 0x0"
| "message_type_as_u8 MT_NotAType = 0x1"
| "message_type_as_u8 MT_Keepalive = 0x2"
| "message_type_as_u8 MT_Publish = 0x3"
| "message_type_as_u8 MT_ConfirmReq = 0x4"
| "message_type_as_u8 MT_ConfirmAck = 0x5"
| "message_type_as_u8 MT_BulkPull = 0x6"
| "message_type_as_u8 MT_BulkPush = 0x7"
| "message_type_as_u8 MT_FrontierReq = 0x8"
| "message_type_as_u8 MT_NodeIdHandshake = 0x0a"
| "message_type_as_u8 MT_BulkPullAccount = 0x0b"
| "message_type_as_u8 MT_TelemetryReq = 0x0c"
| "message_type_as_u8 MT_TelemetryAck = 0x0d"
| "message_type_as_u8 MT_AscPullReq = 0x0e"
| "message_type_as_u8 MT_AscPullAck = 0x0f"

definition message_type_from_u8 :: "byte \<Rightarrow> message_type option" where
  "message_type_from_u8 v =
     (if v = 0x0 then Some MT_Invalid
      else if v = 0x1 then Some MT_NotAType
      else if v = 0x2 then Some MT_Keepalive
      else if v = 0x3 then Some MT_Publish
      else if v = 0x4 then Some MT_ConfirmReq
      else if v = 0x5 then Some MT_ConfirmAck
      else if v = 0x6 then Some MT_BulkPull
      else if v = 0x7 then Some MT_BulkPush
      else if v = 0x8 then Some MT_FrontierReq
      else if v = 0x0a then Some MT_NodeIdHandshake
      else if v = 0x0b then Some MT_BulkPullAccount
      else if v = 0x0c then Some MT_TelemetryReq
      else if v = 0x0d then Some MT_TelemetryAck
      else if v = 0x0e then Some MT_AscPullReq
      else if v = 0x0f then Some MT_AscPullAck
      else None)"

record protocol_info =
  pr_version_using :: byte
  pr_version_max :: byte
  pr_version_min :: byte
  pr_network :: networks

definition protocol_info_default :: protocol_info where
  "protocol_info_default =
     \<lparr>pr_version_using = 0x15, pr_version_max = 0x15, pr_version_min = 0x12, pr_network = BananoLiveNetwork\<rparr>"

record message_header =
  mh_message_type :: message_type
  mh_protocol :: protocol_info
  mh_extensions :: u16

definition message_header_new :: "message_type \<Rightarrow> protocol_info \<Rightarrow> message_header" where
  "message_header_new t p = \<lparr>mh_message_type = t, mh_protocol = p, mh_extensions = 0\<rparr>"

definition header_serialize :: "message_header \<Rightarrow> byte list" where
  "header_serialize h =
     to_be_bytes 2 (network_as_u16 (pr_network (mh_protocol h)))
     @ [pr_version_max (mh_protocol h), pr_version_using (mh_protocol h), pr_version_min (mh_protocol h),
        message_type_as_u8 (mh_message_type h)]
     @ to_le_bytes 2 (mh_extensions h)"

definition header_deserialize :: "message_header parser" where
  "header_deserialize =
     pbind (read_word_be 2) (\<lambda>n.
     pbind (pok_or (network_from_u16 n) UnknownNetwork) (\<lambda>network.
     pbind read_u8 (\<lambda>vmax.
     pbind read_u8 (\<lambda>vusing.
     pbind read_u8 (\<lambda>vmin.
     pbind read_u8 (\<lambda>t.
     pbind (pok_or (message_type_from_u8 t) UnknownMessageType) (\<lambda>mt.
     pbind (read_word_le 2) (\<lambda>ext.
     preturn \<lparr>mh_message_type = mt,
              mh_protocol = \<lparr>pr_version_using = vusing, pr_version_max = vmax, pr_version_min = vmin,
                             pr_network = network\<rparr>,
              mh_extensions = ext\<rparr>))))))))"

definition ext_set :: "nat \<Rightarrow> bool \<Rightarrow> u16 \<Rightarrow> u16" where
  "ext_set i b w = (if b then set_bit i w else unset_bit i w)"

definition header_serialized_size :: nat where
  "header_serialized_size = 8"

fun is_valid_message_type :: "message_type \<Rightarrow> bool" where
  "is_valid_message_type MT_Invalid = False"
| "is_valid_message_type MT_NotAType = False"
| "is_valid_message_type _ = True"

section \<open>The encoding\<close>

interpretation u16_be: fixed_codec "to_be_bytes 2 :: u16 \<Rightarrow> byte list" "read_word_be 2" 2
  by unfold_locales (simp_all add: read_word_be_to_be)

interpretation u16_le: fixed_codec "to_le_bytes 2 :: u16 \<Rightarrow> byte list" "read_word_le 2" 2
  by unfold_locales (simp_all add: read_word_le_to_le)

interpretation u32_be: fixed_codec "to_be_bytes 4 :: u32 \<Rightarrow> byte list" "read_word_be 4" 4
  by unfold_locales (simp_all add: read_word_be_to_be)

interpretation u32_le: fixed_codec "to_le_bytes 4 :: u32 \<Rightarrow> byte list" "read_word_le 4" 4
  by unfold_locales (simp_all add: read_word_le_to_le)

lemmas [codec_simps] =
  u16_be.pbind_de_ser u16_le.pbind_de_ser u32_be.pbind_de_ser u32_le.pbind_de_ser

lemma network_from_as_u16 [simp]: "network_from_u16 (network_as_u16 n) = Some n"
  by (cases n) (simp_all add: network_from_u16_def)

lemma message_type_from_as_u8 [simp]: "message_type_from_u8 (message_type_as_u8 t) = Some t"
  by (cases t) (simp_all add: message_type_from_u8_def)

interpretation header: fixed_codec header_serialize header_deserialize header_serialized_size
  by unfold_locales
    (simp_all add: header_serialize_def header_deserialize_def header_serialized_size_def codec_simps)

lemmas [codec_simps] = header.pbind_de_ser

text \<open>Every byte string that decodes is the encoding of what it decodes to.\<close>

lemma message_type_as_from_u8: "message_type_from_u8 v = Some t \<Longrightarrow> message_type_as_u8 t = v"
  by (auto simp: message_type_from_u8_def split: if_splits)

lemma network_as_from_u16: "network_from_u16 v = Some n \<Longrightarrow> network_as_u16 n = v"
  by (auto simp: network_from_u16_def split: if_splits)

lemma bit_ext_set [simp]: "bit (ext_set i b w) j \<longleftrightarrow> (if i = j then b \<and> j < 16 else bit w j)"
  by (auto simp: ext_set_def bit_simps dest: bit_imp_le_length)

end
