(* ===== verification/Live_Messages.thy ===== *)
theory Live_Messages
  imports Message_Header
begin

text \<open>
  The messages of live operation: \<open>keepalive.rs\<close>, \<open>publish.rs\<close>, \<open>confirm_req.rs\<close> and
  \<open>confirm_ack.rs\<close> of the messages crate. A decoder that returns \<open>None\<close> in the source fails
  with a parse error here.
\<close>

section \<open>Keepalive\<close>

text \<open>\<open>std::net::SocketAddrV6\<close>; the address is the 128-bit number of its octets.\<close>

record socket_addr =
  sa_ip :: u128
  sa_port :: u16
  sa_flowinfo :: u32
  sa_scope_id :: u32

record keepalive =
  ka_peers :: "socket_addr list"

definition peer_serialize :: "socket_addr \<Rightarrow> byte list" where
  "peer_serialize p = to_be_bytes 16 (sa_ip p) @ to_le_bytes 2 (sa_port p)"

definition peer_deserialize :: "socket_addr parser" where
  "peer_deserialize =
     pbind (read_word_be 16) (\<lambda>ip.
     pbind (read_word_le 2) (\<lambda>port.
     preturn \<lparr>sa_ip = ip, sa_port = port, sa_flowinfo = 0, sa_scope_id = 0\<rparr>))"

definition keepalive_serialize :: "keepalive \<Rightarrow> byte list" where
  "keepalive_serialize k = concat (map peer_serialize (ka_peers k))"

fun preplicate :: "nat \<Rightarrow> 'a parser \<Rightarrow> 'a list parser" where
  "preplicate 0 p = preturn []"
| "preplicate (Suc n) p = pbind p (\<lambda>x. pbind (preplicate n p) (\<lambda>xs. preturn (x # xs)))"

definition keepalive_deserialize :: "keepalive parser" where
  "keepalive_deserialize = pbind (preplicate 8 peer_deserialize) (\<lambda>ps. preturn \<lparr>ka_peers = ps\<rparr>)"

definition keepalive_serialized_size :: nat where
  "keepalive_serialized_size = 8 * (16 + 2)"

section \<open>Publish\<close>

record publish =
  pu_block :: block
  pu_digest :: u128
  pu_is_originator :: bool

definition ORIGINATOR_FLAG :: u16 where
  "ORIGINATOR_FLAG = push_bit 2 1"

text \<open>\<open>shift_left\<close> of the bit array moves the bits towards index 0.\<close>

definition publish_block_type :: "u16 \<Rightarrow> block_type" where
  "publish_block_type ext =
     (let value = drop_bit 8 (ext AND 0x0f00)
      in unwrap_or (if value < 256 then block_type_from_u8 (ucast value) else None) BT_Invalid)"

definition publish_serialize :: "publish \<Rightarrow> byte list" where
  "publish_serialize p = serialize_without_block_type (pu_block p)"

definition publish_header_extensions :: "publish \<Rightarrow> u16" where
  "publish_header_extensions p =
     (let flags = push_bit 8 (ucast (block_type_as_u8 (block_type (pu_block p))))
      in if pu_is_originator p then flags OR ORIGINATOR_FLAG else flags)"

definition publish_deserialize :: "blake2b \<Rightarrow> u16 \<Rightarrow> u128 \<Rightarrow> publish parser" where
  "publish_deserialize blake ext digest =
     pbind (deserialize_block_type blake (publish_block_type ext)) (\<lambda>b.
     preturn \<lparr>pu_block = b, pu_digest = digest, pu_is_originator = (ext AND ORIGINATOR_FLAG > 0)\<rparr>)"

definition publish_serialized_size :: "u16 \<Rightarrow> nat" where
  "publish_serialized_size ext = serialized_block_size (publish_block_type ext)"

section \<open>Confirm requests\<close>

record confirm_req =
  cr_roots_hashes :: "(block_hash \<times> root) list"

definition cr_block_type :: "u16 \<Rightarrow> block_type" where
  "cr_block_type ext =
     (let value = drop_bit 8 (ext AND 0x0f00)
      in unwrap_or (if value < 256 then block_type_from_u8 (ucast value) else None) BT_Invalid)"

definition cr_has_v2_flag :: "u16 \<Rightarrow> bool" where
  "cr_has_v2_flag ext \<longleftrightarrow> ext AND 1 = 1"

definition v1_count :: "u16 \<Rightarrow> byte" where
  "v1_count ext = ucast (drop_bit 12 (ext AND 0xf000))"

definition v2_count :: "u16 \<Rightarrow> byte" where
  "v2_count ext =
     (let left = drop_bit 12 (ext AND 0xf000);
          right = drop_bit 4 (ext AND 0x00f0)
      in ucast (push_bit 4 left OR right))"

definition cr_count :: "u16 \<Rightarrow> byte" where
  "cr_count ext = (if cr_has_v2_flag ext then v2_count ext else v1_count ext)"

definition split_count :: "byte \<Rightarrow> byte \<times> byte" where
  "split_count count = (drop_bit 4 count AND 0xf, count AND 0xf)"

definition count_bits :: "byte \<Rightarrow> u16" where
  "count_bits count =
     (if count < 16 then push_bit 12 (ucast count)
      else case split_count count of (left, right) \<Rightarrow>
        1 OR push_bit 12 (ucast left) OR push_bit 4 (ucast right))"

definition cr_header_extensions :: "confirm_req \<Rightarrow> u16" where
  "cr_header_extensions r =
     0 OR count_bits (of_nat (length (cr_roots_hashes r)))
     OR push_bit 8 (ucast (block_type_as_u8 BT_NotABlock))"

definition cr_serialize :: "confirm_req \<Rightarrow> byte list" where
  "cr_serialize r = concat (map (\<lambda>(h, rt). ser_u256 h @ ser_u256 rt) (cr_roots_hashes r))"

text \<open>The loop reads the announced number of pairs and keeps those that are not all zero.\<close>

fun read_roots :: "nat \<Rightarrow> (block_hash \<times> root) list parser" where
  "read_roots 0 = preturn []"
| "read_roots (Suc n) =
     pbind de_u256 (\<lambda>h.
     pbind de_u256 (\<lambda>rt.
     pbind (read_roots n) (\<lambda>rest.
     preturn (if h \<noteq> 0 \<or> rt \<noteq> 0 then (h, rt) # rest else rest))))"

definition deserialize_roots :: "u16 \<Rightarrow> (block_hash \<times> root) list parser" where
  "deserialize_roots ext =
     pbind (read_roots (unat (cr_count ext))) (\<lambda>rs.
     if rs = [] \<or> length rs \<noteq> unat (cr_count ext) then pfail InvalidPayload else preturn rs)"

definition cr_deserialize :: "u16 \<Rightarrow> confirm_req parser" where
  "cr_deserialize ext = pbind (deserialize_roots ext) (\<lambda>rs. preturn \<lparr>cr_roots_hashes = rs\<rparr>)"

definition cr_serialized_size :: "u16 \<Rightarrow> nat" where
  "cr_serialized_size ext =
     (let t = cr_block_type ext
      in if t \<noteq> BT_Invalid \<and> t \<noteq> BT_NotABlock then serialized_block_size t
         else if t = BT_NotABlock then unat (cr_count ext) * (32 + 32)
         else 0)"

section \<open>Confirm acknowledgements\<close>

record confirm_ack =
  ca_vote :: vote
  ca_is_rebroadcasted :: bool
  ca_digest :: u128

definition ca_serialize :: "confirm_ack \<Rightarrow> byte list" where
  "ca_serialize a = vote_serialize (ca_vote a)"

definition ca_header_extensions :: "confirm_ack \<Rightarrow> u16" where
  "ca_header_extensions a =
     ext_set 2 (ca_is_rebroadcasted a) (0 OR count_bits (of_nat (length (v_hashes (ca_vote a)))))"

definition ca_deserialize :: "u16 \<Rightarrow> u128 \<Rightarrow> confirm_ack parser" where
  "ca_deserialize ext digest =
     pbind vote_deserialize (\<lambda>v.
     preturn \<lparr>ca_vote = v, ca_is_rebroadcasted = bit ext 2, ca_digest = digest\<rparr>)"

definition ca_serialized_size :: "u16 \<Rightarrow> nat" where
  "ca_serialized_size ext = vote_serialized_size (unat (cr_count ext))"

section \<open>Sequences of equal items\<close>

lemma preplicate_round_trip:
  assumes "\<And>x rest. x \<in> set xs \<Longrightarrow> p (ser x @ rest) = Inr (x, rest)" and "length xs = n"
  shows "preplicate n p (concat (map ser xs) @ rest) = Inr (xs, rest)"
  using assms
proof (induction xs arbitrary: n)
  case (Cons x xs)
  have "preplicate (length xs) p (concat (map ser xs) @ rest) = Inr (xs, rest)"
    using Cons.prems by (intro Cons.IH) auto
  then show ?case
    using Cons.prems by (auto simp: pbind_def preturn_def)
qed (simp add: preturn_def)

lemma length_concat_map:
  assumes "\<And>x. x \<in> set xs \<Longrightarrow> length (f x) = n"
  shows "length (concat (map f xs)) = length xs * n"
  using assms by (induction xs) simp_all

section \<open>Round trips\<close>

definition peer_ok :: "socket_addr \<Rightarrow> bool" where
  "peer_ok p \<longleftrightarrow> sa_flowinfo p = 0 \<and> sa_scope_id p = 0"

lemma peer_round_trip: "peer_ok p \<Longrightarrow> peer_deserialize (peer_serialize p @ rest) = Inr (p, rest)"
  by (simp add: peer_ok_def peer_serialize_def peer_deserialize_def codec_simps)

lemma keepalive_round_trip:
  assumes "length (ka_peers k) = 8" and "\<forall>p \<in> set (ka_peers k). peer_ok p"
  shows "keepalive_deserialize (keepalive_serialize k @ rest) = Inr (k, rest)"
  using preplicate_round_trip [of "ka_peers k" peer_deserialize peer_serialize 8 rest] peer_round_trip assms
  by (simp add: keepalive_deserialize_def keepalive_serialize_def pbind_def preturn_def)

lemma length_keepalive:
  assumes "length (ka_peers k) = 8"
  shows "length (keepalive_serialize k) = keepalive_serialized_size"
  using assms length_concat_map [of "ka_peers k" peer_serialize 18]
  by (simp add: keepalive_serialize_def keepalive_serialized_size_def peer_serialize_def)

lemma publish_extensions:
  "publish_block_type (publish_header_extensions p) = block_type (pu_block p)"
  "publish_header_extensions p AND ORIGINATOR_FLAG > 0 \<longleftrightarrow> pu_is_originator p"
  using block_type_cases [of "pu_block p"]
  by (auto simp: publish_header_extensions_def publish_block_type_def ORIGINATOR_FLAG_def Let_def
      block_type_from_u8_def)

lemma publish_round_trip:
  assumes "block_hash_ok blake (pu_block p)"
  shows "publish_deserialize blake (publish_header_extensions p) d (publish_serialize p @ rest)
    = Inr (p\<lparr>pu_digest := d\<rparr>, rest)"
  using deserialize_block_type_round_trip [OF assms, of rest]
  by (simp add: publish_deserialize_def publish_serialize_def publish_extensions pbind_def preturn_def)

lemma length_publish:
  "length (publish_serialize p) = publish_serialized_size (publish_header_extensions p)"
  by (simp add: publish_serialize_def publish_serialized_size_def publish_extensions
      length_serialize_without_block_type)

text \<open>
  The number of entries survives the split into the bits of the two protocol versions, also
  next to the block type and the flag of rebroadcast votes.
\<close>

definition count_field :: "u16 \<Rightarrow> byte \<Rightarrow> bool" where
  "count_field ext c \<longleftrightarrow> (\<forall>n. n = 0 \<or> 4 \<le> n \<and> n < 8 \<or> 12 \<le> n \<longrightarrow> bit ext n = bit (count_bits c) n)"

lemma count_masks:
  "(0xf :: byte) = mask 4" "(0xf000 :: u16) = push_bit 12 (mask 4)" "(0x00f0 :: u16) = push_bit 4 (mask 4)"
  by (simp_all add: mask_eq_exp_minus_1)

lemma bit_count_bits:
  "bit (count_bits c) n \<longleftrightarrow>
     (if c < 16 then 12 \<le> n \<and> n < 16 \<and> bit c (n - 12)
      else n = 0 \<or> 12 \<le> n \<and> n < 16 \<and> bit c (n - 8) \<or> 4 \<le> n \<and> n < 8 \<and> bit c (n - 4))"
  by (auto simp: count_bits_def split_count_def count_masks bit_simps)

lemma small_count_bits: "c < 16 \<Longrightarrow> bit c n \<Longrightarrow> n < 4" for c :: byte
  using low_bits [of c n] by (simp add: word_less_nat_alt word_le_nat_alt)

lemma bit_v2_count:
  "bit (v2_count ext) n \<longleftrightarrow> (if n < 4 then bit ext (n + 4) else n < 8 \<and> bit ext (n + 8))"
  by (auto simp: v2_count_def count_masks bit_simps Let_def add.commute)

lemma cr_count_field:
  assumes "count_field ext c"
  shows "cr_count ext = c"
proof -
  have f: "bit ext n \<longleftrightarrow> bit (count_bits c) n" if "n = 0 \<or> 4 \<le> n \<and> n < 8 \<or> 12 \<le> n" for n
    using assms that unfolding count_field_def by blast
  have v2: "cr_has_v2_flag ext \<longleftrightarrow> bit ext 0"
    by (simp add: cr_has_v2_flag_def and_one_eq bit_0 odd_iff_mod_2_eq_one)
  show ?thesis
  proof (cases "c < 16")
    case True
    then have "\<not> cr_has_v2_flag ext"
      using f [of 0] by (simp add: v2 bit_count_bits)
    moreover have "v1_count ext = c"
      using f True small_count_bits [OF True]
      by (auto intro!: bit_word_eqI simp: v1_count_def count_masks bit_simps bit_count_bits)
    ultimately show ?thesis
      by (simp add: cr_count_def)
  next
    case False
    then have "cr_has_v2_flag ext"
      using f [of 0] by (simp add: v2 bit_count_bits)
    moreover have "v2_count ext = c"
    proof (rule bit_word_eqI)
      fix n
      assume n: "n < LENGTH(8)"
      show "bit (v2_count ext) n \<longleftrightarrow> bit c n"
      proof (cases "n < 4")
        case True
        then show ?thesis
          using f [of "n + 4"] False by (simp add: bit_v2_count bit_count_bits)
      next
        case upper: False
        then show ?thesis
          using f [of "n + 8"] False n by (simp add: bit_v2_count bit_count_bits)
      qed
    qed
    ultimately show ?thesis
      by (simp add: cr_count_def)
  qed
qed

lemma unat_of_length: "length xs \<le> 255 \<Longrightarrow> unat (of_nat (length xs) :: byte) = length xs"
  by (simp add: unat_of_nat)

lemma bit_cr_header_extensions:
  "bit (cr_header_extensions r) n \<longleftrightarrow> bit (count_bits (of_nat (length (cr_roots_hashes r)))) n \<or> n = 8"
proof -
  have "push_bit 8 (ucast (block_type_as_u8 BT_NotABlock)) = (2 ^ 8 :: u16)"
    by simp
  then show ?thesis
    unfolding cr_header_extensions_def by (auto simp only: bit_simps) (auto simp: possible_bit_def)
qed

lemma cr_extensions:
  assumes "length (cr_roots_hashes r) \<le> 255"
  shows "unat (cr_count (cr_header_extensions r)) = length (cr_roots_hashes r)"
    and "cr_block_type (cr_header_extensions r) = BT_NotABlock"
proof -
  let ?c = "of_nat (length (cr_roots_hashes r)) :: byte"
  have "count_field (cr_header_extensions r) ?c"
    by (auto simp: count_field_def bit_cr_header_extensions)
  then show "unat (cr_count (cr_header_extensions r)) = length (cr_roots_hashes r)"
    using cr_count_field unat_of_length [OF assms] by simp
  have "drop_bit 8 (cr_header_extensions r AND 0x0f00) = drop_bit 8 (cr_header_extensions r) AND mask 4"
    by (simp add: mask_eq_exp_minus_1)
  also have "\<dots> = 1"
    by (auto intro!: bit_word_eqI simp: bit_cr_header_extensions bit_simps bit_count_bits split: if_splits)
  finally have "drop_bit 8 (cr_header_extensions r AND 0x0f00) = 1" .
  then show "cr_block_type (cr_header_extensions r) = BT_NotABlock"
    by (simp add: cr_block_type_def block_type_from_u8_def)
qed

lemma read_roots_round_trip:
  assumes "\<forall>(h, rt) \<in> set rs. h \<noteq> 0 \<or> rt \<noteq> 0"
  shows "read_roots (length rs) (concat (map (\<lambda>(h, rt). ser_u256 h @ ser_u256 rt) rs) @ rest) = Inr (rs, rest)"
  using assms
proof (induction rs)
  case (Cons r rs)
  obtain h rt where r: "r = (h, rt)"
    by (cases r)
  from Cons show ?case
    by (auto simp: r codec_simps pbind_def [of "read_roots _"])
qed (simp add: preturn_def)

definition confirm_req_ok :: "confirm_req \<Rightarrow> bool" where
  "confirm_req_ok r \<longleftrightarrow> cr_roots_hashes r \<noteq> [] \<and> length (cr_roots_hashes r) \<le> 255
     \<and> (\<forall>(h, rt) \<in> set (cr_roots_hashes r). h \<noteq> 0 \<or> rt \<noteq> 0)"

lemma confirm_req_round_trip:
  assumes "confirm_req_ok r"
  shows "cr_deserialize (cr_header_extensions r) (cr_serialize r @ rest) = Inr (r, rest)"
proof -
  from assms have ok: "length (cr_roots_hashes r) \<le> 255" "cr_roots_hashes r \<noteq> []"
    "\<forall>(h, rt) \<in> set (cr_roots_hashes r). h \<noteq> 0 \<or> rt \<noteq> 0"
    by (simp_all add: confirm_req_ok_def)
  show ?thesis
    using read_roots_round_trip [OF ok(3), of rest] ok(2)
    by (simp add: cr_deserialize_def deserialize_roots_def cr_serialize_def cr_extensions(1) [OF ok(1)]
        pbind_def [of "read_roots _"] pbind_def [of "pbind _ _"] preturn_def)
qed

lemma length_confirm_req:
  assumes "length (cr_roots_hashes r) \<le> 255"
  shows "length (cr_serialize r) = cr_serialized_size (cr_header_extensions r)"
  using length_concat_map [of "cr_roots_hashes r" "\<lambda>(h, rt). ser_u256 h @ ser_u256 rt" 64] cr_extensions [OF assms]
  by (auto simp: cr_serialize_def cr_serialized_size_def Let_def)

lemma ca_extensions:
  assumes "length (v_hashes (ca_vote a)) \<le> 255"
  shows "unat (cr_count (ca_header_extensions a)) = length (v_hashes (ca_vote a))"
    and "bit (ca_header_extensions a) 2 \<longleftrightarrow> ca_is_rebroadcasted a"
proof -
  have "count_field (ca_header_extensions a) (of_nat (length (v_hashes (ca_vote a))))"
    by (auto simp: count_field_def ca_header_extensions_def)
  then show "unat (cr_count (ca_header_extensions a)) = length (v_hashes (ca_vote a))"
    using cr_count_field unat_of_length [OF assms] by simp
  show "bit (ca_header_extensions a) 2 \<longleftrightarrow> ca_is_rebroadcasted a"
    by (simp add: ca_header_extensions_def)
qed

lemma confirm_ack_round_trip:
  assumes "length (v_hashes (ca_vote a)) \<le> MAX_HASHES"
  shows "ca_deserialize (ca_header_extensions a) d (ca_serialize a) = Inr (a\<lparr>ca_digest := d\<rparr>, [])"
  using vote_round_trip [OF assms] ca_extensions(2) [of a] assms
  by (simp add: ca_deserialize_def ca_serialize_def pbind_def preturn_def MAX_HASHES_def)

lemma length_confirm_ack:
  assumes "length (v_hashes (ca_vote a)) \<le> MAX_HASHES"
  shows "length (ca_serialize a) = ca_serialized_size (ca_header_extensions a)"
  using ca_extensions(1) [of a] assms
  by (simp add: ca_serialize_def ca_serialized_size_def length_vote_serialize MAX_HASHES_def)

end
