(* ===== verification/Bootstrap_Messages.thy ===== *)
theory Bootstrap_Messages
  imports Live_Messages
begin

text \<open>
  The messages of the two bootstrap protocols: \<open>frontier_req.rs\<close>, \<open>bulk_pull.rs\<close> and
  \<open>bulk_pull_account.rs\<close> of the legacy protocol, \<open>asc_pull_req.rs\<close> and
  \<open>asc_pull_ack.rs\<close> of the ascending one.
\<close>

section \<open>Legacy requests\<close>

record frontier_req =
  fr_start :: account
  fr_age :: u32
  fr_count :: u32
  fr_only_confirmed :: bool

definition fr_serialize :: "frontier_req \<Rightarrow> byte list" where
  "fr_serialize r = ser_u256 (fr_start r) @ to_le_bytes 4 (fr_age r) @ to_le_bytes 4 (fr_count r)"

definition fr_header_extensions :: "frontier_req \<Rightarrow> u16" where
  "fr_header_extensions r = ext_set 1 (fr_only_confirmed r) 0"

definition fr_deserialize :: "u16 \<Rightarrow> frontier_req parser" where
  "fr_deserialize ext =
     pbind de_u256 (\<lambda>start.
     pbind (read_word_le 4) (\<lambda>age.
     pbind (read_word_le 4) (\<lambda>count.
     preturn \<lparr>fr_start = start, fr_age = age, fr_count = count, fr_only_confirmed = bit ext 1\<rparr>)))"

definition fr_serialized_size :: nat where
  "fr_serialized_size = 32 + 4 + 4"

record bulk_pull =
  bp_start :: u256
  bp_end :: block_hash
  bp_count :: u32
  bp_ascending :: bool

definition EXTENDED_PARAMETERS_SIZE :: nat where
  "EXTENDED_PARAMETERS_SIZE = 8"

definition bp_serialize :: "bulk_pull \<Rightarrow> byte list" where
  "bp_serialize b =
     ser_u256 (bp_start b) @ ser_u256 (bp_end b)
     @ (if bp_count b > 0 then 0 # to_le_bytes 4 (bp_count b) @ replicate 3 0 else [])"

definition bp_header_extensions :: "bulk_pull \<Rightarrow> u16" where
  "bp_header_extensions b = ext_set 1 (bp_ascending b) (ext_set 0 (bp_count b > 0) 0)"

definition bp_count_deserialize :: "u16 \<Rightarrow> u32 parser" where
  "bp_count_deserialize ext =
     (if bit ext 0 then
        pbind (read_bytes EXTENDED_PARAMETERS_SIZE) (\<lambda>buf.
        if buf ! 0 \<noteq> 0 then pfail InvalidPayload else preturn (from_le_bytes (take 4 (drop 1 buf))))
      else preturn 0)"

definition bp_deserialize :: "u16 \<Rightarrow> bulk_pull parser" where
  "bp_deserialize ext =
     pbind de_u256 (\<lambda>start.
     pbind de_u256 (\<lambda>end.
     pbind (bp_count_deserialize ext) (\<lambda>count.
     preturn \<lparr>bp_start = start, bp_end = end, bp_count = count, bp_ascending = bit ext 1\<rparr>)))"

definition bp_serialized_size :: "u16 \<Rightarrow> nat" where
  "bp_serialized_size ext = 32 + 32 + (if bit ext 0 then EXTENDED_PARAMETERS_SIZE else 0)"

datatype bulk_pull_account_flags =
    PendingHashAndAmount
  | PendingAddressOnly
  | PendingHashAmountAndAddress

fun bpa_flags_as_u8 :: "bulk_pull_account_flags \<Rightarrow> byte" where
  "bpa_flags_as_u8 PendingHashAndAmount = 0"
| "bpa_flags_as_u8 PendingAddressOnly = 1"
| "bpa_flags_as_u8 PendingHashAmountAndAddress = 2"

definition bpa_flags_from_u8 :: "byte \<Rightarrow> bulk_pull_account_flags option" where
  "bpa_flags_from_u8 v =
     (if v = 0 then Some PendingHashAndAmount
      else if v = 1 then Some PendingAddressOnly
      else if v = 2 then Some PendingHashAmountAndAddress
      else None)"

record bulk_pull_account =
  bpa_account :: account
  bpa_minimum_amount :: amount
  bpa_flags :: bulk_pull_account_flags

definition bpa_serialize :: "bulk_pull_account \<Rightarrow> byte list" where
  "bpa_serialize b =
     ser_u256 (bpa_account b) @ amount_serialize (bpa_minimum_amount b) @ [bpa_flags_as_u8 (bpa_flags b)]"

definition bpa_deserialize :: "bulk_pull_account parser" where
  "bpa_deserialize =
     pbind de_u256 (\<lambda>account.
     pbind amount_deserialize (\<lambda>minimum.
     pbind read_u8 (\<lambda>f.
     pbind (pok_or (bpa_flags_from_u8 f) InvalidPayload) (\<lambda>flags.
     preturn \<lparr>bpa_account = account, bpa_minimum_amount = minimum, bpa_flags = flags\<rparr>))))"

definition bpa_serialized_size :: nat where
  "bpa_serialized_size = 32 + 16 + 1"

section \<open>Ascending requests\<close>

datatype asc_pull_payload_id = PI_Blocks | PI_AccountInfo | PI_Frontiers

fun payload_id_as_u8 :: "asc_pull_payload_id \<Rightarrow> byte" where
  "payload_id_as_u8 PI_Blocks = 1"
| "payload_id_as_u8 PI_AccountInfo = 2"
| "payload_id_as_u8 PI_Frontiers = 3"

definition payload_id_from_u8 :: "byte \<Rightarrow> asc_pull_payload_id option" where
  "payload_id_from_u8 v =
     (if v = 1 then Some PI_Blocks
      else if v = 2 then Some PI_AccountInfo
      else if v = 3 then Some PI_Frontiers
      else None)"

datatype hash_type = HT_Account | HT_Block

fun hash_type_as_u8 :: "hash_type \<Rightarrow> byte" where
  "hash_type_as_u8 HT_Account = 0"
| "hash_type_as_u8 HT_Block = 1"

definition hash_type_from_u8 :: "byte \<Rightarrow> hash_type option" where
  "hash_type_from_u8 v = (if v = 0 then Some HT_Account else if v = 1 then Some HT_Block else None)"

definition hash_type_deserialize :: "hash_type parser" where
  "hash_type_deserialize = pbind read_u8 (\<lambda>v. pok_or (hash_type_from_u8 v) InvalidPayload)"

record blocks_req_payload =
  br_start_type :: hash_type
  br_start :: u256
  br_count :: byte

definition br_serialize :: "blocks_req_payload \<Rightarrow> byte list" where
  "br_serialize p = ser_u256 (br_start p) @ [br_count p, hash_type_as_u8 (br_start_type p)]"

definition br_deserialize :: "blocks_req_payload parser" where
  "br_deserialize =
     pbind de_u256 (\<lambda>start.
     pbind read_u8 (\<lambda>count.
     pbind hash_type_deserialize (\<lambda>t.
     preturn \<lparr>br_start_type = t, br_start = start, br_count = count\<rparr>)))"

record account_info_req_payload =
  air_target :: u256
  air_target_type :: hash_type

definition air_serialize :: "account_info_req_payload \<Rightarrow> byte list" where
  "air_serialize p = ser_u256 (air_target p) @ [hash_type_as_u8 (air_target_type p)]"

definition air_deserialize :: "account_info_req_payload parser" where
  "air_deserialize =
     pbind de_u256 (\<lambda>target.
     pbind hash_type_deserialize (\<lambda>t.
     preturn \<lparr>air_target = target, air_target_type = t\<rparr>))"

record frontiers_req_payload =
  frp_start :: account
  frp_count :: u16

definition frp_serialize :: "frontiers_req_payload \<Rightarrow> byte list" where
  "frp_serialize p = ser_u256 (frp_start p) @ to_be_bytes 2 (frp_count p)"

definition frp_deserialize :: "frontiers_req_payload parser" where
  "frp_deserialize =
     pbind de_u256 (\<lambda>start.
     pbind (read_word_be 2) (\<lambda>count.
     preturn \<lparr>frp_start = start, frp_count = count\<rparr>))"

datatype asc_pull_req_type =
    ReqBlocks blocks_req_payload
  | ReqAccountInfo account_info_req_payload
  | ReqFrontiers frontiers_req_payload

record asc_pull_req =
  apr_id :: u64
  apr_req_type :: asc_pull_req_type

fun apr_payload_type :: "asc_pull_req_type \<Rightarrow> asc_pull_payload_id" where
  "apr_payload_type (ReqBlocks _) = PI_Blocks"
| "apr_payload_type (ReqAccountInfo _) = PI_AccountInfo"
| "apr_payload_type (ReqFrontiers _) = PI_Frontiers"

fun apr_type_serialize :: "asc_pull_req_type \<Rightarrow> byte list" where
  "apr_type_serialize (ReqBlocks p) = br_serialize p"
| "apr_type_serialize (ReqAccountInfo p) = air_serialize p"
| "apr_type_serialize (ReqFrontiers p) = frp_serialize p"

definition apr_serialize :: "asc_pull_req \<Rightarrow> byte list" where
  "apr_serialize r =
     payload_id_as_u8 (apr_payload_type (apr_req_type r)) # to_be_bytes 8 (apr_id r)
     @ apr_type_serialize (apr_req_type r)"

definition apr_deserialize :: "asc_pull_req parser" where
  "apr_deserialize =
     pbind read_u8 (\<lambda>v.
     pbind (pok_or (payload_id_from_u8 v) InvalidPayload) (\<lambda>pull_type.
     pbind (read_word_be 8) (\<lambda>id.
     pbind (case pull_type of
              PI_Blocks \<Rightarrow> pmap ReqBlocks br_deserialize
            | PI_AccountInfo \<Rightarrow> pmap ReqAccountInfo air_deserialize
            | PI_Frontiers \<Rightarrow> pmap ReqFrontiers frp_deserialize) (\<lambda>t.
     preturn \<lparr>apr_id = id, apr_req_type = t\<rparr>))))"

text \<open>The payload length in the header counts neither the type nor the id.\<close>

definition asc_header_extensions :: "u16 \<Rightarrow> u16" where
  "asc_header_extensions payload_len = payload_len - 1 - 8"

definition asc_serialized_size :: "u16 \<Rightarrow> nat" where
  "asc_serialized_size ext = 1 + 8 + unat ext"

section \<open>Ascending responses\<close>

record frontier =
  fro_account :: account
  fro_hash :: block_hash

definition frontier_default :: frontier where
  "frontier_default = \<lparr>fro_account = 0, fro_hash = 0\<rparr>"

definition frontier_serialize :: "frontier \<Rightarrow> byte list" where
  "frontier_serialize f = ser_u256 (fro_account f) @ ser_u256 (fro_hash f)"

definition frontier_deserialize :: "frontier parser" where
  "frontier_deserialize =
     pbind de_u256 (\<lambda>a. pbind de_u256 (\<lambda>h. preturn \<lparr>fro_account = a, fro_hash = h\<rparr>))"

record account_info_ack_payload =
  aia_account :: account
  aia_open :: block_hash
  aia_head :: block_hash
  aia_block_count :: u64
  aia_conf_frontier :: block_hash
  aia_conf_height :: u64

definition aia_serialize :: "account_info_ack_payload \<Rightarrow> byte list" where
  "aia_serialize p =
     ser_u256 (aia_account p) @ ser_u256 (aia_open p) @ ser_u256 (aia_head p)
     @ to_be_bytes 8 (aia_block_count p) @ ser_u256 (aia_conf_frontier p) @ to_be_bytes 8 (aia_conf_height p)"

definition aia_deserialize :: "account_info_ack_payload parser" where
  "aia_deserialize =
     pbind de_u256 (\<lambda>a.
     pbind de_u256 (\<lambda>op.
     pbind de_u256 (\<lambda>hd.
     pbind (read_word_be 8) (\<lambda>count.
     pbind de_u256 (\<lambda>frontier.
     pbind (read_word_be 8) (\<lambda>height.
     preturn \<lparr>aia_account = a, aia_open = op, aia_head = hd, aia_block_count = count,
              aia_conf_frontier = frontier, aia_conf_height = height\<rparr>))))))"

definition MAX_BLOCKS :: nat where
  "MAX_BLOCKS = 128"

definition blocks_ack_serialize :: "block list \<Rightarrow> byte list" where
  "blocks_ack_serialize bs = concat (map block_serialize bs) @ [block_type_as_u8 BT_NotABlock]"

text \<open>
  \<open>while let Ok(current) = Block::deserialize(stream)\<close>: any error ends the list; a block
  beyond the maximum is an error. The argument is how many more blocks are allowed.
\<close>

fun read_blocks :: "blake2b \<Rightarrow> nat \<Rightarrow> byte list \<Rightarrow> parse_error + block list" where
  "read_blocks blake 0 bs =
     (case block_deserialize blake bs of Inl _ \<Rightarrow> Inr [] | Inr _ \<Rightarrow> Inl InvalidPayload)"
| "read_blocks blake (Suc n) bs =
     (case block_deserialize blake bs of
        Inl _ \<Rightarrow> Inr []
      | Inr (b, rest) \<Rightarrow> and_then (read_blocks blake n rest) (\<lambda>xs. Inr (b # xs)))"

definition MAX_FRONTIERS :: nat where
  "MAX_FRONTIERS = 1000"

definition frontiers_serialize :: "frontier list \<Rightarrow> byte list" where
  "frontiers_serialize fs = concat (map frontier_serialize fs) @ frontier_serialize frontier_default"

text \<open>The loop with the current frontier; the argument is how many more are allowed.\<close>

fun read_frontiers :: "nat \<Rightarrow> frontier \<Rightarrow> frontier list parser" where
  "read_frontiers 0 current = preturn []"
| "read_frontiers (Suc n) current =
     (if current \<noteq> frontier_default then
        pbind frontier_deserialize (\<lambda>next.
        pbind (read_frontiers n next) (\<lambda>fs.
        preturn (current # fs)))
      else preturn [])"

datatype asc_pull_ack_type =
    AckBlocks "block list"
  | AckAccountInfo account_info_ack_payload
  | AckFrontiers "frontier list"

record asc_pull_ack =
  apa_id :: u64
  apa_pull_type :: asc_pull_ack_type

fun apa_payload_type :: "asc_pull_ack_type \<Rightarrow> asc_pull_payload_id" where
  "apa_payload_type (AckBlocks _) = PI_Blocks"
| "apa_payload_type (AckAccountInfo _) = PI_AccountInfo"
| "apa_payload_type (AckFrontiers _) = PI_Frontiers"

fun serialize_pull_type :: "asc_pull_ack_type \<Rightarrow> byte list" where
  "serialize_pull_type (AckBlocks bs) = blocks_ack_serialize bs"
| "serialize_pull_type (AckAccountInfo p) = aia_serialize p"
| "serialize_pull_type (AckFrontiers fs) = frontiers_serialize fs"

definition apa_serialize :: "asc_pull_ack \<Rightarrow> byte list" where
  "apa_serialize a =
     payload_id_as_u8 (apa_payload_type (apa_pull_type a)) # to_be_bytes 8 (apa_id a)
     @ serialize_pull_type (apa_pull_type a)"

definition apa_type_deserialize :: "blake2b \<Rightarrow> asc_pull_payload_id \<Rightarrow> byte list \<Rightarrow> parse_error + asc_pull_ack_type" where
  "apa_type_deserialize blake pull_type bs =
     (case pull_type of
        PI_Blocks \<Rightarrow> and_then (read_blocks blake MAX_BLOCKS bs) (\<lambda>xs. Inr (AckBlocks xs))
      | PI_AccountInfo \<Rightarrow> and_then (aia_deserialize bs) (\<lambda>(p, _). Inr (AckAccountInfo p))
      | PI_Frontiers \<Rightarrow>
          and_then (pbind frontier_deserialize (read_frontiers MAX_FRONTIERS) bs) (\<lambda>(fs, _). Inr (AckFrontiers fs)))"

definition apa_deserialize :: "blake2b \<Rightarrow> byte list \<Rightarrow> parse_error + asc_pull_ack" where
  "apa_deserialize blake bs =
     and_then (pbind read_u8 (\<lambda>v.
                 pbind (pok_or (payload_id_from_u8 v) InvalidPayload) (\<lambda>t.
                 pbind (read_word_be 8) (\<lambda>id. preturn (t, id)))) bs)
       (\<lambda>((t, id), rest).
          and_then (apa_type_deserialize blake t rest) (\<lambda>x. Inr \<lparr>apa_id = id, apa_pull_type = x\<rparr>))"

section \<open>Round trips\<close>

lemma enum_round_trips [simp]:
  "bpa_flags_from_u8 (bpa_flags_as_u8 f) = Some f"
  "payload_id_from_u8 (payload_id_as_u8 i) = Some i"
  "hash_type_from_u8 (hash_type_as_u8 t) = Some t"
  by (cases f, simp_all add: bpa_flags_from_u8_def) (cases i, simp_all add: payload_id_from_u8_def,
      cases t, simp_all add: hash_type_from_u8_def)

lemma pbind_hash_type [codec_simps]: "pbind hash_type_deserialize f (hash_type_as_u8 t # rest) = f t rest"
  by (simp add: hash_type_deserialize_def pbind_def preturn_def)

lemma frontier_req_round_trip:
  "fr_deserialize (fr_header_extensions r) (fr_serialize r @ rest) = Inr (r, rest)"
  by (simp add: fr_deserialize_def fr_serialize_def fr_header_extensions_def codec_simps)

lemma length_frontier_req: "length (fr_serialize r) = fr_serialized_size"
  by (simp add: fr_serialize_def fr_serialized_size_def)

lemma bulk_pull_round_trip:
  "bp_deserialize (bp_header_extensions b) (bp_serialize b @ rest) = Inr (b, rest)"
proof (cases "bp_count b > 0")
  case True
  let ?buf = "0 # to_le_bytes 4 (bp_count b) @ replicate 3 0"
  have "read_bytes EXTENDED_PARAMETERS_SIZE (?buf @ rest) = Inr (?buf, rest)"
    by (rule read_bytes_append) (simp add: EXTENDED_PARAMETERS_SIZE_def)
  then have "bp_count_deserialize (bp_header_extensions b) (?buf @ rest) = Inr (bp_count b, rest)"
    using True by (simp add: bp_count_deserialize_def bp_header_extensions_def pbind_def preturn_def)
  with True show ?thesis
    by (simp add: bp_deserialize_def bp_serialize_def codec_simps pbind_def [of "bp_count_deserialize _"])
      (simp add: bp_header_extensions_def)
next
  case False
  then have "bp_count b = 0"
    by (simp add: word_gt_0)
  then show ?thesis
    by (simp add: bp_deserialize_def bp_serialize_def codec_simps bp_count_deserialize_def
        bp_header_extensions_def)
qed

lemma length_bulk_pull: "length (bp_serialize b) = bp_serialized_size (bp_header_extensions b)"
  by (simp add: bp_serialize_def bp_serialized_size_def bp_header_extensions_def EXTENDED_PARAMETERS_SIZE_def)

lemma bulk_pull_account_round_trip: "bpa_deserialize (bpa_serialize b @ rest) = Inr (b, rest)"
  by (simp add: bpa_deserialize_def bpa_serialize_def codec_simps)

lemma length_bulk_pull_account: "length (bpa_serialize b) = bpa_serialized_size"
  by (simp add: bpa_serialize_def bpa_serialized_size_def amount_serialize_def)

lemma req_payload_round_trips:
  "br_deserialize (br_serialize p1 @ rest) = Inr (p1, rest)"
  "air_deserialize (air_serialize p2 @ rest) = Inr (p2, rest)"
  "frp_deserialize (frp_serialize p3 @ rest) = Inr (p3, rest)"
  by (simp_all add: br_deserialize_def br_serialize_def air_deserialize_def air_serialize_def
      frp_deserialize_def frp_serialize_def codec_simps)

lemma pbind_Inr: "p bs = Inr (x, rest) \<Longrightarrow> pbind p f bs = f x rest"
  by (simp add: pbind_def)

lemma asc_pull_req_round_trip: "apr_deserialize (apr_serialize r @ rest) = Inr (r, rest)"
proof -
  let ?p = "case apr_payload_type (apr_req_type r) of
      PI_Blocks \<Rightarrow> pmap ReqBlocks br_deserialize
    | PI_AccountInfo \<Rightarrow> pmap ReqAccountInfo air_deserialize
    | PI_Frontiers \<Rightarrow> pmap ReqFrontiers frp_deserialize"
  have "?p (apr_type_serialize (apr_req_type r) @ rest) = Inr (apr_req_type r, rest)"
    by (cases "apr_req_type r") (simp_all add: pmap_pbind_de req_payload_round_trips)
  then show ?thesis
    by (simp add: apr_deserialize_def apr_serialize_def codec_simps pbind_Inr [of ?p])
qed

lemma frontier_codec: "frontier_deserialize (frontier_serialize f @ rest) = Inr (f, rest)"
  by (simp add: frontier_deserialize_def frontier_serialize_def codec_simps)

lemma read_frontiers_round_trip:
  assumes "length fs \<le> n" and "frontier_default \<notin> set fs"
  shows "pbind frontier_deserialize (read_frontiers n) (frontiers_serialize fs @ rest) = Inr (fs, rest)"
  using assms
proof (induction fs arbitrary: n)
  case Nil
  then show ?case
    by (cases n) (simp_all add: frontiers_serialize_def pbind_def frontier_codec preturn_def)
next
  case (Cons f fs)
  then obtain m where m: "n = Suc m" "length fs \<le> m"
    by (cases n) auto
  from Cons m have "pbind frontier_deserialize (read_frontiers m) (frontiers_serialize fs @ rest) = Inr (fs, rest)"
    by simp
  then show ?case
    using Cons.prems by (auto simp: m(1) frontiers_serialize_def pbind_def frontier_codec preturn_def)
qed

lemma read_blocks_round_trip:
  assumes "length bs \<le> n" and "\<forall>b \<in> set bs. block_hash_ok blake b"
  shows "read_blocks blake n (blocks_ack_serialize bs) = Inr bs"
  using assms
proof (induction bs arbitrary: n)
  case Nil
  have "block_deserialize blake (blocks_ack_serialize []) = Inl InvalidBlockType"
    by (simp add: blocks_ack_serialize_def block_deserialize_def codec_simps block_type_from_u8_def pfail_def)
  then show ?case
    by (cases n) simp_all
next
  case (Cons b bs)
  then obtain m where m: "n = Suc m" "length bs \<le> m"
    by (cases n) auto
  have "block_deserialize blake (blocks_ack_serialize (b # bs)) = Inr (b, blocks_ack_serialize bs)"
    using Cons.prems block_deserialize_serialize [of blake b "blocks_ack_serialize bs"]
    by (simp add: blocks_ack_serialize_def)
  then show ?case
    using Cons m by simp
qed

lemma aia_round_trip: "aia_deserialize (aia_serialize p @ rest) = Inr (p, rest)"
  by (simp add: aia_deserialize_def aia_serialize_def codec_simps)

fun pull_ack_ok :: "blake2b \<Rightarrow> asc_pull_ack_type \<Rightarrow> bool" where
  "pull_ack_ok blake (AckBlocks bs) \<longleftrightarrow> length bs \<le> MAX_BLOCKS \<and> (\<forall>b \<in> set bs. block_hash_ok blake b)"
| "pull_ack_ok blake (AckAccountInfo p) \<longleftrightarrow> True"
| "pull_ack_ok blake (AckFrontiers fs) \<longleftrightarrow> length fs \<le> MAX_FRONTIERS \<and> frontier_default \<notin> set fs"

lemma asc_pull_ack_round_trip:
  assumes "pull_ack_ok blake (apa_pull_type a)"
  shows "apa_deserialize blake (apa_serialize a) = Inr a"
proof -
  have "apa_type_deserialize blake (apa_payload_type (apa_pull_type a)) (serialize_pull_type (apa_pull_type a))
      = Inr (apa_pull_type a)"
    using assms aia_round_trip [of _ "[]"] read_frontiers_round_trip [of _ MAX_FRONTIERS "[]"]
    by (cases "apa_pull_type a") (auto simp: apa_type_deserialize_def read_blocks_round_trip)
  then show ?thesis
    by (simp add: apa_deserialize_def apa_serialize_def codec_simps)
qed

section \<open>Lengths\<close>

lemma length_apr: "length (apr_serialize r) \<le> 64" "9 \<le> length (apr_serialize r)"
  by (cases "apr_req_type r"; simp add: apr_serialize_def br_serialize_def air_serialize_def frp_serialize_def)+

lemma serialized_block_size_le: "serialized_block_size t \<le> 216"
  by (cases t) simp_all

lemma length_blocks_ack: "length (blocks_ack_serialize bs) \<le> 217 * length bs + 1"
proof (induction bs)
  case (Cons b bs)
  have "length (block_serialize b) \<le> 217"
    using serialized_block_size_le [of "block_type b"]
    by (simp add: block_serialize_def length_serialize_without_block_type)
  with Cons show ?case
    by (simp add: blocks_ack_serialize_def)
qed (simp add: blocks_ack_serialize_def)

lemma length_frontiers: "length (frontiers_serialize fs) = 64 * length fs + 64"
  by (induction fs) (simp_all add: frontiers_serialize_def frontier_serialize_def)

lemma length_apa:
  assumes "pull_ack_ok blake (apa_pull_type a)"
  shows "length (apa_serialize a) < 2 ^ 16" "9 \<le> length (apa_serialize a)"
proof -
  have "length (serialize_pull_type (apa_pull_type a)) < 65000"
  proof (cases "apa_pull_type a")
    case (AckBlocks bs)
    then show ?thesis
      using assms length_blocks_ack [of bs] by (simp add: MAX_BLOCKS_def)
  qed (use assms length_frontiers in \<open>auto simp: MAX_FRONTIERS_def aia_serialize_def\<close>)
  then show "length (apa_serialize a) < 2 ^ 16" "9 \<le> length (apa_serialize a)"
    by (simp_all add: apa_serialize_def)
qed

lemma asc_size:
  assumes "n < 2 ^ 16" and "9 \<le> n"
  shows "asc_serialized_size (asc_header_extensions (of_nat n)) = n"
proof -
  have e: "asc_header_extensions (of_nat n) = of_nat (n - 9)"
    using assms(2) by (simp add: asc_header_extensions_def of_nat_diff)
  have "unat (of_nat (n - 9) :: u16) = n - 9"
    using assms(1) by (simp add: unat_of_nat)
  then show ?thesis
    using assms(2) by (simp only: asc_serialized_size_def e)
qed

end
