(* ===== verification/Node_Messages.thy ===== *)
theory Node_Messages
  imports Bootstrap_Messages
begin

text \<open>
  The handshake (\<open>node_id_handshake.rs\<close>) and the telemetry (\<open>telemetry_ack.rs\<close>). Byte
  arrays of length 32 are lists of that length. A \<open>SystemTime\<close> is its distance from the
  Unix epoch in nanoseconds; the encoding has milliseconds. \<open>verify\<close> and \<open>sign\<close> are the
  Ed25519 operations on byte strings.
\<close>

section \<open>Handshake\<close>

record v2_payload =
  v2_salt :: "byte list"
  v2_genesis :: block_hash

record handshake_response =
  hr_node_id :: public_key
  hr_signature :: signature
  hr_v2 :: "v2_payload option"

definition data_to_sign :: "handshake_response \<Rightarrow> byte list \<Rightarrow> byte list" where
  "data_to_sign r cookie =
     (case hr_v2 r of
        Some v2 \<Rightarrow> cookie @ v2_salt v2 @ ser_u256 (v2_genesis v2)
      | None \<Rightarrow> cookie)"

definition response_validate ::
  "(public_key \<Rightarrow> byte list \<Rightarrow> signature \<Rightarrow> bool) \<Rightarrow> handshake_response \<Rightarrow> byte list \<Rightarrow> bool" where
  "response_validate verify r cookie = verify (hr_node_id r) (data_to_sign r cookie) (hr_signature r)"

definition response_sign :: "(byte list \<Rightarrow> signature) \<Rightarrow> byte list \<Rightarrow> handshake_response \<Rightarrow> handshake_response" where
  "response_sign sign cookie r = r\<lparr>hr_signature := sign (data_to_sign r cookie)\<rparr>"

definition response_new_v1 :: "(byte list \<Rightarrow> signature) \<Rightarrow> public_key \<Rightarrow> byte list \<Rightarrow> handshake_response" where
  "response_new_v1 sign node_id cookie =
     response_sign sign cookie \<lparr>hr_node_id = node_id, hr_signature = 0, hr_v2 = None\<rparr>"

definition response_new_v2 ::
  "(byte list \<Rightarrow> signature) \<Rightarrow> public_key \<Rightarrow> byte list \<Rightarrow> byte list \<Rightarrow> block_hash \<Rightarrow> handshake_response" where
  "response_new_v2 sign node_id cookie salt genesis =
     response_sign sign cookie \<lparr>hr_node_id = node_id, hr_signature = 0,
       hr_v2 = Some \<lparr>v2_salt = salt, v2_genesis = genesis\<rparr>\<rparr>"

definition response_serialize :: "handshake_response \<Rightarrow> byte list" where
  "response_serialize r =
     (case hr_v2 r of
        Some v2 \<Rightarrow> ser_u256 (hr_node_id r) @ v2_salt v2 @ ser_u256 (v2_genesis v2) @ ser_signature (hr_signature r)
      | None \<Rightarrow> ser_u256 (hr_node_id r) @ ser_signature (hr_signature r))"

definition hs_is_query :: "u16 \<Rightarrow> bool" where
  "hs_is_query ext = bit ext 0"

definition hs_is_response :: "u16 \<Rightarrow> bool" where
  "hs_is_response ext = bit ext 1"

definition hs_has_v2_flag :: "u16 \<Rightarrow> bool" where
  "hs_has_v2_flag ext = bit ext 2"

definition response_deserialize :: "u16 \<Rightarrow> handshake_response parser" where
  "response_deserialize ext =
     (if hs_has_v2_flag ext then
        pbind de_u256 (\<lambda>node_id.
        pbind (read_bytes 32) (\<lambda>salt.
        pbind de_u256 (\<lambda>genesis.
        pbind de_signature (\<lambda>sig.
        preturn \<lparr>hr_node_id = node_id, hr_signature = sig,
                 hr_v2 = Some \<lparr>v2_salt = salt, v2_genesis = genesis\<rparr>\<rparr>))))
      else
        pbind de_u256 (\<lambda>node_id.
        pbind de_signature (\<lambda>sig.
        preturn \<lparr>hr_node_id = node_id, hr_signature = sig, hr_v2 = None\<rparr>)))"

definition response_serialized_size :: "u16 \<Rightarrow> nat" where
  "response_serialized_size ext = (if hs_has_v2_flag ext then 32 + 32 + 32 + 64 else 32 + 64)"

record node_id_handshake =
  hs_query :: "byte list option"
  hs_response :: "handshake_response option"
  hs_is_v2 :: bool

definition hs_serialize :: "node_id_handshake \<Rightarrow> byte list" where
  "hs_serialize h =
     (case hs_query h of Some cookie \<Rightarrow> cookie | None \<Rightarrow> [])
     @ (case hs_response h of Some r \<Rightarrow> response_serialize r | None \<Rightarrow> [])"

definition hs_header_extensions :: "node_id_handshake \<Rightarrow> u16" where
  "hs_header_extensions h =
     ext_set 2 (hs_is_v2 h) (ext_set 1 (hs_response h \<noteq> None) (ext_set 0 (hs_query h \<noteq> None) 0))"

definition hs_deserialize :: "u16 \<Rightarrow> node_id_handshake parser" where
  "hs_deserialize ext =
     pbind (if hs_is_query ext then pmap Some (read_bytes 32) else preturn None) (\<lambda>query.
     pbind (if hs_is_response ext then pmap Some (response_deserialize ext) else preturn None) (\<lambda>response.
     preturn \<lparr>hs_query = query, hs_response = response, hs_is_v2 = hs_has_v2_flag ext\<rparr>))"

definition hs_serialized_size :: "u16 \<Rightarrow> nat" where
  "hs_serialized_size ext =
     (if hs_is_query ext then 32 else 0) + (if hs_is_response ext then response_serialized_size ext else 0)"

section \<open>Telemetry\<close>

record telemetry_data =
  td_signature :: signature
  td_node_id :: public_key
  td_block_count :: u64
  td_cemented_count :: u64
  td_unchecked_count :: u64
  td_account_count :: u64
  td_bandwidth_cap :: u64
  td_uptime :: u64
  td_peer_count :: u32
  td_protocol_version :: byte
  td_genesis_block :: block_hash
  td_major_version :: byte
  td_minor_version :: byte
  td_patch_version :: byte
  td_pre_release_version :: byte
  td_maker :: byte
  td_timestamp :: nat
  td_active_difficulty :: u64
  td_unknown_data :: "byte list"

definition known_data_size :: nat where
  "known_data_size =
     64 + 32 + 8 + 8 + 8 + 8 + 8 + 4 + 1 + 8 + 32 + 1 + 1 + 1 + 1 + 1 + 8 + 8"

definition serialize_without_signature :: "telemetry_data \<Rightarrow> byte list" where
  "serialize_without_signature d =
     ser_u256 (td_node_id d)
     @ to_be_bytes 8 (td_block_count d)
     @ to_be_bytes 8 (td_cemented_count d)
     @ to_be_bytes 8 (td_unchecked_count d)
     @ to_be_bytes 8 (td_account_count d)
     @ to_be_bytes 8 (td_bandwidth_cap d)
     @ to_be_bytes 4 (td_peer_count d)
     @ [td_protocol_version d]
     @ to_be_bytes 8 (td_uptime d)
     @ ser_u256 (td_genesis_block d)
     @ [td_major_version d, td_minor_version d, td_patch_version d, td_pre_release_version d, td_maker d]
     @ to_be_bytes 8 (word_of_nat (td_timestamp d div 10 ^ 6) :: u64)
     @ to_be_bytes 8 (td_active_difficulty d)
     @ td_unknown_data d"

definition unknown_data_deserialize :: "nat \<Rightarrow> byte list parser" where
  "unknown_data_deserialize payload_len =
     (if payload_len > known_data_size then read_bytes (payload_len - known_data_size) else preturn [])"

definition telemetry_deserialize :: "nat \<Rightarrow> telemetry_data parser" where
  "telemetry_deserialize payload_len =
     pbind de_signature (\<lambda>sig.
     pbind de_u256 (\<lambda>node_id.
     pbind (read_word_be 8) (\<lambda>block_count.
     pbind (read_word_be 8) (\<lambda>cemented_count.
     pbind (read_word_be 8) (\<lambda>unchecked_count.
     pbind (read_word_be 8) (\<lambda>account_count.
     pbind (read_word_be 8) (\<lambda>bandwidth_cap.
     pbind (read_word_be 4) (\<lambda>peer_count.
     pbind read_u8 (\<lambda>protocol_version.
     pbind (read_word_be 8) (\<lambda>uptime.
     pbind de_u256 (\<lambda>genesis_block.
     pbind read_u8 (\<lambda>major.
     pbind read_u8 (\<lambda>minor.
     pbind read_u8 (\<lambda>patch.
     pbind read_u8 (\<lambda>pre_release.
     pbind read_u8 (\<lambda>maker.
     pbind (read_word_be 8) (\<lambda>timestamp_ms.
     pbind (read_word_be 8) (\<lambda>active_difficulty.
     pbind (unknown_data_deserialize payload_len) (\<lambda>unknown.
     preturn \<lparr>td_signature = sig, td_node_id = node_id, td_block_count = block_count,
              td_cemented_count = cemented_count, td_unchecked_count = unchecked_count,
              td_account_count = account_count, td_bandwidth_cap = bandwidth_cap, td_uptime = uptime,
              td_peer_count = peer_count, td_protocol_version = protocol_version,
              td_genesis_block = genesis_block, td_major_version = major, td_minor_version = minor,
              td_patch_version = patch, td_pre_release_version = pre_release, td_maker = maker,
              td_timestamp = unat (timestamp_ms :: u64) * 10 ^ 6, td_active_difficulty = active_difficulty,
              td_unknown_data = unknown\<rparr>)))))))))))))))))))"

definition telemetry_sign :: "(byte list \<Rightarrow> signature) \<Rightarrow> telemetry_data \<Rightarrow> telemetry_data" where
  "telemetry_sign sign d = d\<lparr>td_signature := sign (serialize_without_signature d)\<rparr>"

definition validate_signature ::
  "(public_key \<Rightarrow> byte list \<Rightarrow> signature \<Rightarrow> bool) \<Rightarrow> telemetry_data \<Rightarrow> bool" where
  "validate_signature verify d = verify (td_node_id d) (serialize_without_signature d) (td_signature d)"

type_synonym telemetry_ack = "telemetry_data option"

definition ta_serialize :: "telemetry_ack \<Rightarrow> byte list" where
  "ta_serialize t =
     (case t of
        Some d \<Rightarrow> ser_signature (td_signature d) @ serialize_without_signature d
      | None \<Rightarrow> [])"

definition ta_header_extensions :: "telemetry_ack \<Rightarrow> u16" where
  "ta_header_extensions t =
     (case t of
        Some d \<Rightarrow> word_of_nat known_data_size + word_of_nat (length (td_unknown_data d))
      | None \<Rightarrow> 0)"

definition ta_serialized_size :: "u16 \<Rightarrow> nat" where
  "ta_serialized_size ext = unat (ext AND 0x3ff)"

definition ta_deserialize :: "u16 \<Rightarrow> telemetry_ack parser" where
  "ta_deserialize ext =
     (let payload_length = ta_serialized_size ext
      in if payload_length = 0 then preturn None
         else pmap Some (telemetry_deserialize payload_length))"

section \<open>Round trips\<close>

definition handshake_ok :: "node_id_handshake \<Rightarrow> bool" where
  "handshake_ok h \<longleftrightarrow>
     (\<forall>cookie. hs_query h = Some cookie \<longrightarrow> length cookie = 32)
     \<and> (\<forall>r. hs_response h = Some r \<longrightarrow> (hr_v2 r \<noteq> None \<longleftrightarrow> hs_is_v2 h))
     \<and> (\<forall>r v2. hs_response h = Some r \<longrightarrow> hr_v2 r = Some v2 \<longrightarrow> length (v2_salt v2) = 32)"

lemma hs_extension_bits [simp]:
  "hs_is_query (hs_header_extensions h) \<longleftrightarrow> hs_query h \<noteq> None"
  "hs_is_response (hs_header_extensions h) \<longleftrightarrow> hs_response h \<noteq> None"
  "hs_has_v2_flag (hs_header_extensions h) \<longleftrightarrow> hs_is_v2 h"
  by (simp_all add: hs_is_query_def hs_is_response_def hs_has_v2_flag_def hs_header_extensions_def)

lemma pbind_read_bytes: "length bs = n \<Longrightarrow> pbind (read_bytes n) f (bs @ rest) = f bs rest"
  by (simp add: pbind_def)

lemma response_round_trip:
  assumes "hr_v2 r \<noteq> None \<longleftrightarrow> hs_has_v2_flag ext" and "\<forall>v2. hr_v2 r = Some v2 \<longrightarrow> length (v2_salt v2) = 32"
  shows "response_deserialize ext (response_serialize r @ rest) = Inr (r, rest)"
  using assms
  by (cases "hr_v2 r")
    (simp_all add: response_deserialize_def response_serialize_def codec_simps pbind_read_bytes)

lemma handshake_round_trip:
  assumes "handshake_ok h"
  shows "hs_deserialize (hs_header_extensions h) (hs_serialize h @ rest) = Inr (h, rest)"
proof -
  let ?e = "hs_header_extensions h"
  have "(if hs_is_response ?e then pmap Some (response_deserialize ?e) else preturn None)
      ((case hs_response h of Some r \<Rightarrow> response_serialize r | None \<Rightarrow> []) @ rest) = Inr (hs_response h, rest)"
    using assms response_round_trip [of _ ?e rest]
    by (cases "hs_response h") (auto simp: handshake_ok_def preturn_def intro!: pmap_pbind_de)
  moreover have "(if hs_is_query ?e then pmap Some (read_bytes 32) else preturn None)
      ((case hs_query h of Some cookie \<Rightarrow> cookie | None \<Rightarrow> []) @ s) = Inr (hs_query h, s)" for s
    using assms by (cases "hs_query h") (auto simp: handshake_ok_def preturn_def intro!: pmap_pbind_de)
  ultimately show ?thesis
    by (simp add: hs_deserialize_def hs_serialize_def pbind_Inr preturn_def)
qed

lemma length_handshake:
  assumes "handshake_ok h"
  shows "length (hs_serialize h) = hs_serialized_size (hs_header_extensions h)"
  using assms
  by (auto simp: hs_serialize_def hs_serialized_size_def response_serialize_def response_serialized_size_def
      handshake_ok_def split: option.splits)

text \<open>
  The header has room for 1023 bytes, so at most 821 bytes of unknown data; the time is kept
  in whole milliseconds.
\<close>

definition telemetry_ok :: "telemetry_data \<Rightarrow> bool" where
  "telemetry_ok d \<longleftrightarrow> length (td_unknown_data d) \<le> 821 \<and> 10 ^ 6 dvd td_timestamp d
     \<and> td_timestamp d div 10 ^ 6 < 2 ^ 64"

lemma telemetry_round_trip:
  assumes "telemetry_ok d" and "n = known_data_size + length (td_unknown_data d)"
  shows "telemetry_deserialize n (ser_signature (td_signature d) @ serialize_without_signature d @ rest) = Inr (d, rest)"
proof -
  have ms: "unat (word_of_nat (td_timestamp d div 10 ^ 6) :: u64) * 10 ^ 6 = td_timestamp d"
    using assms(1) by (simp add: telemetry_ok_def unat_of_nat)
  have u: "unknown_data_deserialize n (td_unknown_data d @ rest) = Inr (td_unknown_data d, rest)"
    by (auto simp: unknown_data_deserialize_def assms(2) preturn_def)
  show ?thesis
    by (simp add: telemetry_deserialize_def serialize_without_signature_def codec_simps pbind_Inr [of "unknown_data_deserialize n", OF u])
      (use ms in simp)
qed

lemma ta_size_data:
  assumes "telemetry_ok d"
  shows "ta_serialized_size (ta_header_extensions (Some d)) = known_data_size + length (td_unknown_data d)"
proof -
  let ?n = "known_data_size + length (td_unknown_data d)"
  have n: "?n < 2 ^ 10"
    using assms by (simp add: telemetry_ok_def known_data_size_def)
  have "ta_header_extensions (Some d) = word_of_nat ?n"
    by (simp add: ta_header_extensions_def)
  moreover have "(word_of_nat ?n :: u16) AND 0x3ff = take_bit 10 (word_of_nat ?n)"
    by (simp add: take_bit_eq_mask mask_eq_exp_minus_1)
  moreover have "unat (take_bit 10 (word_of_nat m :: u16)) = m" if "m < 2 ^ 10" for m
    using that by (simp add: unsigned_take_bit_eq unat_of_nat take_bit_nat_eq_self)
  note this [OF n]
  ultimately show ?thesis
    by (simp only: ta_serialized_size_def)
qed

lemma telemetry_ack_round_trip:
  assumes "\<forall>d. t = Some d \<longrightarrow> telemetry_ok d"
  shows "ta_deserialize (ta_header_extensions t) (ta_serialize t @ rest) = Inr (t, rest)"
proof (cases t)
  case None
  then show ?thesis
    by (simp add: ta_deserialize_def ta_serialized_size_def ta_header_extensions_def ta_serialize_def preturn_def)
next
  case (Some d)
  then have ok: "telemetry_ok d"
    using assms by simp
  from telemetry_round_trip [OF ok refl, of rest] show ?thesis
    unfolding Some ta_deserialize_def ta_size_data [OF ok] Let_def
    by (simp add: ta_serialize_def pmap_pbind_de known_data_size_def)
qed

lemma length_telemetry_ack:
  assumes "\<forall>d. t = Some d \<longrightarrow> telemetry_ok d"
  shows "length (ta_serialize t) = ta_serialized_size (ta_header_extensions t)"
proof (cases t)
  case None
  then show ?thesis
    by (simp add: ta_serialized_size_def ta_header_extensions_def ta_serialize_def)
next
  case (Some d)
  then show ?thesis
    using assms ta_size_data [of d]
    by (simp add: ta_serialize_def serialize_without_signature_def known_data_size_def)
qed

text \<open>A signed response or telemetry message validates, if the signature scheme is correct.\<close>

lemma response_sign_validate:
  assumes "\<forall>m. verify key m (sign m)"
  shows "response_validate verify (response_new_v1 sign key cookie) cookie"
    and "response_validate verify (response_new_v2 sign key cookie salt genesis) cookie"
  using assms
  by (simp_all add: response_validate_def response_new_v1_def response_new_v2_def response_sign_def
      data_to_sign_def)

lemma telemetry_sign_validate:
  assumes "\<forall>m. verify (td_node_id d) m (sign m)"
  shows "validate_signature verify (telemetry_sign sign d)"
  using assms by (simp add: validate_signature_def telemetry_sign_def serialize_without_signature_def)

end
