(* ===== verification/Messages.thy ===== *)
theory Messages
  imports Node_Messages
begin

text \<open>
  All messages together (\<open>message.rs\<close>, \<open>message_serializer.rs\<close>, \<open>lib.rs\<close> of the messages
  crate, and \<open>MessageHeader::payload_length\<close>): the enum \<open>Message\<close> with its dispatch, the
  check of a received header, and the serializer that writes a message and then its header
  into a buffer of fixed size.
\<close>

datatype message =
    Keepalive keepalive
  | Publish publish
  | AscPullAck asc_pull_ack
  | AscPullReq asc_pull_req
  | BulkPull bulk_pull
  | BulkPullAccount bulk_pull_account
  | BulkPush
  | ConfirmAck confirm_ack
  | ConfirmReq confirm_req
  | FrontierReq frontier_req
  | NodeIdHandshake node_id_handshake
  | TelemetryAck telemetry_ack
  | TelemetryReq

datatype parse_message_error =
    PM_Other
  | PM_InsufficientWork
  | PM_InvalidHeader
  | PM_InvalidMessageType
  | PM_InvalidMessage message_type
  | PM_InvalidNetwork
  | PM_OutdatedVersion
  | PM_DuplicatePublishMessage
  | PM_DuplicateConfirmAckMessage
  | PM_MessageSizeTooBig
  | PM_Stopped

definition MAX_MESSAGE_SIZE :: nat where
  "MAX_MESSAGE_SIZE = 1024 * 65"

fun message_type :: "message \<Rightarrow> message_type" where
  "message_type (Keepalive _) = MT_Keepalive"
| "message_type (Publish _) = MT_Publish"
| "message_type (AscPullAck _) = MT_AscPullAck"
| "message_type (AscPullReq _) = MT_AscPullReq"
| "message_type (BulkPull _) = MT_BulkPull"
| "message_type (BulkPullAccount _) = MT_BulkPullAccount"
| "message_type BulkPush = MT_BulkPush"
| "message_type (ConfirmAck _) = MT_ConfirmAck"
| "message_type (ConfirmReq _) = MT_ConfirmReq"
| "message_type (FrontierReq _) = MT_FrontierReq"
| "message_type (NodeIdHandshake _) = MT_NodeIdHandshake"
| "message_type (TelemetryAck _) = MT_TelemetryAck"
| "message_type TelemetryReq = MT_TelemetryReq"

fun message_serialize :: "message \<Rightarrow> byte list" where
  "message_serialize (Keepalive x) = keepalive_serialize x"
| "message_serialize (Publish x) = publish_serialize x"
| "message_serialize (AscPullAck x) = apa_serialize x"
| "message_serialize (AscPullReq x) = apr_serialize x"
| "message_serialize (BulkPull x) = bp_serialize x"
| "message_serialize (BulkPullAccount x) = bpa_serialize x"
| "message_serialize BulkPush = []"
| "message_serialize (ConfirmAck x) = ca_serialize x"
| "message_serialize (ConfirmReq x) = cr_serialize x"
| "message_serialize (FrontierReq x) = fr_serialize x"
| "message_serialize (NodeIdHandshake x) = hs_serialize x"
| "message_serialize (TelemetryAck x) = ta_serialize x"
| "message_serialize TelemetryReq = []"

fun header_extensions :: "message \<Rightarrow> u16 \<Rightarrow> u16" where
  "header_extensions (Publish x) n = publish_header_extensions x"
| "header_extensions (AscPullAck x) n = asc_header_extensions n"
| "header_extensions (AscPullReq x) n = asc_header_extensions n"
| "header_extensions (BulkPull x) n = bp_header_extensions x"
| "header_extensions (ConfirmAck x) n = ca_header_extensions x"
| "header_extensions (ConfirmReq x) n = cr_header_extensions x"
| "header_extensions (FrontierReq x) n = fr_header_extensions x"
| "header_extensions (NodeIdHandshake x) n = hs_header_extensions x"
| "header_extensions (TelemetryAck x) n = ta_header_extensions x"
| "header_extensions _ n = 0"

text \<open>\<open>.ok()?\<close>: a parse error is no message.\<close>

definition parsed :: "('a \<Rightarrow> message) \<Rightarrow> parse_error + 'a \<times> byte list \<Rightarrow> message option" where
  "parsed f r = (case r of Inl _ \<Rightarrow> None | Inr (x, _) \<Rightarrow> Some (f x))"

definition message_deserialize ::
  "blake2b \<Rightarrow> byte list \<Rightarrow> message_header \<Rightarrow> u128 \<Rightarrow> message option" where
  "message_deserialize blake bs h digest =
     (case mh_message_type h of
        MT_Keepalive \<Rightarrow> parsed Keepalive (keepalive_deserialize bs)
      | MT_Publish \<Rightarrow> parsed Publish (publish_deserialize blake (mh_extensions h) digest bs)
      | MT_AscPullAck \<Rightarrow> (case apa_deserialize blake bs of Inl _ \<Rightarrow> None | Inr x \<Rightarrow> Some (AscPullAck x))
      | MT_AscPullReq \<Rightarrow> parsed AscPullReq (apr_deserialize bs)
      | MT_BulkPull \<Rightarrow> parsed BulkPull (bp_deserialize (mh_extensions h) bs)
      | MT_BulkPullAccount \<Rightarrow> parsed BulkPullAccount (bpa_deserialize bs)
      | MT_BulkPush \<Rightarrow> Some BulkPush
      | MT_ConfirmAck \<Rightarrow> parsed ConfirmAck (ca_deserialize (mh_extensions h) digest bs)
      | MT_ConfirmReq \<Rightarrow> parsed ConfirmReq (cr_deserialize (mh_extensions h) bs)
      | MT_FrontierReq \<Rightarrow> parsed FrontierReq (fr_deserialize (mh_extensions h) bs)
      | MT_NodeIdHandshake \<Rightarrow> parsed NodeIdHandshake (hs_deserialize (mh_extensions h) bs)
      | MT_TelemetryAck \<Rightarrow> parsed TelemetryAck (ta_deserialize (mh_extensions h) bs)
      | MT_TelemetryReq \<Rightarrow> Some TelemetryReq
      | MT_Invalid \<Rightarrow> None
      | MT_NotAType \<Rightarrow> None)"

definition payload_length :: "message_header \<Rightarrow> nat" where
  "payload_length h =
     (let ext = mh_extensions h
      in case mh_message_type h of
        MT_Keepalive \<Rightarrow> keepalive_serialized_size
      | MT_Publish \<Rightarrow> publish_serialized_size ext
      | MT_ConfirmReq \<Rightarrow> cr_serialized_size ext
      | MT_ConfirmAck \<Rightarrow> ca_serialized_size ext
      | MT_BulkPull \<Rightarrow> bp_serialized_size ext
      | MT_BulkPush \<Rightarrow> 0
      | MT_TelemetryReq \<Rightarrow> 0
      | MT_FrontierReq \<Rightarrow> fr_serialized_size
      | MT_NodeIdHandshake \<Rightarrow> hs_serialized_size ext
      | MT_BulkPullAccount \<Rightarrow> bpa_serialized_size
      | MT_TelemetryAck \<Rightarrow> ta_serialized_size ext
      | MT_AscPullReq \<Rightarrow> asc_serialized_size ext
      | MT_AscPullAck \<Rightarrow> asc_serialized_size ext
      | MT_Invalid \<Rightarrow> 0
      | MT_NotAType \<Rightarrow> 0)"

definition validate_header :: "message_header \<Rightarrow> protocol_info \<Rightarrow> parse_message_error + unit" where
  "validate_header h expected =
     (if pr_network (mh_protocol h) \<noteq> pr_network expected then Inl PM_InvalidNetwork
      else if pr_version_using (mh_protocol h) < pr_version_min expected then Inl PM_OutdatedVersion
      else if \<not> is_valid_message_type (mh_message_type h) then Inl PM_InvalidHeader
      else if payload_length h > MAX_MESSAGE_SIZE then Inl PM_MessageSizeTooBig
      else Inr ())"

section \<open>The serializer\<close>

record message_serializer =
  mser_protocol :: protocol_info
  mser_buffer :: "byte list"

definition serializer_new :: "protocol_info \<Rightarrow> message_serializer" where
  "serializer_new p =
     \<lparr>mser_protocol = p, mser_buffer = replicate (header_serialized_size + MAX_MESSAGE_SIZE) 0\<rparr>"

text \<open>
  The payload goes behind the room for the header, then the header is written. The result is
  the slice of the buffer that was written; \<open>None\<close> is the panic of a full buffer.
\<close>

definition serializer_serialize ::
  "message_serializer \<Rightarrow> message \<Rightarrow> (byte list \<times> message_serializer) option" where
  "serializer_serialize s m =
     (let room = take header_serialized_size (mser_buffer s)
      in case msa_write_bytes_safe (msa_new (drop header_serialized_size (mser_buffer s))) (message_serialize m) of
        None \<Rightarrow> None
      | Some w \<Rightarrow>
          (let len = msa_write_index w;
               h = (message_header_new (message_type m) (mser_protocol s))
                     \<lparr>mh_extensions := header_extensions m (word_of_nat len)\<rparr>
           in case msa_write_bytes_safe (msa_new room) (header_serialize h) of
             None \<Rightarrow> None
           | Some hw \<Rightarrow>
               let buf = msa_bytes hw @ msa_bytes w
               in Some (take (header_serialized_size + len) buf, s\<lparr>mser_buffer := buf\<rparr>)))"

text \<open>\<open>None\<close>: \<open>split_at\<close> panics on a buffer shorter than a header.\<close>

definition deserialize_message ::
  "blake2b \<Rightarrow> byte list \<Rightarrow> (parse_error + message_header \<times> message) option" where
  "deserialize_message blake bs =
     (if length bs < header_serialized_size then None
      else Some (and_then (header_deserialize (take header_serialized_size bs)) (\<lambda>(h, _).
        case message_deserialize blake (drop header_serialized_size bs) h 0 of
          None \<Rightarrow> Inl InvalidPayload
        | Some m \<Rightarrow> Inr (h, m))))"

section \<open>Messages that can be sent\<close>

fun message_ok :: "blake2b \<Rightarrow> message \<Rightarrow> bool" where
  "message_ok blake (Keepalive k) \<longleftrightarrow> length (ka_peers k) = 8 \<and> (\<forall>p \<in> set (ka_peers k). peer_ok p)"
| "message_ok blake (Publish p) \<longleftrightarrow> block_hash_ok blake (pu_block p)"
| "message_ok blake (AscPullAck a) \<longleftrightarrow> pull_ack_ok blake (apa_pull_type a)"
| "message_ok blake (ConfirmAck a) \<longleftrightarrow> length (v_hashes (ca_vote a)) \<le> MAX_HASHES"
| "message_ok blake (ConfirmReq r) \<longleftrightarrow> confirm_req_ok r"
| "message_ok blake (NodeIdHandshake h) \<longleftrightarrow> handshake_ok h"
| "message_ok blake (TelemetryAck t) \<longleftrightarrow> (\<forall>d. t = Some d \<longrightarrow> telemetry_ok d)"
| "message_ok blake _ \<longleftrightarrow> True"

text \<open>The digest is set by the receiver.\<close>

fun with_digest :: "u128 \<Rightarrow> message \<Rightarrow> message" where
  "with_digest d (Publish p) = Publish (p\<lparr>pu_digest := d\<rparr>)"
| "with_digest d (ConfirmAck a) = ConfirmAck (a\<lparr>ca_digest := d\<rparr>)"
| "with_digest d m = m"

definition header_of :: "protocol_info \<Rightarrow> message \<Rightarrow> message_header" where
  "header_of p m =
     \<lparr>mh_message_type = message_type m, mh_protocol = p,
      mh_extensions = header_extensions m (word_of_nat (length (message_serialize m)))\<rparr>"

lemma message_round_trip:
  assumes "message_ok blake m"
  shows "message_deserialize blake (message_serialize m) (header_of p m) d = Some (with_digest d m)"
  using assms keepalive_round_trip [of _ "[]"] publish_round_trip [of _ _ _ "[]"] asc_pull_ack_round_trip
    asc_pull_req_round_trip [of _ "[]"] bulk_pull_round_trip [of _ "[]"] bulk_pull_account_round_trip [of _ "[]"]
    confirm_ack_round_trip confirm_req_round_trip [of _ "[]"] frontier_req_round_trip [of _ "[]"]
    handshake_round_trip [of _ "[]"] telemetry_ack_round_trip [of _ "[]"]
  by (cases m) (simp_all add: message_deserialize_def header_of_def parsed_def)

lemma message_length:
  assumes "message_ok blake m"
  shows "payload_length (header_of p m) = length (message_serialize m)"
  using assms length_keepalive length_publish length_confirm_req length_confirm_ack length_bulk_pull
    length_frontier_req length_handshake length_bulk_pull_account length_telemetry_ack
    asc_size [OF length_apa] asc_size [OF le_less_trans [OF length_apr(1)] length_apr(2)]
  by (cases m) (simp_all add: payload_length_def header_of_def confirm_req_ok_def)

text \<open>No header announces more than the maximum: the size check never fails.\<close>

lemma block_size_bound: "publish_serialized_size ext \<le> 216"
  by (simp add: publish_serialized_size_def serialized_block_size_le)

lemma payload_length_bound: "payload_length h \<le> 9 + (2 ^ 16 - 1)"
proof -
  have u: "unat (x :: u16) \<le> 2 ^ 16 - 1" "unat (y :: byte) \<le> 255" for x y
    using unsigned_less [of x, where ?'a = nat] unsigned_less [of y, where ?'a = nat] by simp_all
  show ?thesis
    using u(1) [of "mh_extensions h"] u(1) [of "mh_extensions h AND 0x3ff"] u(2) [of "cr_count (mh_extensions h)"]
      block_size_bound [of "mh_extensions h"] serialized_block_size_le [of "cr_block_type (mh_extensions h)"]
    by (cases "mh_message_type h")
      (auto simp: payload_length_def Let_def keepalive_serialized_size_def cr_serialized_size_def
        ca_serialized_size_def vote_serialized_size_def bp_serialized_size_def fr_serialized_size_def
        hs_serialized_size_def response_serialized_size_def bpa_serialized_size_def ta_serialized_size_def
        asc_serialized_size_def EXTENDED_PARAMETERS_SIZE_def)
qed

lemma validate_header_size: "validate_header h p \<noteq> Inl PM_MessageSizeTooBig"
  using payload_length_bound [of h] by (simp add: validate_header_def MAX_MESSAGE_SIZE_def)

section \<open>From the serializer to the parser\<close>

lemma serializer_writes:
  assumes "message_ok blake m" and "length (mser_buffer s) = header_serialized_size + MAX_MESSAGE_SIZE"
  obtains s' where "serializer_serialize s m =
      Some (header_serialize (header_of (mser_protocol s) m) @ message_serialize m, s')"
    "length (mser_buffer s') = length (mser_buffer s)" "mser_protocol s' = mser_protocol s"
proof -
  let ?h = "header_of (mser_protocol s) m" and ?p = "message_serialize m"
  have len: "length ?p \<le> MAX_MESSAGE_SIZE"
    using message_length [OF assms(1), of "mser_protocol s"] payload_length_bound [of ?h]
    by (simp add: MAX_MESSAGE_SIZE_def)
  have hl: "length (header_serialize ?h) = header_serialized_size"
    by (rule header.length_ser)
  have h: "(message_header_new (message_type m) (mser_protocol s))
      \<lparr>mh_extensions := header_extensions m (word_of_nat (length ?p))\<rparr> = ?h"
    by (simp add: message_header_new_def header_of_def)
  show ?thesis
    using len assms(2) hl h
    by (intro that [of "s\<lparr>mser_buffer := header_serialize ?h @ ?p
          @ drop (header_serialized_size + length ?p) (mser_buffer s)\<rparr>"])
      (simp_all add: serializer_serialize_def msa_write_bytes_safe_def msa_new_def Let_def add.commute)
qed

lemma deserialize_serialized:
  assumes "message_ok blake m"
  shows "deserialize_message blake (header_serialize (header_of p m) @ message_serialize m)
    = Some (Inr (header_of p m, with_digest 0 m))"
  using message_round_trip [OF assms, of p 0] header.length_ser [of "header_of p m"] header.de_ser_exact
  by (simp add: deserialize_message_def)

section \<open>Properties\<close>

text \<open>
  C33. No header announces a payload that does not fit: whatever the two bytes of extensions and
  whatever the message type, the announced length is below the size of the buffer of the reader
  and of the serializer, so the check against the maximum never fails.
\<close>

theorem payload_fits_buffer:
  "payload_length h \<le> 65544 \<and> payload_length h < MAX_MESSAGE_SIZE \<and>
   validate_header h expected \<noteq> Inl PM_MessageSizeTooBig"
  using payload_length_bound [of h] validate_header_size [of h expected] by (simp add: MAX_MESSAGE_SIZE_def)

end
