(* ===== verification/Message_Reader.thy ===== *)
theory Message_Reader
  imports Messages Work
begin

text \<open>
  Receiving messages: the duplicate filter (\<open>node/src/transport/network_filter.rs\<close>) and the
  deserializer of a channel (\<open>message_deserializer.rs\<close>) over the in-memory reader of
  \<open>vec_buffer_reader.rs\<close>. The keyed SipHash of the crate is the parameter \<open>siphash\<close>.
\<close>

section \<open>The duplicate filter\<close>

record filter_entry =
  fe_digest :: u128
  fe_epoch :: u64

definition filter_entry_default :: filter_entry where
  "filter_entry_default = \<lparr>fe_digest = 0, fe_epoch = 0\<rparr>"

record network_filter =
  nf_items :: "filter_entry list"
  nf_age_cutoff :: u64
  nf_current_epoch :: u64

definition filter_with_hasher :: "nat \<Rightarrow> network_filter" where
  "filter_with_hasher n =
     \<lparr>nf_items = replicate n filter_entry_default, nf_age_cutoff = 0, nf_current_epoch = 0\<rparr>"

definition filter_update :: "u64 \<Rightarrow> network_filter \<Rightarrow> network_filter" where
  "filter_update inc f = f\<lparr>nf_current_epoch := nf_current_epoch f + inc\<rparr>"

definition filter_compare :: "network_filter \<Rightarrow> filter_entry \<Rightarrow> u128 \<Rightarrow> bool" where
  "filter_compare f e digest \<longleftrightarrow>
     fe_digest e = digest \<and> fe_epoch e + nf_age_cutoff f \<ge> nf_current_epoch f"

text \<open>\<open>None\<close>: the remainder by zero panics in a filter without entries.\<close>

definition filter_index :: "network_filter \<Rightarrow> u128 \<Rightarrow> nat option" where
  "filter_index f digest =
     (if nf_items f = [] then None else Some (unat digest mod length (nf_items f)))"

definition apply_digest :: "network_filter \<Rightarrow> u128 \<Rightarrow> (bool \<times> network_filter) option" where
  "apply_digest f digest =
     map_option (\<lambda>i.
       let existed = filter_compare f (nf_items f ! i) digest
       in (existed,
           if existed then f
           else f\<lparr>nf_items := (nf_items f)[i := \<lparr>fe_digest = digest, fe_epoch = nf_current_epoch f\<rparr>]\<rparr>))
     (filter_index f digest)"

definition filter_apply ::
  "(byte list \<Rightarrow> u128) \<Rightarrow> network_filter \<Rightarrow> byte list \<Rightarrow> (u128 \<times> bool \<times> network_filter) option" where
  "filter_apply siphash f bs =
     map_option (\<lambda>(existed, f'). (siphash bs, existed, f')) (apply_digest f (siphash bs))"

definition filter_check :: "network_filter \<Rightarrow> u128 \<Rightarrow> bool option" where
  "filter_check f digest =
     map_option (\<lambda>i. filter_compare f (nf_items f ! i) digest) (filter_index f digest)"

definition filter_clear :: "u128 \<Rightarrow> network_filter \<Rightarrow> network_filter option" where
  "filter_clear digest f =
     map_option (\<lambda>i.
       if filter_compare f (nf_items f ! i) digest
       then f\<lparr>nf_items := (nf_items f)[i := filter_entry_default]\<rparr> else f)
     (filter_index f digest)"

fun filter_clear_many :: "u128 list \<Rightarrow> network_filter \<Rightarrow> network_filter option" where
  "filter_clear_many [] f = Some f"
| "filter_clear_many (d # ds) f = Option.bind (filter_clear d f) (filter_clear_many ds)"

definition filter_clear_all :: "network_filter \<Rightarrow> network_filter" where
  "filter_clear_all f = f\<lparr>nf_items := replicate (length (nf_items f)) filter_entry_default\<rparr>"

section \<open>Reading a message\<close>

text \<open>\<open>VecBufferReader::read\<close>: all of the requested bytes or an error.\<close>

definition reader_read :: "nat \<Rightarrow> byte list \<Rightarrow> (byte list \<times> byte list) option" where
  "reader_read count input =
     (if count > length input then None else Some (take count input, drop count input))"

definition filter_duplicate_messages ::
  "(byte list \<Rightarrow> u128) \<Rightarrow> network_filter \<Rightarrow> message_type \<Rightarrow> byte list
    \<Rightarrow> ((parse_message_error + u128) \<times> network_filter) option" where
  "filter_duplicate_messages siphash f mt payload =
     (if mt = MT_Publish \<or> mt = MT_ConfirmAck then
        map_option (\<lambda>(digest, existed, f').
          (if existed then
             (if mt = MT_ConfirmAck then Inl PM_DuplicateConfirmAckMessage else Inl PM_DuplicatePublishMessage)
           else Inr digest, f'))
        (filter_apply siphash f payload)
      else Some (Inr 0, f))"

definition validate_work :: "work_thresholds \<Rightarrow> message \<Rightarrow> parse_message_error + unit" where
  "validate_work wt m =
     (case m of
        Publish p \<Rightarrow> if validate_entry_block wt (pu_block p) then Inr () else Inl PM_InsufficientWork
      | _ \<Rightarrow> Inr ())"

definition parse_message ::
  "blake2b \<Rightarrow> (byte list \<Rightarrow> u128) \<Rightarrow> work_thresholds \<Rightarrow> network_filter \<Rightarrow> message_header \<Rightarrow> byte list
    \<Rightarrow> ((parse_message_error + message \<times> protocol_info) \<times> network_filter) option" where
  "parse_message blake siphash wt f h payload =
     map_option (\<lambda>(r, f').
       (and_then r (\<lambda>digest.
          case message_deserialize blake payload h digest of
            None \<Rightarrow> Inl (PM_InvalidMessage (mh_message_type h))
          | Some m \<Rightarrow> and_then (validate_work wt m) (\<lambda>_. Inr (m, mh_protocol h))), f'))
     (filter_duplicate_messages siphash f (mh_message_type h) payload)"

text \<open>
  One call of \<open>MessageDeserializer::read\<close>: the result, the filter and the bytes not read
  yet; \<open>None\<close> is the panic of an empty filter.
\<close>

definition read_message ::
  "blake2b \<Rightarrow> (byte list \<Rightarrow> u128) \<Rightarrow> work_thresholds \<Rightarrow> protocol_info \<Rightarrow> network_filter \<Rightarrow> byte list
    \<Rightarrow> ((parse_message_error + message \<times> protocol_info) \<times> network_filter \<times> byte list) option" where
  "read_message blake siphash wt expected f input =
     (case reader_read header_serialized_size input of
        None \<Rightarrow> Some (Inl PM_Other, f, input)
      | Some (header_bytes, rest) \<Rightarrow>
          (case header_deserialize header_bytes of
             Inl _ \<Rightarrow> Some (Inl PM_InvalidHeader, f, rest)
           | Inr (h, _) \<Rightarrow>
               (case validate_header h expected of
                  Inl e \<Rightarrow> Some (Inl e, f, rest)
                | Inr _ \<Rightarrow>
                    (if payload_length h = 0
                     then map_option (\<lambda>(r, f'). (r, f', rest)) (parse_message blake siphash wt f h [])
                     else case reader_read (payload_length h) rest of
                       None \<Rightarrow> Some (Inl PM_Other, f, rest)
                     | Some (payload, rest') \<Rightarrow>
                         map_option (\<lambda>(r, f'). (r, f', rest')) (parse_message blake siphash wt f h payload)))))"

section \<open>Laws of the filter\<close>

definition filter_ok :: "network_filter \<Rightarrow> bool" where
  "filter_ok f \<longleftrightarrow> nf_items f \<noteq> []"

lemma filter_index_bound: "filter_index f d = Some i \<Longrightarrow> i < length (nf_items f)"
  by (auto simp: filter_index_def split: if_splits)

lemma filter_check_apply:
  assumes "filter_ok f"
  obtains f' where "apply_digest f d = Some (the (filter_check f d), f')" "filter_ok f'"
    "nf_current_epoch f' = nf_current_epoch f" "nf_age_cutoff f' = nf_age_cutoff f"
    "nf_current_epoch f \<le> nf_current_epoch f + nf_age_cutoff f \<Longrightarrow> filter_check f' d = Some True"
proof -
  obtain i where i: "filter_index f d = Some i" "i < length (nf_items f)"
    using assms filter_index_bound by (auto simp: filter_ok_def filter_index_def)
  let ?e = "filter_compare f (nf_items f ! i) d"
  let ?f = "if ?e then f else f\<lparr>nf_items := (nf_items f)[i := \<lparr>fe_digest = d, fe_epoch = nf_current_epoch f\<rparr>]\<rparr>"
  show ?thesis
  proof (rule that [of ?f])
    show "apply_digest f d = Some (the (filter_check f d), ?f)"
      using i(1) by (simp add: apply_digest_def filter_check_def Let_def)
  qed (use assms i in \<open>auto simp: filter_ok_def filter_check_def filter_index_def filter_compare_def\<close>)
qed

lemma filter_clear_forgets:
  assumes "filter_ok f" and "d \<noteq> 0" and "filter_clear d f = Some f'"
  shows "filter_check f' d = Some False"
  using assms
  by (auto simp: filter_clear_def filter_check_def filter_index_def filter_ok_def filter_compare_def
      filter_entry_default_def split: if_splits)

section \<open>What a receiver gets\<close>

text \<open>
  The protocol data of the sender is acceptable to the receiver, and a published block has
  the work that the entry check asks for.
\<close>

definition sendable :: "blake2b \<Rightarrow> work_thresholds \<Rightarrow> protocol_info \<Rightarrow> protocol_info \<Rightarrow> message \<Rightarrow> bool" where
  "sendable blake wt p expected m \<longleftrightarrow>
     message_ok blake m \<and> pr_network p = pr_network expected \<and> pr_version_min expected \<le> pr_version_using p
     \<and> (\<forall>x. m = Publish x \<longrightarrow> validate_entry_block wt (pu_block x))"

lemma valid_type: "is_valid_message_type (message_type m)"
  by (cases m) simp_all

lemma validate_sendable:
  assumes "sendable blake wt p expected m"
  shows "validate_header (header_of p m) expected = Inr ()"
  using assms payload_length_bound [of "header_of p m"] valid_type [of m]
  by (auto simp: validate_header_def sendable_def header_of_def MAX_MESSAGE_SIZE_def)

lemma validate_work_sendable:
  assumes "sendable blake wt p expected m"
  shows "validate_work wt (with_digest d m) = Inr ()"
  using assms by (cases m) (auto simp: validate_work_def sendable_def)

lemma read_sendable:
  assumes "sendable blake wt p expected m"
  shows "read_message blake siphash wt expected f (header_serialize (header_of p m) @ message_serialize m @ rest)
    = map_option (\<lambda>(r, f'). (r, f', rest)) (parse_message blake siphash wt f (header_of p m) (message_serialize m))"
proof -
  let ?h = "header_of p m" and ?p = "message_serialize m"
  have len: "payload_length ?h = length ?p"
    using assms message_length by (auto simp: sendable_def)
  have hd: "reader_read header_serialized_size (header_serialize ?h @ s) = Some (header_serialize ?h, s)" for s
    using header.length_ser [of ?h] by (simp add: reader_read_def)
  have pl: "reader_read (length ?p) (?p @ rest) = Some (?p, rest)"
    by (simp add: reader_read_def)
  show ?thesis
    using validate_sendable [OF assms]
    by (cases "?p = []") (simp_all add: read_message_def hd header.de_ser_exact len pl)
qed

definition filtered :: "message \<Rightarrow> bool" where
  "filtered m \<longleftrightarrow> message_type m = MT_Publish \<or> message_type m = MT_ConfirmAck"

lemma message_type_header [simp]: "mh_message_type (header_of p m) = message_type m"
  by (simp add: header_of_def)

lemma with_digest_unfiltered: "\<not> filtered m \<Longrightarrow> with_digest d m = m"
  by (cases m) (simp_all add: filtered_def)

lemma parse_new_message:
  assumes "sendable blake wt p expected m" and "filter_ok f"
    and "filtered m \<longrightarrow> filter_check f (siphash (message_serialize m)) = Some False"
  obtains f' where "parse_message blake siphash wt f (header_of p m) (message_serialize m)
      = Some (Inr (with_digest (siphash (message_serialize m)) m, p), f')" "filter_ok f'"
    "filtered m \<and> nf_current_epoch f \<le> nf_current_epoch f + nf_age_cutoff f \<longrightarrow>
       filter_check f' (siphash (message_serialize m)) = Some True"
proof -
  let ?d = "siphash (message_serialize m)"
  have ok: "message_ok blake m"
    using assms(1) by (simp add: sendable_def)
  have p: "mh_protocol (header_of p m) = p"
    by (simp add: header_of_def)
  note parse = message_round_trip [OF ok, of p] validate_work_sendable [OF assms(1)] p
  show ?thesis
  proof (cases "filtered m")
    case True
    from filter_check_apply [OF assms(2), of ?d] obtain f' where f':
      "apply_digest f ?d = Some (the (filter_check f ?d), f')" "filter_ok f'"
      "nf_current_epoch f \<le> nf_current_epoch f + nf_age_cutoff f \<Longrightarrow> filter_check f' ?d = Some True"
      by blast
    then have "filter_duplicate_messages siphash f (message_type m) (message_serialize m) = Some (Inr ?d, f')"
      using True assms(3) by (auto simp: filter_duplicate_messages_def filter_apply_def filtered_def)
    then show ?thesis
      using that [of f'] f'(2,3) parse by (auto simp: parse_message_def)
  next
    case False
    then have "filter_duplicate_messages siphash f (message_type m) (message_serialize m) = Some (Inr 0, f)"
      by (simp add: filter_duplicate_messages_def filtered_def)
    then show ?thesis
      using that [of f] assms(2) False parse with_digest_unfiltered [OF False] by (auto simp: parse_message_def)
  qed
qed

lemma parse_duplicate:
  assumes "filtered m" and "filter_ok f" and "filter_check f (siphash (message_serialize m)) = Some True"
  obtains f' e where "parse_message blake siphash wt f (header_of p m) (message_serialize m) = Some (Inl e, f')"
    "e \<in> {PM_DuplicateConfirmAckMessage, PM_DuplicatePublishMessage}"
proof -
  let ?d = "siphash (message_serialize m)"
  from filter_check_apply [OF assms(2), of ?d] obtain f' where
    "apply_digest f ?d = Some (the (filter_check f ?d), f')"
    by blast
  with assms show ?thesis
    by (auto simp: parse_message_def filter_duplicate_messages_def filter_apply_def filtered_def intro: that)
qed

lemma read_twice:
  assumes "sendable blake wt p expected m" and "filter_ok f"
    and "filtered m \<longrightarrow> filter_check f (siphash (message_serialize m)) = Some False"
    and "nf_current_epoch f \<le> nf_current_epoch f + nf_age_cutoff f"
  obtains f' where
    "read_message blake siphash wt expected f (header_serialize (header_of p m) @ message_serialize m @ rest)
      = Some (Inr (with_digest (siphash (message_serialize m)) m, p), f', rest)"
    "filter_ok f'"
    "filtered m \<longrightarrow> (\<exists>e f''. e \<in> {PM_DuplicateConfirmAckMessage, PM_DuplicatePublishMessage}
       \<and> read_message blake siphash wt expected f' (header_serialize (header_of p m) @ message_serialize m @ rest')
          = Some (Inl e, f'', rest'))"
proof -
  from parse_new_message [where siphash = siphash, OF assms(1-3)] obtain f' where f':
    "parse_message blake siphash wt f (header_of p m) (message_serialize m)
      = Some (Inr (with_digest (siphash (message_serialize m)) m, p), f')" "filter_ok f'"
    "filtered m \<longrightarrow> filter_check f' (siphash (message_serialize m)) = Some True"
    using assms(4) by metis
  have "\<exists>e f''. e \<in> {PM_DuplicateConfirmAckMessage, PM_DuplicatePublishMessage}
       \<and> read_message blake siphash wt expected f' (header_serialize (header_of p m) @ message_serialize m @ rest')
          = Some (Inl e, f'', rest')" if "filtered m"
  proof -
    from f'(3) that have "filter_check f' (siphash (message_serialize m)) = Some True"
      by simp
    from parse_duplicate [where siphash = siphash, OF that f'(2) this, of blake wt p] obtain f'' e where
      "parse_message blake siphash wt f' (header_of p m) (message_serialize m) = Some (Inl e, f'')"
      "e \<in> {PM_DuplicateConfirmAckMessage, PM_DuplicatePublishMessage}"
      by blast
    then show ?thesis
      by (auto simp: read_sendable [OF assms(1)])
  qed
  then show ?thesis
    using f' read_sendable [OF assms(1)] by (intro that [of f']) auto
qed

section \<open>Properties\<close>

text \<open>
  C21. What a peer sends is what the node reads: a well formed message from a peer of the same network
  and an acceptable version, with enough work if it publishes a block, is read back with its fields
  and the digest of its bytes, and the reader stops exactly behind it. A block or vote that is sent
  again is reported as a duplicate, as long as the filter entry is not too old, and is skipped.
\<close>

theorem message_received_once:
  assumes "sendable blake wt p expected m" and "filter_ok f"
    and "filtered m \<longrightarrow> filter_check f (siphash (message_serialize m)) = Some False"
    and "nf_current_epoch f \<le> nf_current_epoch f + nf_age_cutoff f"
  shows "\<exists>f'. read_message blake siphash wt expected f (header_serialize (header_of p m) @ message_serialize m @ rest)
      = Some (Inr (with_digest (siphash (message_serialize m)) m, p), f', rest) \<and>
    (filtered m \<longrightarrow> (\<exists>e f''. e \<in> {PM_DuplicateConfirmAckMessage, PM_DuplicatePublishMessage} \<and>
       read_message blake siphash wt expected f' (header_serialize (header_of p m) @ message_serialize m @ rest')
          = Some (Inl e, f'', rest')))"
  by (rule read_twice [where siphash = siphash, OF assms, of rest rest']) blast

theorem message_received_once_witness:
  "\<exists>m f' e f''. m = ConfirmAck \<lparr>ca_vote = \<lparr>v_timestamp = 16, v_voting_account = 5, v_signature = 6, v_hashes = [7]\<rparr>,
        ca_is_rebroadcasted = False, ca_digest = 0\<rparr> \<and>
     read_message (\<lambda>_. 0) (\<lambda>_. 1) (with_difficulty (\<lambda>_ _. 0) 0 0 0) protocol_info_default
       (filter_with_hasher 4)
       (header_serialize (header_of protocol_info_default m) @ message_serialize m @ [8])
      = Some (Inr (with_digest 1 m, protocol_info_default), f', [8]) \<and>
     read_message (\<lambda>_. 0) (\<lambda>_. 1) (with_difficulty (\<lambda>_ _. 0) 0 0 0) protocol_info_default f'
       (header_serialize (header_of protocol_info_default m) @ message_serialize m @ [9])
      = Some (Inl e, f'', [9])"
proof -
  let ?m = "ConfirmAck \<lparr>ca_vote = \<lparr>v_timestamp = 16, v_voting_account = 5, v_signature = 6, v_hashes = [7]\<rparr>,
        ca_is_rebroadcasted = False, ca_digest = 0\<rparr>"
    and ?p = "protocol_info_default" and ?f = "filter_with_hasher 4"
    and ?wt = "with_difficulty (\<lambda>_ _. 0) 0 0 0" and ?siphash = "\<lambda>_. 1 :: u128"
  have ok: "sendable (\<lambda>_. 0) ?wt ?p ?p ?m"
    by (simp add: sendable_def MAX_HASHES_def protocol_info_default_def)
  have f: "filter_ok ?f" "filtered ?m" "filter_check ?f (?siphash (message_serialize ?m)) = Some False"
      "nf_current_epoch ?f \<le> nf_current_epoch ?f + nf_age_cutoff ?f"
    by (simp_all add: filter_ok_def filter_with_hasher_def filtered_def filter_check_def filter_index_def
        filter_compare_def filter_entry_default_def)
  show ?thesis
    using message_received_once [OF ok f(1) _ f(4), where siphash = ?siphash and rest = "[8]" and rest' = "[9]"] f(2,3)
    by blast
qed

end
