(* ===== verification/Traces.thy ===== *)
theory Traces
  imports Prelude "HOL-Library.Monad_Syntax"
begin

text \<open>
  Sequences of operations on a container: a run of the operations collects what they return and
  stops at the first panic; a specification relates the state before an operation, the operation,
  what it returned and the state after it. A container whose operations never panic and satisfy
  the specification one by one satisfies it along every run.
\<close>

fun run_ops :: "('op \<Rightarrow> 's \<Rightarrow> ('out \<times> 's) option) \<Rightarrow> 'op list \<Rightarrow> 's \<Rightarrow> ('out list \<times> 's) option" where
  "run_ops step [] s = Some ([], s)"
| "run_ops step (op # ops) s =
     do {
       (out, s) \<leftarrow> step op s;
       (outs, s) \<leftarrow> run_ops step ops s;
       Some (out # outs, s)
     }"

fun spec_run :: "('a \<Rightarrow> 'op \<Rightarrow> 'out \<Rightarrow> 'a \<Rightarrow> bool) \<Rightarrow> 'op list \<Rightarrow> 'out list \<Rightarrow> 'a \<Rightarrow> 'a \<Rightarrow> bool" where
  "spec_run spec [] [] a b \<longleftrightarrow> b = a"
| "spec_run spec (op # ops) (out # outs) a b \<longleftrightarrow> (\<exists>c. spec a op out c \<and> spec_run spec ops outs c b)"
| "spec_run spec _ _ _ _ \<longleftrightarrow> False"

locale simulation =
  fixes inv :: "'s \<Rightarrow> bool"
    and abs :: "'s \<Rightarrow> 'a"
    and allowed :: "'op \<Rightarrow> bool"
    and step :: "'op \<Rightarrow> 's \<Rightarrow> ('out \<times> 's) option"
    and spec :: "'a \<Rightarrow> 'op \<Rightarrow> 'out \<Rightarrow> 'a \<Rightarrow> bool"
  assumes step_simulates: "inv s \<Longrightarrow> allowed op \<Longrightarrow>
    \<exists>out s'. step op s = Some (out, s') \<and> inv s' \<and> spec (abs s) op out (abs s')"
begin

lemma run_simulates:
  "inv s \<Longrightarrow> \<forall>op\<in>set ops. allowed op \<Longrightarrow>
   \<exists>outs s'. run_ops step ops s = Some (outs, s') \<and> inv s' \<and> spec_run spec ops outs (abs s) (abs s')"
proof (induction ops arbitrary: s)
  case Nil
  then show ?case
    by simp
next
  case (Cons op ops)
  obtain out s1 where 1: "step op s = Some (out, s1)" "inv s1" "spec (abs s) op out (abs s1)"
    using step_simulates [of s op] Cons.prems by auto
  obtain outs s2 where 2: "run_ops step ops s1 = Some (outs, s2)" "inv s2"
      "spec_run spec ops outs (abs s1) (abs s2)"
    using Cons.IH [OF 1(2)] Cons.prems(2) by auto
  show ?case
    using 1 2 by (intro exI [of _ "out # outs"] exI [of _ s2]) auto
qed

end

end
