(* ===== verification/Fair_Queue.thy ===== *)
theory Fair_Queue
  imports Ordered_Maps Traces "HOL-Library.Monad_Syntax"
begin

text \<open>
  The queue that every network facing component of the node takes its work from
  (\<open>node/src/transport/fair_queue.rs\<close>): one bounded FIFO queue per source, visited round robin
  in key order, with up to \<open>priority\<close> items taken from a queue before moving on. The loop of
  \<open>seek_next\<close> need not end, so the operations that call it are partial: \<open>None\<close> is a panic or
  no result at all. \<open>usize\<close> counters are natural numbers and a subtraction below zero panics.

  The locale \<open>multi_queue\<close> is what the components that drain such a queue in batches rely on:
  taking an item succeeds as long as something is queued and takes the oldest item of some source.
\<close>

section \<open>Definitions\<close>

record 't fq_entry =
  fe_requests :: "'t list"
  fe_priority :: nat
  fe_max_size :: nat

record ('s, 't) fair_queue =
  fq_queues :: "('s, 't fq_entry) fmap"
  fq_current :: "'s option"
  fq_max_size_query :: "'s \<Rightarrow> nat"
  fq_priority_query :: "'s \<Rightarrow> nat"
  fq_counter :: nat
  fq_total_len :: nat

definition fq_entry_new :: "nat \<Rightarrow> nat \<Rightarrow> 't fq_entry" where
  "fq_entry_new max_size priority = \<lparr>fe_requests = [], fe_priority = priority, fe_max_size = max_size\<rparr>"

definition fq_entry_push :: "'t \<Rightarrow> 't fq_entry \<Rightarrow> bool \<times> 't fq_entry" where
  "fq_entry_push x e =
     (if length (fe_requests e) < fe_max_size e
      then (True, e\<lparr>fe_requests := fe_requests e @ [x]\<rparr>) else (False, e))"

definition fq_new :: "('s \<Rightarrow> nat) \<Rightarrow> ('s \<Rightarrow> nat) \<Rightarrow> ('s, 't) fair_queue" where
  "fq_new max_size priority =
     \<lparr>fq_queues = fmempty, fq_current = None, fq_max_size_query = max_size,
      fq_priority_query = priority, fq_counter = 0, fq_total_len = 0\<rparr>"

definition fq_queue_len :: "('s, 't) fair_queue \<Rightarrow> 's \<Rightarrow> nat" where
  "fq_queue_len q s = unwrap_or (map_option (\<lambda>e. length (fe_requests e)) (fmlookup (fq_queues q) s)) 0"

definition fq_len :: "('s, 't) fair_queue \<Rightarrow> nat" where
  "fq_len q = fq_total_len q"

definition fq_clear :: "('s, 't) fair_queue \<Rightarrow> ('s, 't) fair_queue" where
  "fq_clear q = q\<lparr>fq_queues := fmempty\<rparr>"

definition fq_push :: "'s \<Rightarrow> 't \<Rightarrow> ('s, 't) fair_queue \<Rightarrow> bool \<times> ('s, 't) fair_queue" where
  "fq_push s x q =
     (let e = (case fmlookup (fq_queues q) s of
                 None \<Rightarrow> fq_entry_new (fq_max_size_query q s) (fq_priority_query q s)
               | Some e \<Rightarrow> e);
          (added, e') = fq_entry_push x e
      in (added, q\<lparr>fq_queues := fmupd s e' (fq_queues q),
                   fq_total_len := fq_total_len q + (if added then 1 else 0)\<rparr>))"

definition fq_should_seek :: "('s, 't) fair_queue \<Rightarrow> bool" where
  "fq_should_seek q =
     (case fq_current q of
        None \<Rightarrow> True
      | Some k \<Rightarrow>
          (case fmlookup (fq_queues q) k of
             None \<Rightarrow> True
           | Some e \<Rightarrow> fe_requests e = [] \<or> fq_counter q \<ge> fe_priority e))"

text \<open>\<open>range(current..)\<close> starts with the current queue; the next one is the second entry.\<close>

definition fq_advance :: "('s::linorder, 'e) fmap \<Rightarrow> 's option \<Rightarrow> 's option" where
  "fq_advance qs cur =
     (case cur of
        None \<Rightarrow> None
      | Some c \<Rightarrow> (case entries_from c qs of _ # (k, _) # _ \<Rightarrow> Some k | _ \<Rightarrow> None))"

definition first_key :: "('s::linorder, 'e) fmap \<Rightarrow> 's option" where
  "first_key qs = (case sorted_list_of_fmap qs of [] \<Rightarrow> None | (k, _) # _ \<Rightarrow> Some k)"

definition fq_next_key :: "('s::linorder, 'e) fmap \<Rightarrow> 's option \<Rightarrow> 's option" where
  "fq_next_key qs cur = (case fq_advance qs cur of None \<Rightarrow> first_key qs | Some k \<Rightarrow> Some k)"

partial_function (option) fq_seek_loop :: "('s::linorder, 't fq_entry) fmap \<Rightarrow> 's option \<Rightarrow> 's option" where
  "fq_seek_loop qs cur =
     (case fq_next_key qs cur of
        None \<Rightarrow> None
      | Some k \<Rightarrow>
          (case fmlookup qs k of
             None \<Rightarrow> None
           | Some e \<Rightarrow> if fe_requests e \<noteq> [] then Some k else fq_seek_loop qs (Some k)))"

definition fq_seek_next :: "('s::linorder, 't) fair_queue \<Rightarrow> ('s, 't) fair_queue option" where
  "fq_seek_next q =
     map_option (\<lambda>k. q\<lparr>fq_counter := 0, fq_current := Some k\<rparr>) (fq_seek_loop (fq_queues q) (fq_current q))"

definition fq_pop_current :: "('s, 't) fair_queue \<Rightarrow> (('s \<times> 't) option \<times> ('s, 't) fair_queue) option" where
  "fq_pop_current q =
     (case fq_current q of
        None \<Rightarrow> Some (None, q)
      | Some k \<Rightarrow>
          (case fmlookup (fq_queues q) k of
             None \<Rightarrow> None
           | Some e \<Rightarrow>
               (if fq_total_len q = 0 then None
                else case fe_requests e of
                  [] \<Rightarrow> None
                | x # xs \<Rightarrow>
                    Some (Some (k, x),
                      q\<lparr>fq_counter := fq_counter q + 1, fq_total_len := fq_total_len q - 1,
                        fq_queues := fmupd k (e\<lparr>fe_requests := xs\<rparr>) (fq_queues q)\<rparr>))))"

definition fq_next :: "('s::linorder, 't) fair_queue \<Rightarrow> (('s \<times> 't) option \<times> ('s, 't) fair_queue) option" where
  "fq_next q = Option.bind (if fq_should_seek q then fq_seek_next q else Some q) fq_pop_current"

fun take_batch :: "('q \<Rightarrow> ('x option \<times> 'q) option) \<Rightarrow> nat \<Rightarrow> 'q \<Rightarrow> ('x list \<times> 'q) option" where
  "take_batch nxt 0 q = Some ([], q)"
| "take_batch nxt (Suc n) q =
     (case nxt q of
        Some (Some x, q') \<Rightarrow> map_option (\<lambda>(xs, q''). (x # xs, q'')) (take_batch nxt n q')
      | _ \<Rightarrow> None)"

definition fq_next_batch :: "('s::linorder, 't) fair_queue \<Rightarrow> nat \<Rightarrow> (('s \<times> 't) list \<times> ('s, 't) fair_queue) option" where
  "fq_next_batch q max_count = take_batch fq_next (min (fq_len q) max_count) q"

definition fq_remove :: "'s \<Rightarrow> ('s, 't) fair_queue \<Rightarrow> ('s, 't) fair_queue option" where
  "fq_remove s q =
     (case fmlookup (fq_queues q) s of
        None \<Rightarrow> Some q
      | Some e \<Rightarrow>
          if fq_total_len q < length (fe_requests e) then None
          else Some (q\<lparr>fq_queues := fmdrop s (fq_queues q),
                       fq_total_len := fq_total_len q - length (fe_requests e),
                       fq_current := None\<rparr>))"

section \<open>The contract of a queue with several sources\<close>

locale multi_queue =
  fixes inv :: "'q \<Rightarrow> bool"
    and contents :: "'q \<Rightarrow> 's \<Rightarrow> 't list"
    and total :: "'q \<Rightarrow> nat"
    and nxt :: "'q \<Rightarrow> (('s \<times> 't) option \<times> 'q) option"
  assumes next_some:
    "inv q \<Longrightarrow> 0 < total q \<Longrightarrow>
     \<exists>k x xs q'. nxt q = Some (Some (k, x), q') \<and> contents q k = x # xs \<and>
       contents q' = (contents q)(k := xs) \<and> inv q' \<and> total q' = total q - 1"
begin

lemma batch:
  "inv q \<Longrightarrow> n \<le> total q \<Longrightarrow>
   \<exists>xs q'. take_batch nxt n q = Some (xs, q') \<and> length xs = n \<and> inv q' \<and> total q' = total q - n \<and>
     (\<forall>k. contents q k = map snd (filter (\<lambda>x. fst x = k) xs) @ contents q' k)"
proof (induction n arbitrary: q)
  case (Suc n)
  from next_some [OF Suc.prems(1)] Suc.prems(2) obtain k x xs q' where
    n: "nxt q = Some (Some (k, x), q')" "contents q k = x # xs"
       "contents q' = (contents q)(k := xs)" "inv q'" "total q' = total q - 1"
    by auto
  have "n \<le> total q'"
    using Suc.prems(2) n(5) by simp
  from Suc.IH [OF n(4) this] obtain ys q'' where
    b: "take_batch nxt n q' = Some (ys, q'')" "length ys = n" "inv q''" "total q'' = total q' - n"
       "\<forall>k. contents q' k = map snd (filter (\<lambda>x. fst x = k) ys) @ contents q'' k"
    by blast
  have "contents q j = map snd (filter (\<lambda>x. fst x = j) ((k, x) # ys)) @ contents q'' j" for j
    using b(5) [rule_format, of j] n(2,3) by (auto simp: fun_upd_apply split: if_splits)
  then show ?case
    using n b by (intro exI [of _ "(k, x) # ys"] exI [of _ q'']) simp
qed simp

end

section \<open>The invariant\<close>

definition fq_contents :: "('s, 't) fair_queue \<Rightarrow> 's \<Rightarrow> 't list" where
  "fq_contents q s = (case fmlookup (fq_queues q) s of None \<Rightarrow> [] | Some e \<Rightarrow> fe_requests e)"

definition fq_sum :: "('s, 't fq_entry) fmap \<Rightarrow> nat" where
  "fq_sum = table_sum (\<lambda>_ e. length (fe_requests e))"

definition fq_inv :: "('s, 't) fair_queue \<Rightarrow> bool" where
  "fq_inv q \<longleftrightarrow>
     fq_total_len q = fq_sum (fq_queues q) \<and>
     (\<forall>c. fq_current q = Some c \<longrightarrow> fmlookup (fq_queues q) c \<noteq> None) \<and>
     (\<forall>s e. fmlookup (fq_queues q) s = Some e \<longrightarrow>
        length (fe_requests e) \<le> fq_max_size_query q s \<and> fe_max_size e = fq_max_size_query q s \<and>
        fe_priority e = fq_priority_query q s)"

lemma fq_sum_upd:
  "fq_sum (fmupd k e m) + (case fmlookup m k of None \<Rightarrow> 0 | Some e' \<Rightarrow> length (fe_requests e')) =
     fq_sum m + length (fe_requests e)"
  using table_sum_update [of m k _ "\<lambda>_ e. length (fe_requests e)" e]
  by (cases "fmlookup m k") (auto simp: fq_sum_def table_sum_insert ac_simps)

lemma fq_sum_drop:
  "fmlookup m k = Some e \<Longrightarrow> fq_sum m = fq_sum (fmdrop k m) + length (fe_requests e)"
  by (simp add: fq_sum_def table_sum_remove)

lemma fq_inv_new: "fq_inv (fq_new max_size priority)"
  by (simp add: fq_inv_def fq_new_def fq_sum_def)

lemma fq_push_spec:
  assumes "fq_inv q" "fq_push s x q = (added, q')"
  shows "fq_inv q'" "added \<longleftrightarrow> length (fq_contents q s) < fq_max_size_query q s"
    "fq_contents q' = (fq_contents q)(s := fq_contents q s @ (if added then [x] else []))"
proof -
  define e where "e = (case fmlookup (fq_queues q) s of
    None \<Rightarrow> fq_entry_new (fq_max_size_query q s) (fq_priority_query q s) | Some e \<Rightarrow> e)"
  have e: "length (fe_requests e) \<le> fq_max_size_query q s" "fe_max_size e = fq_max_size_query q s"
    "fe_priority e = fq_priority_query q s" "fe_requests e = fq_contents q s"
    using assms(1) by (auto simp: e_def fq_inv_def fq_contents_def fq_entry_new_def split: option.splits)
  obtain e' where p: "fq_entry_push x e = (added, e')"
    and q': "q' = q\<lparr>fq_queues := fmupd s e' (fq_queues q),
                     fq_total_len := fq_total_len q + (if added then 1 else 0)\<rparr>"
    using assms(2) by (auto simp: fq_push_def e_def [symmetric] split: prod.splits)
  have e': "fe_requests e' = fq_contents q s @ (if added then [x] else [])" "fe_max_size e' = fe_max_size e"
    "fe_priority e' = fe_priority e"
    using p e(4) by (auto simp: fq_entry_push_def split: if_splits)
  show a: "added \<longleftrightarrow> length (fq_contents q s) < fq_max_size_query q s"
    using p e by (auto simp: fq_entry_push_def split: if_splits)
  show "fq_contents q' = (fq_contents q)(s := fq_contents q s @ (if added then [x] else []))"
    by (auto simp: fq_contents_def q' fun_eq_iff e')
  have "fq_sum (fq_queues q') = fq_total_len q'"
    using fq_sum_upd [of s e' "fq_queues q"] assms(1)
    by (auto simp: q' fq_inv_def e' fq_contents_def split: option.splits if_splits)
  then show "fq_inv q'"
    using assms(1) a e by (auto simp: fq_inv_def q' e')
qed

lemma fq_remove_spec:
  assumes "fq_inv q"
  shows "\<exists>q'. fq_remove s q = Some q' \<and> fq_inv q' \<and> fq_contents q' = (fq_contents q)(s := []) \<and>
    fq_len q' = fq_len q - length (fq_contents q s)"
proof (cases "fmlookup (fq_queues q) s")
  case None
  then show ?thesis
    using assms by (auto simp: fq_remove_def fq_contents_def fun_eq_iff)
next
  case (Some e)
  have "fq_total_len q = fq_sum (fmdrop s (fq_queues q)) + length (fe_requests e)"
    using fq_sum_drop [OF Some] assms by (simp add: fq_inv_def)
  then show ?thesis
    using assms Some
    by (auto simp: fq_remove_def fq_contents_def fun_eq_iff fq_inv_def fq_len_def)
qed

section \<open>The round\<close>

text \<open>
  The queues that are visited after the current one and before \<open>k\<close>. Every step of the loop of
  \<open>seek_next\<close> moves to \<open>k\<close> or takes one queue out of this set.
\<close>

definition fq_between :: "('s::linorder, 'e) fmap \<Rightarrow> 's option \<Rightarrow> 's \<Rightarrow> 's set" where
  "fq_between qs cur k =
     {x. x |\<in>| fmdom qs \<and>
         (case cur of None \<Rightarrow> x < k | Some c \<Rightarrow> if c < k then c < x \<and> x < k else c < x \<or> x < k)}"

definition fq_cursor_ok :: "('s, 'e) fmap \<Rightarrow> 's option \<Rightarrow> bool" where
  "fq_cursor_ok qs cur \<longleftrightarrow> (\<forall>c. cur = Some c \<longrightarrow> c |\<in>| fmdom qs)"

lemma finite_fq_between: "finite (fq_between qs cur k)"
  by (rule finite_subset [of _ "fset (fmdom qs)"]) (auto simp: fq_between_def)

lemma entries_from_member:
  assumes "c |\<in>| fmdom qs"
  shows "\<exists>v rest. entries_from c qs = (c, v) # rest \<and> (\<forall>x. x \<in> fst ` set rest \<longleftrightarrow> x |\<in>| fmdom qs \<and> c < x)"
proof -
  from assms obtain w where w: "fmlookup qs c = Some w"
    by (auto simp: fmlookup_dom_iff)
  then obtain k v rest where e: "entries_from c qs = (k, v) # rest"
    using set_entries_from [of c w c qs] by (cases "entries_from c qs") auto
  have "k = c"
    using entries_from_ConsD [OF e] w by (metis order.antisym order.refl option.distinct(1))
  moreover have "x \<in> fst ` set rest \<longleftrightarrow> x |\<in>| fmdom qs \<and> c < x" for x
    using set_entries_from [of x _ c qs] distinct_entries_from [of c qs] e \<open>k = c\<close>
    by (force simp: fmlookup_dom_iff)
  ultimately show ?thesis
    using e by blast
qed

lemma fq_advance_Some:
  assumes "fq_advance qs (Some c) = Some n" "c |\<in>| fmdom qs"
  shows "n |\<in>| fmdom qs" "c < n" "\<And>x. x |\<in>| fmdom qs \<Longrightarrow> c < x \<Longrightarrow> n \<le> x"
proof -
  from entries_from_member [OF assms(2)] obtain v rest where
    e: "entries_from c qs = (c, v) # rest" and r: "\<And>x. x \<in> fst ` set rest \<longleftrightarrow> x |\<in>| fmdom qs \<and> c < x"
    by blast
  from assms(1) e obtain w rest' where rest: "rest = (n, w) # rest'"
    by (auto simp: fq_advance_def split: list.splits)
  show "n |\<in>| fmdom qs" "c < n"
    using r [of n] by (auto simp: rest)
  show "n \<le> x" if "x |\<in>| fmdom qs" "c < x" for x
    using r [of x] that sorted_entries_from [of c qs] by (auto simp: e rest)
qed

lemma fq_advance_None:
  assumes "fq_advance qs (Some c) = None" "c |\<in>| fmdom qs" "x |\<in>| fmdom qs"
  shows "x \<le> c"
proof -
  from entries_from_member [OF assms(2)] obtain v rest where
    e: "entries_from c qs = (c, v) # rest" and r: "\<And>x. x \<in> fst ` set rest \<longleftrightarrow> x |\<in>| fmdom qs \<and> c < x"
    by blast
  with assms(1) have "rest = []"
    by (auto simp: fq_advance_def split: list.splits)
  then show ?thesis
    using r [of x] assms(3) by auto
qed

lemma first_key_Some:
  assumes "x |\<in>| fmdom qs"
  shows "\<exists>n. first_key qs = Some n \<and> n |\<in>| fmdom qs \<and> (\<forall>y. y |\<in>| fmdom qs \<longrightarrow> n \<le> y)"
proof -
  have d: "y |\<in>| fmdom qs \<longleftrightarrow> y \<in> fst ` set (sorted_list_of_fmap qs)" for y
    by (simp add: sorted_list_of_fmap_def image_image)
  then show ?thesis
    using assms sorted_sorted_list_of_fmap [of qs]
    by (cases "sorted_list_of_fmap qs") (auto simp: first_key_def)
qed

lemma fq_next_key_spec:
  assumes "fq_cursor_ok qs cur" "k |\<in>| fmdom qs"
  shows "\<exists>n. fq_next_key qs cur = Some n \<and> n |\<in>| fmdom qs \<and>
    (n = k \<or> n \<in> fq_between qs cur k \<and> fq_between qs (Some n) k = fq_between qs cur k - {n})"
proof (cases "fq_advance qs cur")
  case None
  from first_key_Some [OF assms(2)] obtain n where
    n: "first_key qs = Some n" "n |\<in>| fmdom qs" "\<And>y. y |\<in>| fmdom qs \<Longrightarrow> n \<le> y"
    by blast
  have le: "x \<le> c" if "cur = Some c" "x |\<in>| fmdom qs" for c x
    using fq_advance_None [of qs c x] None assms(1) that by (simp add: fq_cursor_ok_def)
  have "n \<in> fq_between qs cur k \<and> fq_between qs (Some n) k = fq_between qs cur k - {n}" if "n \<noteq> k"
    using n(2) n(3) le assms(2) that n(3) [OF assms(2)]
    by (cases cur) (auto simp: fq_between_def order.strict_iff_order dest: order.antisym)
  then show ?thesis
    using n None by (auto simp: fq_next_key_def)
next
  case (Some n)
  then obtain c where c: "cur = Some c"
    by (cases cur) (auto simp: fq_advance_def)
  have cd: "c |\<in>| fmdom qs"
    using assms(1) c by (simp add: fq_cursor_ok_def)
  note a = fq_advance_Some [OF Some [unfolded c] cd]
  have "n \<in> fq_between qs cur k \<and> fq_between qs (Some n) k = fq_between qs cur k - {n}" if "n \<noteq> k"
    using a(1,2) a(3) a(3) [OF assms(2)] assms(2) that
    by (auto simp: fq_between_def c) (force dest: a(3))+
  then show ?thesis
    using Some a(1) by (auto simp: fq_next_key_def)
qed

lemma fq_seek_loop_spec:
  assumes "fq_cursor_ok qs cur" "fmlookup qs k = Some e" "fe_requests e \<noteq> []"
  shows "\<exists>n e'. fq_seek_loop qs cur = Some n \<and> fmlookup qs n = Some e' \<and> fe_requests e' \<noteq> [] \<and>
    (n = k \<or> n \<in> fq_between qs cur k \<and> fq_between qs (Some n) k \<subseteq> fq_between qs cur k - {n})"
  using assms(1)
proof (induction "card (fq_between qs cur k)" arbitrary: cur rule: less_induct)
  case less
  have k: "k |\<in>| fmdom qs"
    using assms(2) by (auto simp: fmlookup_dom_iff)
  from fq_next_key_spec [OF less.prems k] obtain n where
    n: "fq_next_key qs cur = Some n" "n |\<in>| fmdom qs"
       "n = k \<or> n \<in> fq_between qs cur k \<and> fq_between qs (Some n) k = fq_between qs cur k - {n}"
    by blast
  then obtain e' where e': "fmlookup qs n = Some e'"
    by (auto simp: fmlookup_dom_iff)
  show ?case
  proof (cases "fe_requests e' = []")
    case False
    then show ?thesis
      using n e' by (subst fq_seek_loop.simps) auto
  next
    case True
    then have b: "n \<in> fq_between qs cur k" "fq_between qs (Some n) k = fq_between qs cur k - {n}"
      using n(3) e' assms(2,3) by auto
    have "card (fq_between qs (Some n) k) < card (fq_between qs cur k)"
      using b finite_fq_between by (metis card_Diff1_less)
    moreover have "fq_cursor_ok qs (Some n)"
      using n(2) by (simp add: fq_cursor_ok_def)
    ultimately obtain m e'' where
      "fq_seek_loop qs (Some n) = Some m" "fmlookup qs m = Some e''" "fe_requests e'' \<noteq> []"
      "m = k \<or> m \<in> fq_between qs (Some n) k \<and> fq_between qs (Some m) k \<subseteq> fq_between qs (Some n) k - {m}"
      using less.hyps by blast
    then show ?thesis
      using n(1) e' True b by (subst fq_seek_loop.simps) auto
  qed
qed

lemma fq_inv_cursor: "fq_inv q \<Longrightarrow> fq_cursor_ok (fq_queues q) (fq_current q)"
  by (auto simp: fq_inv_def fq_cursor_ok_def fmlookup_dom_iff)

lemma fq_sum_pos:
  assumes "0 < fq_sum m"
  shows "\<exists>k e. fmlookup m k = Some e \<and> fe_requests e \<noteq> []"
proof (rule ccontr)
  assume "\<not> ?thesis"
  then have "fq_sum m = table_sum (\<lambda>_ _. 0) m"
    by (auto simp: fq_sum_def intro!: table_sum_cong)
  with assms show False
    by (simp add: table_sum_def)
qed

lemma fq_contents_nonempty:
  "fq_contents q k \<noteq> [] \<longleftrightarrow> (\<exists>e. fmlookup (fq_queues q) k = Some e \<and> fe_requests e \<noteq> [])"
  by (auto simp: fq_contents_def split: option.splits)

text \<open>Popping the current queue, when it has an item.\<close>

lemma fq_pop_current_spec:
  assumes "fq_inv q" "fq_current q = Some c" "fq_contents q c \<noteq> []"
  shows "\<exists>x xs q'. fq_pop_current q = Some (Some (c, x), q') \<and> fq_contents q c = x # xs \<and>
    fq_contents q' = (fq_contents q)(c := xs) \<and> fq_inv q' \<and> fq_len q' = fq_len q - 1 \<and>
    fq_current q' = Some c \<and> fq_counter q' = fq_counter q + 1 \<and> fmdom (fq_queues q') = fmdom (fq_queues q) \<and>
    fq_priority_query q' = fq_priority_query q"
proof -
  from assms(3) obtain e x xs where
    e: "fmlookup (fq_queues q) c = Some e" "fe_requests e = x # xs"
    unfolding fq_contents_nonempty by (auto simp: neq_Nil_conv)
  let ?q' = "q\<lparr>fq_counter := fq_counter q + 1, fq_total_len := fq_total_len q - 1,
    fq_queues := fmupd c (e\<lparr>fe_requests := xs\<rparr>) (fq_queues q)\<rparr>"
  have sum: "fq_sum (fq_queues ?q') + 1 = fq_total_len q"
    using fq_sum_upd [of c "e\<lparr>fe_requests := xs\<rparr>" "fq_queues q"] assms(1) e by (simp add: fq_inv_def)
  then have "fq_pop_current q = Some (Some (c, x), ?q')"
    using assms(2) e by (auto simp: fq_pop_current_def)
  moreover have "fq_contents ?q' = (fq_contents q)(c := xs)"
    by (auto simp: fq_contents_def fun_eq_iff)
  moreover have "length xs \<le> fq_max_size_query q c" "fe_max_size e = fq_max_size_query q c"
    "fe_priority e = fq_priority_query q c"
    using assms(1) e by (force simp: fq_inv_def)+
  then have "fq_inv ?q'"
    using assms(1,2) sum by (auto simp: fq_inv_def)
  moreover have "fmdom (fq_queues ?q') = fmdom (fq_queues q)"
    using e(1) by (auto simp: fmlookup_dom_iff)
  ultimately show ?thesis
    using e assms(2) by (auto simp: fq_contents_def fq_len_def)
qed

text \<open>
  What \<open>next\<close> does while something is queued: it serves the current queue, or moves on to the
  first queue of the round that has an item.
\<close>

definition fq_burst :: "('s, 't) fair_queue \<Rightarrow> 's \<Rightarrow> nat" where
  "fq_burst q s = max 1 (fq_priority_query q s)"

lemma fq_next_spec:
  assumes "fq_inv q" "fq_contents q k \<noteq> []"
  shows "\<exists>c x xs q'. fq_next q = Some (Some (c, x), q') \<and> fq_contents q c = x # xs \<and>
    fq_contents q' = (fq_contents q)(c := xs) \<and> fq_inv q' \<and> fq_len q' = fq_len q - 1 \<and>
    fq_current q' = Some c \<and> fmdom (fq_queues q') = fmdom (fq_queues q) \<and>
    fq_priority_query q' = fq_priority_query q \<and>
    (if fq_should_seek q
     then fq_counter q' = 1 \<and> (c = k \<or> c \<in> fq_between (fq_queues q) (fq_current q) k \<and>
       fq_between (fq_queues q) (Some c) k \<subseteq> fq_between (fq_queues q) (fq_current q) k - {c})
     else fq_counter q' = fq_counter q + 1 \<and> fq_current q = Some c \<and> fq_counter q < fq_burst q c)"
proof (cases "fq_should_seek q")
  case True
  from assms(2) obtain e where e: "fmlookup (fq_queues q) k = Some e" "fe_requests e \<noteq> []"
    by (auto simp: fq_contents_nonempty)
  from fq_seek_loop_spec [OF fq_inv_cursor [OF assms(1)] e] obtain n e' where
    n: "fq_seek_loop (fq_queues q) (fq_current q) = Some n" "fmlookup (fq_queues q) n = Some e'"
       "fe_requests e' \<noteq> []"
       "n = k \<or> n \<in> fq_between (fq_queues q) (fq_current q) k \<and>
        fq_between (fq_queues q) (Some n) k \<subseteq> fq_between (fq_queues q) (fq_current q) k - {n}"
    by blast
  let ?q = "q\<lparr>fq_counter := 0, fq_current := Some n\<rparr>"
  have "fq_inv ?q" "fq_current ?q = Some n" "fq_contents ?q n \<noteq> []"
    using assms(1) n by (auto simp: fq_inv_def fq_contents_def)
  from fq_pop_current_spec [OF this] show ?thesis
    using True n(1,4) by (force simp: fq_next_def fq_seek_next_def fq_contents_def fq_len_def)
next
  case False
  then obtain c e where c: "fq_current q = Some c" "fmlookup (fq_queues q) c = Some e" "fe_requests e \<noteq> []"
    "fq_counter q < fe_priority e"
    by (auto simp: fq_should_seek_def split: option.splits)
  then have "fq_contents q c \<noteq> []"
    by (auto simp: fq_contents_def)
  moreover have "fq_counter q < fq_burst q c"
    using assms(1) c by (auto simp: fq_inv_def fq_burst_def)
  ultimately show ?thesis
    using fq_pop_current_spec [OF assms(1) c(1)] False c(1) by (force simp: fq_next_def)
qed

interpretation fair: multi_queue fq_inv fq_contents fq_len fq_next
proof
  fix q :: "('a, 'b) fair_queue"
  assume q: "fq_inv q" "0 < fq_len q"
  then obtain k where "fq_contents q k \<noteq> []"
    using fq_sum_pos [of "fq_queues q"]
    by (auto simp: fq_inv_def fq_len_def fq_contents_nonempty)
  from fq_next_spec [OF q(1) this]
  show "\<exists>k x xs q'. fq_next q = Some (Some (k, x), q') \<and> fq_contents q k = x # xs \<and>
       fq_contents q' = (fq_contents q)(k := xs) \<and> fq_inv q' \<and> fq_len q' = fq_len q - 1"
    by blast
qed

section \<open>Fairness\<close>

text \<open>
  The items of other sources that can still be served before one of \<open>k\<close>: the rest of the current
  burst and a whole burst for every queue between the current one and \<open>k\<close>.
\<close>

definition fq_wait :: "('s::linorder, 't) fair_queue \<Rightarrow> 's \<Rightarrow> nat" where
  "fq_wait q k =
     (case fq_current q of
        None \<Rightarrow> 0
      | Some c \<Rightarrow> if c \<noteq> k \<and> \<not> fq_should_seek q then fq_burst q c - fq_counter q else 0) +
     (\<Sum>x\<in>fq_between (fq_queues q) (fq_current q) k. fq_burst q x)"

lemma fq_between_dom: "fmdom qs = fmdom qs' \<Longrightarrow> fq_between qs cur k = fq_between qs' cur k"
  by (simp add: fq_between_def)

lemma fq_wait_step:
  assumes "fq_inv q" "fq_contents q k \<noteq> []" "fq_next q = Some (Some (c, x), q')" "c \<noteq> k"
  shows "fq_wait q' k < fq_wait q k"
proof -
  let ?B = "fq_between (fq_queues q) (fq_current q) k" and ?C = "fq_between (fq_queues q) (Some c) k"
  from fq_next_spec [OF assms(1,2)] assms(3) have
    n: "fq_current q' = Some c" "fmdom (fq_queues q') = fmdom (fq_queues q)"
      "fq_priority_query q' = fq_priority_query q"
      "if fq_should_seek q then fq_counter q' = 1 \<and> (c = k \<or> c \<in> ?B \<and> ?C \<subseteq> ?B - {c})
       else fq_counter q' = fq_counter q + 1 \<and> fq_current q = Some c \<and> fq_counter q < fq_burst q c"
    by auto
  have b: "fq_burst q' = fq_burst q"
    using n(3) by (simp add: fq_burst_def fun_eq_iff)
  have w: "fq_wait q' k \<le> fq_burst q c - fq_counter q' + (\<Sum>x\<in>?C. fq_burst q x)"
    by (simp add: fq_wait_def n(1) b fq_between_dom [OF n(2)])
  show ?thesis
  proof (cases "fq_should_seek q")
    case True
    then have c: "c \<in> ?B" "?C \<subseteq> ?B - {c}" "fq_counter q' = 1"
      using n(4) assms(4) by auto
    have "(\<Sum>x\<in>?C. fq_burst q x) \<le> (\<Sum>x\<in>?B - {c}. fq_burst q x)"
      using c(2) finite_fq_between by (intro sum_mono2) auto
    moreover have "(\<Sum>x\<in>?B. fq_burst q x) = fq_burst q c + (\<Sum>x\<in>?B - {c}. fq_burst q x)"
      by (rule sum.remove [OF finite_fq_between c(1)])
    moreover have "(\<Sum>x\<in>?B. fq_burst q x) \<le> fq_wait q k" "1 \<le> fq_burst q c"
      by (simp_all add: fq_wait_def fq_burst_def)
    ultimately show ?thesis
      using w c(3) by linarith
  next
    case False
    then have "fq_wait q k = fq_burst q c - fq_counter q + (\<Sum>x\<in>?C. fq_burst q x)"
      using n(4) assms(4) by (simp add: fq_wait_def)
    moreover have "fq_counter q' = fq_counter q + 1" "fq_counter q < fq_burst q c"
      using n(4) False by auto
    ultimately show ?thesis
      using w by linarith
  qed
qed

lemma fq_wait_bound:
  assumes "fq_inv q"
  shows "fq_wait q k \<le> (\<Sum>x\<in>fset (fmdom (fq_queues q)) - {k}. fq_burst q x)"
proof -
  let ?B = "fq_between (fq_queues q) (fq_current q) k" and ?D = "fset (fmdom (fq_queues q)) - {k}"
  have B: "?B \<subseteq> ?D"
    by (auto simp: fq_between_def split: option.splits if_splits)
  show ?thesis
  proof (cases "\<exists>c. fq_current q = Some c \<and> c \<noteq> k")
    case True
    then obtain c where c: "fq_current q = Some c" "c \<noteq> k" "c |\<in>| fmdom (fq_queues q)"
      using fq_inv_cursor [OF assms] by (auto simp: fq_cursor_ok_def)
    have "c \<notin> ?B"
      by (auto simp: fq_between_def c(1) split: if_splits)
    then have "fq_burst q c + (\<Sum>x\<in>?B. fq_burst q x) = (\<Sum>x\<in>insert c ?B. fq_burst q x)"
      by (simp add: sum.insert [OF finite_fq_between])
    also have "\<dots> \<le> (\<Sum>x\<in>?D. fq_burst q x)"
      using B c by (intro sum_mono2) auto
    finally show ?thesis
      unfolding fq_wait_def c(1) by (auto intro: order_trans [rotated])
  next
    case False
    then have "fq_wait q k = (\<Sum>x\<in>?B. fq_burst q x)"
      by (auto simp: fq_wait_def split: option.splits)
    then show ?thesis
      using B by (simp add: sum_mono2)
  qed
qed

lemma fq_served:
  "fq_inv q \<Longrightarrow> fq_contents q k \<noteq> [] \<Longrightarrow> fq_wait q k < n \<Longrightarrow>
   take_batch fq_next n q = Some (xs, q') \<Longrightarrow> k \<in> fst ` set xs"
proof (induction n arbitrary: q xs)
  case (Suc n)
  from fq_next_spec [OF Suc.prems(1,2)] obtain c x ys q1 where
    n: "fq_next q = Some (Some (c, x), q1)" "fq_contents q1 = (fq_contents q)(c := ys)" "fq_inv q1"
    by blast
  with Suc.prems(4) obtain zs where z: "take_batch fq_next n q1 = Some (zs, q')" "xs = (c, x) # zs"
    by auto
  show ?case
  proof (cases "c = k")
    case False
    then have "fq_contents q1 k \<noteq> []" "fq_wait q1 k < n"
      using n(2) Suc.prems(2,3) fq_wait_step [OF Suc.prems(1,2) n(1)] by auto
    then show ?thesis
      using Suc.IH [OF n(3) _ _ z(1)] z(2) by auto
  qed (simp add: z(2))
qed simp

section \<open>Batches\<close>

lemma fq_next_batch_spec:
  assumes "fq_inv q"
  shows "\<exists>xs q'. fq_next_batch q n = Some (xs, q') \<and> length xs = min (fq_len q) n \<and> fq_inv q' \<and>
    fq_len q' = fq_len q - n \<and>
    (\<forall>k. fq_contents q k = map snd (filter (\<lambda>x. fst x = k) xs) @ fq_contents q' k)"
proof -
  have "fq_len q - min (fq_len q) n = fq_len q - n"
    by simp
  then show ?thesis
    using fair.batch [OF assms, of "min (fq_len q) n"] by (auto simp: fq_next_batch_def)
qed

lemma fq_next_batch_serves:
  assumes "fq_inv q" "fq_contents q k \<noteq> []" "n \<le> fq_len q"
    and "(\<Sum>x\<in>fset (fmdom (fq_queues q)) - {k}. fq_burst q x) < n"
  shows "\<exists>xs q'. fq_next_batch q n = Some (xs, q') \<and> k \<in> fst ` set xs"
proof -
  from fq_next_batch_spec [OF assms(1), of n] obtain xs q' where b: "fq_next_batch q n = Some (xs, q')"
    by blast
  then have "take_batch fq_next n q = Some (xs, q')"
    using assms(3) by (simp add: fq_next_batch_def min_absorb2)
  moreover have "fq_wait q k < n"
    using fq_wait_bound [OF assms(1), of k] assms(4) by simp
  ultimately show ?thesis
    using fq_served [OF assms(1,2)] b by blast
qed

text \<open>Emptying the queue with \<open>clear\<close> keeps the count of the items that were dropped.\<close>

lemma fq_next_no_queues: "fq_queues q = fmempty \<Longrightarrow> fq_next q = None"
  by (auto simp: fq_next_def fq_should_seek_def fq_seek_next_def fq_next_key_def fq_advance_def
      first_key_def entries_from_def sorted_list_of_fmap_def fq_seek_loop.simps split: option.splits)

lemma fq_clear_stale:
  assumes "0 < fq_len q" "0 < n"
  shows "fq_len (fq_clear q) = fq_len q" "fq_contents (fq_clear q) k = []" "fq_next_batch (fq_clear q) n = None"
proof -
  obtain m where "min (fq_len (fq_clear q)) n = Suc m"
    using assms by (cases "min (fq_len (fq_clear q)) n") (auto simp: fq_len_def fq_clear_def min_def split: if_splits)
  then show "fq_next_batch (fq_clear q) n = None"
    by (simp add: fq_next_batch_def fq_next_no_queues fq_clear_def)
qed (simp_all add: fq_len_def fq_clear_def fq_contents_def)

section \<open>The queue as a specification\<close>

text \<open>
  Abstractly the queue is one list per source. A push appends to the list of its source as long as
  it is below the capacity of the source and says whether it did; removing a source empties its
  list; a batch takes from the front of the lists and stops early only when all of them are empty.
\<close>

datatype ('s, 't) fq_op = FqPush 's 't | FqRemove 's | FqNextBatch nat

datatype ('s, 't) fq_out = FqPushed bool | FqRemoved | FqBatch "('s \<times> 't) list"

fun fq_step :: "('s::linorder, 't) fq_op \<Rightarrow> ('s, 't) fair_queue \<Rightarrow> (('s, 't) fq_out \<times> ('s, 't) fair_queue) option" where
  "fq_step (FqPush s x) q = (case fq_push s x q of (added, q') \<Rightarrow> Some (FqPushed added, q'))"
| "fq_step (FqRemove s) q = map_option (\<lambda>q'. (FqRemoved, q')) (fq_remove s q)"
| "fq_step (FqNextBatch n) q = map_option (\<lambda>(xs, q'). (FqBatch xs, q')) (fq_next_batch q n)"

fun fq_spec :: "('s \<Rightarrow> nat) \<Rightarrow> ('s \<Rightarrow> 't list) \<Rightarrow> ('s, 't) fq_op \<Rightarrow> ('s, 't) fq_out \<Rightarrow> ('s \<Rightarrow> 't list) \<Rightarrow> bool" where
  "fq_spec cap c (FqPush s x) (FqPushed added) c' \<longleftrightarrow>
     (added \<longleftrightarrow> length (c s) < cap s) \<and> c' = (if added then c(s := c s @ [x]) else c)"
| "fq_spec cap c (FqRemove s) FqRemoved c' \<longleftrightarrow> c' = c(s := [])"
| "fq_spec cap c (FqNextBatch n) (FqBatch xs) c' \<longleftrightarrow>
     (\<forall>s. c s = map snd (filter (\<lambda>x. fst x = s) xs) @ c' s) \<and>
     length xs \<le> n \<and> (length xs = n \<or> (\<forall>s. c' s = []))"
| "fq_spec cap c _ _ c' \<longleftrightarrow> False"

lemma fq_contents_empty:
  assumes "fq_inv q" "fq_len q = 0"
  shows "fq_contents q s = []"
proof (cases "fmlookup (fq_queues q) s")
  case (Some e)
  then show ?thesis
    using assms fq_sum_drop [OF Some] by (simp add: fq_inv_def fq_len_def fq_contents_def)
qed (simp add: fq_contents_def)

lemma fq_new_empty [simp]:
  "fq_contents (fq_new cap priority) = (\<lambda>_. [])" "fq_max_size_query (fq_new cap priority) = cap"
  by (simp_all add: fun_eq_iff fq_contents_def fq_new_def)

lemma fq_push_capacity: "fq_max_size_query (snd (fq_push s x q)) = fq_max_size_query q"
  by (simp add: fq_push_def Let_def case_prod_unfold)

lemma fq_remove_capacity: "fq_remove s q = Some q' \<Longrightarrow> fq_max_size_query q' = fq_max_size_query q"
  by (auto simp: fq_remove_def split: option.splits if_splits)

lemma fq_pop_current_capacity: "fq_pop_current q = Some (r, q') \<Longrightarrow> fq_max_size_query q' = fq_max_size_query q"
  by (auto simp: fq_pop_current_def split: if_splits option.splits list.splits)

lemma fq_next_capacity: "fq_next q = Some (r, q') \<Longrightarrow> fq_max_size_query q' = fq_max_size_query q"
  by (auto simp: fq_next_def fq_seek_next_def bind_eq_Some_conv dest: fq_pop_current_capacity split: if_splits)

lemma take_batch_capacity:
  "take_batch fq_next n q = Some (xs, q') \<Longrightarrow> fq_max_size_query q' = fq_max_size_query q"
proof (induction n arbitrary: q xs)
  case (Suc n)
  then show ?case
    using fq_next_capacity by (fastforce split: option.splits prod.splits)
qed simp

interpretation fq_trace: simulation "\<lambda>q. fq_inv q \<and> fq_max_size_query q = cap" fq_contents "\<lambda>_. True"
  fq_step "fq_spec cap" for cap :: "'s::linorder \<Rightarrow> nat"
proof
  fix q :: "('s, 't) fair_queue" and op :: "('s, 't) fq_op"
  assume q: "fq_inv q \<and> fq_max_size_query q = cap"
  show "\<exists>out q'. fq_step op q = Some (out, q') \<and> (fq_inv q' \<and> fq_max_size_query q' = cap) \<and>
    fq_spec cap (fq_contents q) op out (fq_contents q')"
  proof (cases op)
    case (FqPush s x)
    obtain added q' where p: "fq_push s x q = (added, q')"
      by fastforce
    then show ?thesis
      using FqPush q fq_push_spec [OF _ p] fq_push_capacity [of s x q] by (auto simp: fun_upd_idem)
  next
    case (FqRemove s)
    then show ?thesis
      using q fq_remove_spec [of q s] fq_remove_capacity [of s q] by fastforce
  next
    case (FqNextBatch n)
    from fq_next_batch_spec [of q n] q obtain xs q' where
      b: "fq_next_batch q n = Some (xs, q')" "length xs = min (fq_len q) n" "fq_inv q'"
        "fq_len q' = fq_len q - n" "\<forall>k. fq_contents q k = map snd (filter (\<lambda>x. fst x = k) xs) @ fq_contents q' k"
      by blast
    have "fq_max_size_query q' = cap"
      using take_batch_capacity b(1) q unfolding fq_next_batch_def by blast
    moreover have "length xs = n \<or> (\<forall>s. fq_contents q' s = [])"
      using b(2-4) fq_contents_empty [of q'] by (cases "n \<le> fq_len q") (auto simp: min_def)
    ultimately show ?thesis
      using FqNextBatch b by (auto intro!: exI [of _ "FqBatch xs"] exI [of _ q'])
  qed
qed

section \<open>Properties\<close>

text \<open>
  C22. Whatever sequence of pushes, removals and batches is run on a new queue, no operation panics or
  loops, and the run is one of the specification: a push is refused exactly when its source is at
  its capacity, nothing is lost, duplicated or reordered within a source, and a batch is shorter
  than requested only if it leaves the queue empty.
\<close>

theorem fair_queue_refines_lists:
  "\<exists>outs q. run_ops fq_step ops (fq_new cap priority) = Some (outs, q) \<and>
     spec_run (fq_spec cap) ops outs (\<lambda>_. []) (fq_contents q)"
  using fq_trace.run_simulates [of "fq_new cap priority" cap ops] fq_new_empty fq_inv_new by auto

text \<open>
  C25. No source starves: in every state a queue can get into, a batch that is longer than the other
  sources together may take in one round contains an item of each source that has one.
\<close>

theorem fair_queue_serves_every_source:
  assumes "run_ops fq_step ops (fq_new cap priority) = Some (outs, q)"
    and "fq_contents q k \<noteq> []" and "n \<le> fq_len q"
    and "(\<Sum>x\<in>fset (fmdom (fq_queues q)) - {k}. max 1 (fq_priority_query q x)) < n"
  shows "\<exists>xs q'. fq_next_batch q n = Some (xs, q') \<and> k \<in> fst ` set xs"
proof -
  have "fq_inv q"
    using fq_trace.run_simulates [of "fq_new cap priority" cap ops] fq_new_empty fq_inv_new assms(1) by auto
  then show ?thesis
    using fq_next_batch_serves [OF _ assms(2,3)] assms(4) by (simp add: fq_burst_def)
qed

theorem fair_queue_serves_every_source_witness:
  "\<exists>outs q xs q'. run_ops fq_step [FqPush (1::nat) ''a'', FqPush 1 ''b'', FqPush 2 ''c''] (fq_new (\<lambda>_. 4) (\<lambda>_. 1))
       = Some (outs, q) \<and>
     fq_next_batch q 2 = Some (xs, q') \<and> 2 \<in> fst ` set xs"
proof -
  define ops where "ops = [FqPush (1::nat) ''a'', FqPush 1 ''b'', FqPush 2 ''c'']"
  define q where "q = snd (the (run_ops fq_step ops (fq_new (\<lambda>_. 4) (\<lambda>_. 1))))"
  have run: "run_ops fq_step ops (fq_new (\<lambda>_. 4) (\<lambda>_. 1)) = Some ([FqPushed True, FqPushed True, FqPushed True], q)"
    by (simp add: q_def ops_def fq_push_def fq_new_def fq_entry_push_def fq_entry_new_def Let_def)
  have "fq_contents q 2 \<noteq> []" "2 \<le> fq_len q"
    "(\<Sum>x\<in>fset (fmdom (fq_queues q)) - {2}. max 1 (fq_priority_query q x)) < 2"
    by (simp_all add: q_def ops_def fq_push_def fq_new_def fq_entry_push_def fq_entry_new_def Let_def
        fq_contents_def fq_len_def insert_Diff_if)
  from fair_queue_serves_every_source [OF run this] show ?thesis
    using run unfolding ops_def by blast
qed

text \<open>
  C37. Clearing a queue that is not empty leaves its length as it was although nothing is queued any
  more, and the next batch panics.
\<close>

theorem fair_queue_clear_keeps_length:
  assumes "0 < fq_len q" and "0 < n"
  shows "fq_len (fq_clear q) = fq_len q \<and> (\<forall>k. fq_contents (fq_clear q) k = []) \<and>
    fq_next_batch (fq_clear q) n = None"
  using fq_clear_stale [OF assms] by simp

theorem fair_queue_clear_keeps_length_witness:
  "\<exists>q. q = snd (fq_push (1::nat) ''a'' (fq_new (\<lambda>_. 4) (\<lambda>_. 1))) \<and> fq_len (fq_clear q) = 1 \<and>
     fq_next_batch (fq_clear q) 1 = None"
proof -
  define q where "q = snd (fq_push (1::nat) ''a'' (fq_new (\<lambda>_. 4) (\<lambda>_. 1)))"
  have "fq_len q = 1"
    by (simp add: q_def fq_push_def fq_new_def fq_entry_push_def fq_entry_new_def Let_def fq_len_def)
  then show ?thesis
    using fair_queue_clear_keeps_length [of q 1] by (auto simp: q_def)
qed

end
