(* ===== verification/Indexes.thy ===== *)
theory Indexes
  imports Ordered_Maps "HOL-Library.Monad_Syntax"
begin

text \<open>
  The node keeps its working sets in containers with one primary map and several secondary
  indexes: maps from a property of the entries to the identifiers of the entries that have it,
  and a queue of the identifiers in the order of insertion. This theory has the operations on
  such indexes (\<open>entry(k).or_default().push(x)\<close> and the removal that drops a list that would
  become empty), what it means for an index to agree with the primary map, and the contract
  \<open>sequenced_map\<close> of a container whose oldest entries are dropped when it overflows.
\<close>

section \<open>Definitions\<close>

type_synonym ('k, 'i) index = "('k, 'i list) fmap"

definition idx_get :: "('k, 'i) index \<Rightarrow> 'k \<Rightarrow> 'i list" where
  "idx_get ix k = (case fmlookup ix k of None \<Rightarrow> [] | Some l \<Rightarrow> l)"

definition idx_push :: "'k \<Rightarrow> 'i \<Rightarrow> ('k, 'i) index \<Rightarrow> ('k, 'i) index" where
  "idx_push k x ix = fmupd k (idx_get ix k @ [x]) ix"

text \<open>\<open>get_mut(k).unwrap()\<close>, then \<open>retain\<close> or the removal of the whole list.\<close>

definition idx_remove :: "'k \<Rightarrow> 'i \<Rightarrow> ('k, 'i) index \<Rightarrow> ('k, 'i) index option" where
  "idx_remove k x ix =
     (case fmlookup ix k of
        None \<Rightarrow> None
      | Some l \<Rightarrow>
          Some (if length l > 1 then fmupd k (filter (\<lambda>y. y \<noteq> x) l) ix else fmdrop k ix))"

text \<open>The same with the test \<open>len() == 1\<close>.\<close>

definition idx_remove_last :: "'k \<Rightarrow> 'i \<Rightarrow> ('k, 'i) index \<Rightarrow> ('k, 'i) index option" where
  "idx_remove_last k x ix =
     (case fmlookup ix k of
        None \<Rightarrow> None
      | Some l \<Rightarrow>
          Some (if length l = 1 then fmdrop k ix else fmupd k (filter (\<lambda>y. y \<noteq> x) l) ix))"

text \<open>
  An index agrees with the primary map \<open>m\<close> when its list for \<open>k\<close> has exactly the identifiers of
  the entries with the property \<open>k\<close>, once each, and it has no empty lists.
\<close>

definition index_ok :: "('v \<Rightarrow> 'k) \<Rightarrow> ('i, 'v) fmap \<Rightarrow> ('k, 'i) index \<Rightarrow> bool" where
  "index_ok f m ix \<longleftrightarrow>
     (\<forall>k. distinct (idx_get ix k)) \<and>
     (\<forall>k x. x \<in> set (idx_get ix k) \<longleftrightarrow> (\<exists>v. fmlookup m x = Some v \<and> f v = k)) \<and>
     (\<forall>k. fmlookup ix k \<noteq> Some [])"

definition sequence_ok :: "('i, 'v) fmap \<Rightarrow> 'i list \<Rightarrow> bool" where
  "sequence_ok m xs \<longleftrightarrow> distinct xs \<and> (\<forall>x. x \<in> set xs \<longleftrightarrow> fmlookup m x \<noteq> None)"

text \<open>\<open>map(|i| get(i).unwrap()).find(ok)\<close>: the outer option is the failed lookup.\<close>

fun find_entry :: "('i \<Rightarrow> 'e option) \<Rightarrow> ('e \<Rightarrow> bool) \<Rightarrow> 'i list \<Rightarrow> 'e option option" where
  "find_entry get ok [] = Some None"
| "find_entry get ok (i # is) =
     (case get i of None \<Rightarrow> None | Some e \<Rightarrow> if ok e then Some (Some e) else find_entry get ok is)"

section \<open>Indexes\<close>

lemma those_map_Some: "\<forall>x\<in>set xs. \<exists>y. f x = Some y \<Longrightarrow> those (map f xs) = Some (map (the \<circ> f) xs)"
  by (induction xs) auto

lemma those_map_None: "x \<in> set xs \<Longrightarrow> f x = None \<Longrightarrow> those (map f xs) = None"
  by (induction xs) (auto split: option.splits)

lemma index_okD:
  assumes "index_ok f m ix"
  shows "distinct (idx_get ix k)" "x \<in> set (idx_get ix k) \<longleftrightarrow> (\<exists>v. fmlookup m x = Some v \<and> f v = k)"
    "fmlookup ix k \<noteq> Some []"
  using assms by (simp_all add: index_ok_def)

lemma idx_get_mem: "x \<in> set (idx_get ix k) \<longleftrightarrow> (\<exists>l. fmlookup ix k = Some l \<and> x \<in> set l)"
  by (cases "fmlookup ix k") (simp_all add: idx_get_def)

lemma index_ok_empty [simp]: "index_ok f fmempty fmempty"
  by (simp add: index_ok_def idx_get_def)

lemma idx_get_push: "idx_get (idx_push k x ix) k' = (if k' = k then idx_get ix k @ [x] else idx_get ix k')"
  by (simp add: idx_get_def idx_push_def)

lemma index_ok_push:
  assumes "index_ok f m ix" "fmlookup m x = None" "k = f v"
  shows "index_ok f (fmupd x v m) (idx_push k x ix)"
proof -
  have "fmlookup (idx_push k x ix) k' \<noteq> Some []" for k'
    using index_okD(3) [OF assms(1), of k'] by (simp add: idx_push_def)
  moreover have "x \<notin> set (idx_get ix k')" for k'
    using index_okD(2) [OF assms(1)] assms(2) by auto
  moreover have "y \<in> set (idx_get (idx_push k x ix) k') \<longleftrightarrow>
      (\<exists>w. fmlookup (fmupd x v m) y = Some w \<and> f w = k')" for y k'
    using index_okD(2) [OF assms(1), of y k'] assms(2,3)
    by (cases "k' = k") (auto simp: idx_get_push)
  ultimately show ?thesis
    using index_okD(1) [OF assms(1)] by (simp add: index_ok_def idx_get_push)
qed

lemma idx_remove_get:
  assumes "idx_remove k x ix = Some ix'" "x \<in> set (idx_get ix k)" "distinct (idx_get ix k)"
  shows "idx_get ix' k' = (if k' = k then filter (\<lambda>y. y \<noteq> x) (idx_get ix k) else idx_get ix k')"
proof -
  from assms obtain l where l: "fmlookup ix k = Some l"
    "ix' = (if length l > 1 then fmupd k (filter (\<lambda>y. y \<noteq> x) l) ix else fmdrop k ix)"
    by (auto simp: idx_remove_def split: option.splits)
  moreover have "filter (\<lambda>y. y \<noteq> x) l = []" if "\<not> length l > 1"
    using assms(2) l that by (cases l) (auto simp: idx_get_def)
  ultimately show ?thesis
    by (auto simp: idx_get_def)
qed

lemma filter_absent: "x \<notin> set xs \<Longrightarrow> filter (\<lambda>y. y \<noteq> x) xs = xs"
  by (auto simp: filter_id_conv)

lemma filter_neq_nonempty:
  assumes "distinct l" "1 < length l"
  shows "filter (\<lambda>y. y \<noteq> x) l \<noteq> []"
proof
  assume "filter (\<lambda>y. y \<noteq> x) l = []"
  then have "set l \<subseteq> {x}"
    by (auto simp: filter_empty_conv)
  then have "card (set l) \<le> 1"
    by (metis card.empty card_insert_disjoint card_mono empty_iff finite.emptyI finite.insertI One_nat_def)
  with assms show False
    by (simp add: distinct_card)
qed

lemma index_ok_remove:
  assumes "index_ok f m ix" "fmlookup m x = Some v" "k = f v"
  shows "\<exists>ix'. idx_remove k x ix = Some ix' \<and> index_ok f (fmdrop x m) ix'"
proof -
  have x: "x \<in> set (idx_get ix k)"
    using index_okD(2) [OF assms(1)] assms(2,3) by auto
  then obtain ix' where r: "idx_remove k x ix = Some ix'"
    by (cases "fmlookup ix k") (auto simp: idx_remove_def idx_get_def)
  note g = idx_remove_get [OF r x index_okD(1) [OF assms(1)]]
  have "fmlookup ix' k' \<noteq> Some []" for k'
    using r index_okD(3) [OF assms(1), of k'] index_okD(1) [OF assms(1), of k] filter_neq_nonempty [of _ x]
    by (auto simp: idx_remove_def idx_get_def split: option.splits if_splits)
  moreover have "y \<in> set (idx_get ix' k') \<longleftrightarrow> (\<exists>w. fmlookup (fmdrop x m) y = Some w \<and> f w = k')" for y k'
    using index_okD(2) [OF assms(1), of y k'] assms(2,3) by (auto simp: g)
  ultimately have "index_ok f (fmdrop x m) ix'"
    using index_okD(1) [OF assms(1)] by (simp add: index_ok_def g)
  with r show ?thesis
    by blast
qed

lemma idx_remove_last_eq:
  assumes "index_ok f m ix"
  shows "idx_remove_last k x ix = idx_remove k x ix"
proof (cases "fmlookup ix k")
  case (Some l)
  then have "l \<noteq> []"
    using index_okD(3) [OF assms, of k] by auto
  then show ?thesis
    by (cases l) (auto simp: idx_remove_last_def idx_remove_def Some)
qed (simp add: idx_remove_last_def idx_remove_def)

lemma index_ok_same_key:
  assumes "index_ok f m ix" "fmlookup m x = Some v" "f v' = f v"
  shows "index_ok f (fmupd x v' m) ix"
  using assms by (auto simp: index_ok_def)

text \<open>Moving an entry from one list to another.\<close>

lemma index_ok_move:
  assumes "index_ok f m ix" "fmlookup m x = Some v" "k = f v"
  shows "\<exists>ix'. idx_remove k x ix = Some ix' \<and> index_ok f (fmupd x v' m) (idx_push (f v') x ix')"
proof -
  from index_ok_remove [OF assms] obtain ix' where
    r: "idx_remove k x ix = Some ix'" "index_ok f (fmdrop x m) ix'"
    by blast
  moreover have "index_ok f (fmupd x v' (fmdrop x m)) (idx_push (f v') x ix')"
    by (rule index_ok_push [OF r(2)]) simp_all
  ultimately show ?thesis
    by simp
qed

section \<open>Traversing an index\<close>

lemma find_entry_Some:
  "\<forall>i\<in>set is. \<exists>e. get i = Some e \<Longrightarrow> find_entry get ok is = Some (List.find ok (map (the \<circ> get) is))"
  by (induction "is") auto

lemma sorted_wrt_concat:
  "\<forall>xs\<in>set xss. sorted_wrt R xs \<Longrightarrow> sorted_wrt (\<lambda>xs ys. \<forall>x\<in>set xs. \<forall>y\<in>set ys. R x y) xss \<Longrightarrow>
   sorted_wrt R (concat xss)"
  by (induction xss) (auto simp: sorted_wrt_append)

text \<open>The first match in a sorted list comes before every other match.\<close>

lemma find_first:
  assumes "List.find ok xs = Some x" "sorted_wrt R xs" "y \<in> set xs" "ok y"
  shows "y = x \<or> R x y"
proof -
  from assms(1) obtain i where i: "i < length xs" "xs ! i = x" "\<forall>j<i. \<not> ok (xs ! j)"
    by (auto simp: find_Some_iff)
  from assms(3) obtain j where j: "j < length xs" "xs ! j = y"
    by (auto simp: in_set_conv_nth)
  then have "i \<le> j"
    using i(3) assms(4) by (metis not_le)
  then show ?thesis
    using assms(2) i j by (cases "i = j") (auto simp: sorted_wrt_iff_nth_less)
qed

text \<open>
  The lists of an index, visited in the order of their keys, have every identifier of the primary
  map, ordered by the property.
\<close>

lemma index_flat:
  assumes "index_ok f m ix" "set L = set (sorted_list_of_fmap ix)" "sorted_wrt (\<lambda>x y. R (fst x) (fst y)) L"
    and "\<And>k. R k k"
  shows "a \<in> set (concat (map snd L)) \<longleftrightarrow> fmlookup m a \<noteq> None"
    "sorted_wrt (\<lambda>a b. R (f (the (fmlookup m a))) (f (the (fmlookup m b)))) (concat (map snd L))"
proof -
  let ?R = "\<lambda>a b. R (f (the (fmlookup m a))) (f (the (fmlookup m b)))"
  have mem: "a \<in> set l \<longleftrightarrow> (\<exists>e. fmlookup m a = Some e \<and> f e = k)" if "(k, l) \<in> set L" for a k l
    using index_okD(2) [OF assms(1), of a k] that by (simp add: assms(2) set_sorted_list_of_fmap idx_get_def)
  have key: "f (the (fmlookup m a)) = k" if "(k, l) \<in> set L" "a \<in> set l" for a k l
    using mem [OF that(1), of a] that(2) by auto
  show "a \<in> set (concat (map snd L)) \<longleftrightarrow> fmlookup m a \<noteq> None"
  proof
    assume "a \<in> set (concat (map snd L))"
    then obtain k l where "(k, l) \<in> set L" "a \<in> set l"
      by auto
    then show "fmlookup m a \<noteq> None"
      using mem by blast
  next
    assume "fmlookup m a \<noteq> None"
    then obtain e where "fmlookup m a = Some e"
      by auto
    then have "a \<in> set (idx_get ix (f e))"
      using index_okD(2) [OF assms(1), of a "f e"] by simp
    then obtain l where "(f e, l) \<in> set L" "a \<in> set l"
      by (auto simp: idx_get_mem assms(2) set_sorted_list_of_fmap)
    then show "a \<in> set (concat (map snd L))"
      by (auto intro!: bexI [of _ "(f e, l)"])
  qed
  have "sorted_wrt ?R l" if "(k, l) \<in> set L" for k l
    using key [OF that] assms(4) by (simp add: sorted_wrt_iff_nth_less)
  moreover have "sorted_wrt (\<lambda>x y. \<forall>a\<in>set (snd x). \<forall>b\<in>set (snd y). ?R a b) L"
    using assms(3) by (rule sorted_wrt_mono_rel [rotated]) (use key in \<open>auto simp: key\<close>)
  ultimately show "sorted_wrt ?R (concat (map snd L))"
    by (intro sorted_wrt_concat) (auto simp: sorted_wrt_map)
qed

section \<open>The order of insertion\<close>

lemma sequence_ok_empty [simp]: "sequence_ok fmempty []"
  by (simp add: sequence_ok_def)

lemma sequence_ok_mem: "sequence_ok m xs \<Longrightarrow> x \<in> set xs \<longleftrightarrow> fmlookup m x \<noteq> None"
  by (auto simp: sequence_ok_def)

lemma sequence_ok_snoc:
  "sequence_ok m xs \<Longrightarrow> fmlookup m x = None \<Longrightarrow> sequence_ok (fmupd x v m) (xs @ [x])"
  by (auto simp: sequence_ok_def)

lemma sequence_ok_filter: "sequence_ok m xs \<Longrightarrow> sequence_ok (fmdrop x m) (filter (\<lambda>y. y \<noteq> x) xs)"
  by (auto simp: sequence_ok_def)

lemma sequence_ok_update: "sequence_ok m xs \<Longrightarrow> fmlookup m x = Some w \<Longrightarrow> sequence_ok (fmupd x v m) xs"
  by (auto simp: sequence_ok_def)

lemma sequence_ok_Cons:
  assumes "sequence_ok m (x # xs)"
  shows "\<exists>v. fmlookup m x = Some v" "sequence_ok (fmdrop x m) xs" "filter (\<lambda>y. y \<noteq> x) xs = xs"
proof -
  show "\<exists>v. fmlookup m x = Some v"
    using sequence_ok_mem [OF assms, of x] by auto
  show "filter (\<lambda>y. y \<noteq> x) xs = xs"
    using assms by (auto simp: sequence_ok_def filter_id_conv)
  then show "sequence_ok (fmdrop x m) xs"
    using sequence_ok_filter [OF assms, of x] by simp
qed

section \<open>Containers that drop their oldest entries\<close>

locale sequenced_map =
  fixes inv :: "'c \<Rightarrow> bool"
    and ids :: "'c \<Rightarrow> 'i list"
    and find :: "'c \<Rightarrow> 'i \<Rightarrow> 'v option"
    and pop :: "'c \<Rightarrow> 'c option"
  assumes ids_distinct: "inv c \<Longrightarrow> distinct (ids c)"
    and ids_find: "inv c \<Longrightarrow> x \<in> set (ids c) \<longleftrightarrow> find c x \<noteq> None"
    and pop_oldest: "inv c \<Longrightarrow> ids c = x # xs \<Longrightarrow>
      \<exists>c'. pop c = Some c' \<and> inv c' \<and> ids c' = xs \<and> find c' = (find c)(x := None)"

fun trim_to :: "('c \<Rightarrow> nat) \<Rightarrow> ('c \<Rightarrow> 'c option) \<Rightarrow> nat \<Rightarrow> nat \<Rightarrow> 'c \<Rightarrow> 'c option" where
  "trim_to len pop bound 0 c = (if len c > bound then None else Some c)"
| "trim_to len pop bound (Suc n) c =
     (if len c > bound then Option.bind (pop c) (trim_to len pop bound n) else Some c)"

context sequenced_map
begin

text \<open>
  The loop \<open>while len > bound { pop }\<close> ends after at most as many rounds as there are entries, and
  leaves the newest ones.
\<close>

lemma trim_to_ids:
  "inv c \<Longrightarrow> length (ids c) \<le> n \<Longrightarrow>
   \<exists>c'. trim_to (\<lambda>c. length (ids c)) pop bound n c = Some c' \<and> inv c' \<and>
     ids c' = drop (length (ids c) - bound) (ids c) \<and>
     find c' = (\<lambda>x. if x \<in> set (take (length (ids c) - bound) (ids c)) then None else find c x)"
proof (induction n arbitrary: c)
  case (Suc n)
  show ?case
  proof (cases "length (ids c) > bound")
    case True
    then obtain x xs where ids: "ids c = x # xs"
      by (cases "ids c") auto
    from pop_oldest [OF Suc.prems(1) ids] obtain c1 where
      p: "pop c = Some c1" "inv c1" "ids c1 = xs" "find c1 = (find c)(x := None)"
      by blast
    have "length (ids c1) \<le> n"
      using Suc.prems(2) by (simp add: p(3) ids)
    from Suc.IH [OF p(2) this] obtain c' where
      c': "trim_to (\<lambda>c. length (ids c)) pop bound n c1 = Some c'" "inv c'"
        "ids c' = drop (length xs - bound) xs"
        "find c' = (\<lambda>y. if y \<in> set (take (length xs - bound) xs) then None else find c1 y)"
      unfolding p(3) by blast
    have "length (ids c) - bound = Suc (length xs - bound)"
      using True by (simp add: ids Suc_diff_le)
    then show ?thesis
      using True p c' by (auto simp: ids fun_eq_iff)
  qed (use Suc.prems in auto)
qed auto

end

end
