(* ===== verification/Bootstrap_Tags.thy ===== *)
theory Bootstrap_Tags
  imports Traces Indexes
begin

text \<open>
  Two parts of the state of the ascending bootstrapper: the requests in flight
  (\<open>OrderedTags\<close>, \<open>node/src/bootstrap/ascending/ordered_tags.rs\<close>) and the window of recent
  results that decides when to slow down (\<open>Throttle\<close>, \<open>throttle.rs\<close>). A \<open>Timestamp\<close> is the number
  of milliseconds of the steady clock. An \<open>unwrap\<close> of a missing entry is \<open>None\<close>.
\<close>

section \<open>Requests in flight\<close>

datatype query_type = InvalidQuery | BlocksByHash | BlocksByAccount | AccountInfoByHash

datatype query_source = InvalidSource | PrioritySource | DatabaseSource | BlockingSource

record async_tag =
  at_query_type :: query_type
  at_source :: query_source
  at_start :: u256
  at_account :: account
  at_hash :: block_hash
  at_count :: nat
  at_id :: u64
  at_timestamp :: int

record ordered_tags =
  ot_by_id :: "(u64, async_tag) fmap"
  ot_by_account :: "(account, u64) index"
  ot_by_hash :: "(block_hash, u64) index"
  ot_sequenced :: "u64 list"

definition tags_default :: ordered_tags where
  "tags_default = \<lparr>ot_by_id = fmempty, ot_by_account = fmempty, ot_by_hash = fmempty, ot_sequenced = []\<rparr>"

definition tags_len :: "ordered_tags \<Rightarrow> nat" where
  "tags_len t = length (ot_sequenced t)"

definition tags_contains :: "ordered_tags \<Rightarrow> u64 \<Rightarrow> bool" where
  "tags_contains t i = (fmlookup (ot_by_id t) i \<noteq> None)"

definition iter_ids :: "ordered_tags \<Rightarrow> u64 list option \<Rightarrow> async_tag list option" where
  "iter_ids t ids = those (map (fmlookup (ot_by_id t)) (unwrap_or ids []))"

definition iter_hash :: "ordered_tags \<Rightarrow> block_hash \<Rightarrow> async_tag list option" where
  "iter_hash t h = iter_ids t (fmlookup (ot_by_hash t) h)"

definition iter_account :: "ordered_tags \<Rightarrow> account \<Rightarrow> async_tag list option" where
  "iter_account t a = iter_ids t (fmlookup (ot_by_account t) a)"

definition count_by_account :: "ordered_tags \<Rightarrow> account \<Rightarrow> query_source \<Rightarrow> nat option" where
  "count_by_account t a src = map_option (\<lambda>ts. length (filter (\<lambda>i. at_source i = src) ts)) (iter_account t a)"

text \<open>\<open>remove_by_account\<close> and \<open>remove_by_hash\<close> do nothing when the list is missing.\<close>

definition tag_unindex :: "u64 \<Rightarrow> 'k \<Rightarrow> ('k, u64) index \<Rightarrow> ('k, u64) index" where
  "tag_unindex i k ix = unwrap_or (idx_remove_last k i ix) ix"

definition tags_remove_internal :: "u64 \<Rightarrow> account \<Rightarrow> block_hash \<Rightarrow> ordered_tags \<Rightarrow> ordered_tags" where
  "tags_remove_internal i a h t =
     \<lparr>ot_by_id = fmdrop i (ot_by_id t), ot_by_account = tag_unindex i a (ot_by_account t),
      ot_by_hash = tag_unindex i h (ot_by_hash t), ot_sequenced = filter (\<lambda>j. j \<noteq> i) (ot_sequenced t)\<rparr>"

definition tags_remove :: "u64 \<Rightarrow> ordered_tags \<Rightarrow> async_tag option \<times> ordered_tags" where
  "tags_remove i t =
     (case fmlookup (ot_by_id t) i of
        None \<Rightarrow> (None, t)
      | Some tag \<Rightarrow> (Some tag, tags_remove_internal i (at_account tag) (at_hash tag) t))"

definition tags_front :: "ordered_tags \<Rightarrow> async_tag option option" where
  "tags_front t =
     (case ot_sequenced t of
        [] \<Rightarrow> Some None
      | i # _ \<Rightarrow> (case fmlookup (ot_by_id t) i of None \<Rightarrow> None | Some tag \<Rightarrow> Some (Some tag)))"

definition tags_pop_front :: "ordered_tags \<Rightarrow> (async_tag option \<times> ordered_tags) option" where
  "tags_pop_front t =
     (case ot_sequenced t of
        [] \<Rightarrow> Some (None, t)
      | i # rest \<Rightarrow>
          (case fmlookup (ot_by_id t) i of
             None \<Rightarrow> None
           | Some tag \<Rightarrow>
               Some (Some tag,
                 \<lparr>ot_by_id = fmdrop i (ot_by_id t), ot_by_account = tag_unindex i (at_account tag) (ot_by_account t),
                  ot_by_hash = tag_unindex i (at_hash tag) (ot_by_hash t), ot_sequenced = rest\<rparr>)))"

definition tags_insert :: "async_tag \<Rightarrow> ordered_tags \<Rightarrow> ordered_tags" where
  "tags_insert tag t =
     (let old = fmlookup (ot_by_id t) (at_id tag);
          t1 = t\<lparr>ot_by_id := fmupd (at_id tag) tag (ot_by_id t)\<rparr>;
          t2 = (case old of
                  None \<Rightarrow> t1
                | Some old \<Rightarrow> tags_remove_internal (at_id old) (at_account old) (at_hash old) t1)
      in t2\<lparr>ot_by_account := idx_push (at_account tag) (at_id tag) (ot_by_account t2),
            ot_by_hash := idx_push (at_hash tag) (at_id tag) (ot_by_hash t2),
            ot_sequenced := ot_sequenced t2 @ [at_id tag]\<rparr>)"

text \<open>The timeout loop of \<open>cleanup_and_sync\<close>, with one round for every tag there is.\<close>

fun tags_timeout :: "nat \<Rightarrow> int \<Rightarrow> ordered_tags \<Rightarrow> ordered_tags option" where
  "tags_timeout n cutoff t =
     (case tags_front t of
        None \<Rightarrow> None
      | Some None \<Rightarrow> Some t
      | Some (Some tag) \<Rightarrow>
          if at_timestamp tag < cutoff
          then (case n of 0 \<Rightarrow> None | Suc n \<Rightarrow> Option.bind (tags_pop_front t) (\<lambda>(_, t). tags_timeout n cutoff t))
          else Some t)"

declare tags_timeout.simps [simp del]

section \<open>The throttle\<close>

record throttle =
  th_samples :: "bool list"
  th_successes :: nat

definition throttle_new :: "nat \<Rightarrow> throttle" where
  "throttle_new n = \<lparr>th_samples = replicate n True, th_successes = n\<rparr>"

definition throttled :: "throttle \<Rightarrow> bool" where
  "throttled th = (th_successes th = 0)"

definition throttle_pop :: "throttle \<Rightarrow> throttle" where
  "throttle_pop th =
     (case th_samples th of
        [] \<Rightarrow> th
      | s # rest \<Rightarrow> \<lparr>th_samples = rest, th_successes = th_successes th - (if s then 1 else 0)\<rparr>)"

definition throttle_add :: "bool \<Rightarrow> throttle \<Rightarrow> throttle" where
  "throttle_add s th =
     (let th = throttle_pop th
      in \<lparr>th_samples = th_samples th @ [s], th_successes = th_successes th + (if s then 1 else 0)\<rparr>)"

function throttle_shrink :: "nat \<Rightarrow> throttle \<Rightarrow> throttle" where
  "throttle_shrink n th =
     (if length (th_samples th) > n then throttle_shrink n (throttle_pop th) else th)"
  by pat_completeness auto
termination
  by (relation "measure (\<lambda>(_, th). length (th_samples th))") (auto simp: throttle_pop_def split: list.splits)

declare throttle_shrink.simps [simp del]

definition throttle_resize :: "nat \<Rightarrow> throttle \<Rightarrow> throttle" where
  "throttle_resize n th =
     (let th = throttle_shrink n th
      in th\<lparr>th_samples := th_samples th @ replicate (n - length (th_samples th)) False\<rparr>)"


section \<open>The window of samples\<close>

definition throttle_ok :: "throttle \<Rightarrow> bool" where
  "throttle_ok th \<longleftrightarrow> th_successes th = length (filter id (th_samples th))"

lemma throttle_ok_new: "throttle_ok (throttle_new n)"
  by (simp add: throttle_ok_def throttle_new_def)

lemma throttle_pop_spec:
  assumes "throttle_ok th"
  shows "throttle_ok (throttle_pop th)" "th_samples (throttle_pop th) = drop 1 (th_samples th)"
  using assms by (auto simp: throttle_ok_def throttle_pop_def split: list.splits)

lemma throttle_add_spec:
  assumes "throttle_ok th"
  shows "throttle_ok (throttle_add s th)" "th_samples (throttle_add s th) = drop 1 (th_samples th) @ [s]"
  using throttle_pop_spec [OF assms] by (auto simp: throttle_ok_def throttle_add_def Let_def)

lemma throttle_shrink_spec:
  "throttle_ok th \<Longrightarrow> throttle_ok (throttle_shrink n th) \<and>
   th_samples (throttle_shrink n th) = drop (length (th_samples th) - n) (th_samples th)"
proof (induction n th rule: throttle_shrink.induct)
  case (1 n th)
  show ?case
  proof (cases "length (th_samples th) > n")
    case True
    then have "length (th_samples th) - n = Suc (length (th_samples th) - 1 - n)"
      by simp
    with True 1 throttle_pop_spec [OF 1(2)] show ?thesis
      by (simp add: throttle_shrink.simps [of n th] drop_Suc)
  qed (use 1 in \<open>simp add: throttle_shrink.simps [of n th]\<close>)
qed

lemma throttle_resize_spec:
  assumes "throttle_ok th"
  shows "throttle_ok (throttle_resize n th)"
    "th_samples (throttle_resize n th) =
       drop (length (th_samples th) - n) (th_samples th) @ replicate (n - length (th_samples th)) False"
    "length (th_samples (throttle_resize n th)) = n"
  using throttle_shrink_spec [OF assms, of n]
  by (auto simp: throttle_resize_def Let_def throttle_ok_def)

text \<open>The bootstrapper is throttled exactly when no sample of the window was a success.\<close>

lemma throttled_iff: "throttle_ok th \<Longrightarrow> throttled th \<longleftrightarrow> True \<notin> set (th_samples th)"
  by (auto simp: throttled_def throttle_ok_def filter_empty_conv)

section \<open>The indexes of the requests\<close>

definition tags_inv :: "ordered_tags \<Rightarrow> bool" where
  "tags_inv t \<longleftrightarrow>
     sequence_ok (ot_by_id t) (ot_sequenced t) \<and> index_ok at_account (ot_by_id t) (ot_by_account t) \<and>
     index_ok at_hash (ot_by_id t) (ot_by_hash t) \<and>
     (\<forall>i tag. fmlookup (ot_by_id t) i = Some tag \<longrightarrow> at_id tag = i)"

lemma tags_inv_default: "tags_inv tags_default"
  by (simp add: tags_inv_def tags_default_def)

lemma tag_unindex_remove:
  assumes "index_ok f m ix" "fmlookup m i = Some v" "k = f v"
  shows "index_ok f (fmdrop i m) (tag_unindex i k ix)"
  using index_ok_remove [OF assms] by (auto simp: tag_unindex_def idx_remove_last_eq [OF assms(1)])

lemma tags_remove_internal_inv:
  assumes "tags_inv t" "fmlookup (ot_by_id t) i = Some tag"
  shows "tags_inv (tags_remove_internal i (at_account tag) (at_hash tag) t)"
  using assms
  by (auto simp: tags_inv_def tags_remove_internal_def
      intro: sequence_ok_filter tag_unindex_remove [OF _ assms(2) refl])

lemma tags_remove_inv: "tags_inv t \<Longrightarrow> tags_remove i t = (r, t') \<Longrightarrow> tags_inv t'"
  by (cases "fmlookup (ot_by_id t) i") (auto simp: tags_remove_def tags_remove_internal_inv)

lemma tags_remove_spec:
  assumes "tags_inv t"
  shows "fst (tags_remove i t) = fmlookup (ot_by_id t) i"
    "ot_by_id (snd (tags_remove i t)) = fmdrop i (ot_by_id t)"
    "ot_sequenced (snd (tags_remove i t)) = filter (\<lambda>j. j \<noteq> i) (ot_sequenced t)"
  using sequence_ok_mem [of "ot_by_id t" "ot_sequenced t" i] assms
  by (auto simp: tags_remove_def tags_remove_internal_def tags_inv_def fmdrop_absent filter_absent
      split: option.splits)

lemma tags_pop_front_spec:
  assumes "tags_inv t" "ot_sequenced t = i # rest"
  shows "\<exists>tag t'. fmlookup (ot_by_id t) i = Some tag \<and> tags_front t = Some (Some tag) \<and>
    tags_pop_front t = Some (Some tag, t') \<and> tags_inv t' \<and> ot_sequenced t' = rest \<and>
    ot_by_id t' = fmdrop i (ot_by_id t)"
proof -
  have s: "sequence_ok (ot_by_id t) (i # rest)"
    using assms by (simp add: tags_inv_def)
  from sequence_ok_Cons(1) [OF this] obtain tag where tag: "fmlookup (ot_by_id t) i = Some tag"
    by blast
  have "tags_pop_front t = Some (Some tag, tags_remove_internal i (at_account tag) (at_hash tag) t)"
    using sequence_ok_Cons(3) [OF s] by (simp add: tags_pop_front_def assms(2) tag tags_remove_internal_def)
  then show ?thesis
    using tags_remove_internal_inv [OF assms(1) tag] sequence_ok_Cons(3) [OF s] tag
    by (simp add: tags_front_def assms(2) tags_remove_internal_def)
qed

interpretation tags: sequenced_map tags_inv ot_sequenced "\<lambda>t. fmlookup (ot_by_id t)"
  "\<lambda>t. map_option snd (tags_pop_front t)"
proof
  show "distinct (ot_sequenced t)" if "tags_inv t" for t
    using that by (simp add: tags_inv_def sequence_ok_def)
  show "x \<in> set (ot_sequenced t) \<longleftrightarrow> fmlookup (ot_by_id t) x \<noteq> None" if "tags_inv t" for t x
    using that by (simp add: tags_inv_def sequence_ok_def)
  show "\<exists>t'. map_option snd (tags_pop_front t) = Some t' \<and> tags_inv t' \<and> ot_sequenced t' = xs \<and>
      fmlookup (ot_by_id t') = (fmlookup (ot_by_id t))(x := None)"
    if "tags_inv t" "ot_sequenced t = x # xs" for t x xs
    using tags_pop_front_spec [OF that] by (auto simp: fun_eq_iff)
qed

lemma tags_insert_inv:
  assumes "tags_inv t" "fmlookup (ot_by_id t) (at_id tag) = None"
  shows "tags_inv (tags_insert tag t)"
  using assms by (auto simp: tags_inv_def tags_insert_def intro!: index_ok_push sequence_ok_snoc)

text \<open>Looking up the requests of an account or of a hash never fails.\<close>

lemma unwrap_idx_get: "unwrap_or (fmlookup ix k) [] = idx_get ix k"
  by (simp add: unwrap_or_def idx_get_def)

lemma iter_ids_spec:
  assumes "tags_inv t" "index_ok f (ot_by_id t) ix"
  shows "\<exists>ts. iter_ids t (fmlookup ix k) = Some ts \<and> distinct ts \<and>
    (\<forall>tag. tag \<in> set ts \<longleftrightarrow> f tag = k \<and> fmlookup (ot_by_id t) (at_id tag) = Some tag)"
proof (intro exI conjI)
  let ?ids = "idx_get ix k" and ?g = "the \<circ> fmlookup (ot_by_id t)"
  have ids: "\<exists>tag. fmlookup (ot_by_id t) i = Some tag \<and> f tag = k \<and> at_id tag = i" if "i \<in> set ?ids" for i
    using index_okD(2) [OF assms(2), of i k] that assms(1) by (auto simp: tags_inv_def)
  show "iter_ids t (fmlookup ix k) = Some (map ?g ?ids)"
    unfolding iter_ids_def unwrap_idx_get by (rule those_map_Some) (use ids in blast)
  have "inj_on ?g (set ?ids)"
    by (rule inj_on_inverseI [of _ at_id]) (use ids in fastforce)
  then show "distinct (map ?g ?ids)"
    using index_okD(1) [OF assms(2), of k] by (simp add: distinct_map)
  show "\<forall>tag. tag \<in> set (map ?g ?ids) \<longleftrightarrow> f tag = k \<and> fmlookup (ot_by_id t) (at_id tag) = Some tag"
  proof (intro allI iffI)
    fix tag
    assume "tag \<in> set (map ?g ?ids)"
    then show "f tag = k \<and> fmlookup (ot_by_id t) (at_id tag) = Some tag"
      using ids by fastforce
  next
    fix tag
    assume "f tag = k \<and> fmlookup (ot_by_id t) (at_id tag) = Some tag"
    then have "at_id tag \<in> set ?ids" "?g (at_id tag) = tag"
      using index_okD(2) [OF assms(2), of "at_id tag" k] by auto
    then show "tag \<in> set (map ?g ?ids)"
      by (metis image_eqI set_map)
  qed
qed

lemma iter_account_spec:
  assumes "tags_inv t"
  shows "\<exists>ts. iter_account t a = Some ts \<and> distinct ts \<and>
    (\<forall>tag. tag \<in> set ts \<longleftrightarrow> at_account tag = a \<and> fmlookup (ot_by_id t) (at_id tag) = Some tag)"
  unfolding iter_account_def
  by (rule iter_ids_spec [where f = at_account]) (use assms in \<open>simp_all add: tags_inv_def\<close>)

lemma iter_hash_spec:
  assumes "tags_inv t"
  shows "\<exists>ts. iter_hash t h = Some ts \<and> distinct ts \<and>
    (\<forall>tag. tag \<in> set ts \<longleftrightarrow> at_hash tag = h \<and> fmlookup (ot_by_id t) (at_id tag) = Some tag)"
  unfolding iter_hash_def
  by (rule iter_ids_spec [where f = at_hash]) (use assms in \<open>simp_all add: tags_inv_def\<close>)

lemma count_by_account_Some: "tags_inv t \<Longrightarrow> \<exists>n. count_by_account t a src = Some n"
  using iter_account_spec [of t a] by (auto simp: count_by_account_def)

text \<open>
  Inserting a second tag with an identifier that is in use: the tag just stored is the one that is
  removed, while its identifier stays in the queue and in the indexes.
\<close>

lemma tags_insert_duplicate:
  assumes "tags_inv t" "tags_contains t (at_id tag)"
  shows "\<not> tags_contains (tags_insert tag t) (at_id tag)"
    "at_id tag \<in> set (ot_sequenced (tags_insert tag t))"
    "iter_account (tags_insert tag t) (at_account tag) = None"
proof -
  from assms obtain old where old: "fmlookup (ot_by_id t) (at_id tag) = Some old" "at_id old = at_id tag"
    by (auto simp: tags_contains_def tags_inv_def)
  show l: "\<not> tags_contains (tags_insert tag t) (at_id tag)"
    by (simp add: tags_contains_def tags_insert_def old tags_remove_internal_def)
  show "at_id tag \<in> set (ot_sequenced (tags_insert tag t))"
    by (simp add: tags_insert_def Let_def)
  have "at_id tag \<in> set (idx_get (ot_by_account (tags_insert tag t)) (at_account tag))"
    by (simp add: tags_insert_def Let_def idx_get_push)
  then show "iter_account (tags_insert tag t) (at_account tag) = None"
    using l by (auto simp: iter_account_def iter_ids_def unwrap_idx_get tags_contains_def intro: those_map_None)
qed

text \<open>The timeout drops the requests from the front of the queue that are too old, and only those.\<close>

lemma tags_timeout_spec:
  "tags_inv t \<Longrightarrow> length (ot_sequenced t) \<le> n \<Longrightarrow>
   \<exists>t'. tags_timeout n cutoff t = Some t' \<and> tags_inv t' \<and>
     ot_sequenced t' = dropWhile (\<lambda>i. at_timestamp (the (fmlookup (ot_by_id t) i)) < cutoff) (ot_sequenced t)"
proof (induction n arbitrary: t)
  case 0
  then show ?case
    by (auto simp: tags_timeout.simps tags_front_def)
next
  case (Suc n)
  show ?case
  proof (cases "ot_sequenced t")
    case Nil
    then show ?thesis
      using Suc.prems by (auto simp: tags_timeout.simps tags_front_def)
  next
    case (Cons i rest)
    from tags_pop_front_spec [OF Suc.prems(1) Cons] obtain tag t1 where
      p: "fmlookup (ot_by_id t) i = Some tag" "tags_front t = Some (Some tag)"
        "tags_pop_front t = Some (Some tag, t1)" "tags_inv t1" "ot_sequenced t1 = rest"
        "ot_by_id t1 = fmdrop i (ot_by_id t)"
      by blast
    show ?thesis
    proof (cases "at_timestamp tag < cutoff")
      case False
      then show ?thesis
        using Suc.prems p by (simp add: tags_timeout.simps [of "Suc n"] Cons)
    next
      case True
      have "i \<notin> set rest"
        using tags.ids_distinct [OF Suc.prems(1)] Cons by simp
      then have "dropWhile (\<lambda>j. at_timestamp (the (fmlookup (ot_by_id t1) j)) < cutoff) rest =
          dropWhile (\<lambda>j. at_timestamp (the (fmlookup (ot_by_id t) j)) < cutoff) rest"
        by (intro dropWhile_cong) (auto simp: p(6))
      moreover have "length (ot_sequenced t1) \<le> n"
        using Suc.prems(2) Cons p(5) by simp
      ultimately show ?thesis
        using Suc.IH [OF p(4)] True p(1,2,3,5) by (simp add: tags_timeout.simps [of "Suc n"] Cons)
    qed
  qed
qed

section \<open>Runs\<close>

datatype tag_op = TagInsert async_tag | TagRemove u64 | TagPopFront | TagTimeout int

fun tag_step :: "tag_op \<Rightarrow> ordered_tags \<Rightarrow> (async_tag option \<times> ordered_tags) option" where
  "tag_step (TagInsert tag) t = Some (None, tags_insert tag t)"
| "tag_step (TagRemove i) t = Some (tags_remove i t)"
| "tag_step TagPopFront t = tags_pop_front t"
| "tag_step (TagTimeout cutoff) t = map_option (Pair None) (tags_timeout (tags_len t) cutoff t)"

fun inserted_ids :: "tag_op list \<Rightarrow> u64 list" where
  "inserted_ids [] = []"
| "inserted_ids (TagInsert tag # ops) = at_id tag # inserted_ids ops"
| "inserted_ids (_ # ops) = inserted_ids ops"

lemma tags_sequenced_mem: "tags_inv t \<Longrightarrow> i \<in> set (ot_sequenced t) \<longleftrightarrow> fmlookup (ot_by_id t) i \<noteq> None"
  by (auto simp: tags_inv_def sequence_ok_def)

lemma tag_step_inv:
  assumes "tags_inv t" and "set (inserted_ids (op # ops)) \<inter> set (ot_sequenced t) = {}"
    and "distinct (inserted_ids (op # ops))"
  shows "\<exists>out t'. tag_step op t = Some (out, t') \<and> tags_inv t' \<and>
    set (inserted_ids ops) \<inter> set (ot_sequenced t') = {}"
proof (cases op)
  case (TagInsert tag)
  then have new: "fmlookup (ot_by_id t) (at_id tag) = None"
    using assms(2) tags_sequenced_mem [OF assms(1), of "at_id tag"] by simp
  then have "ot_sequenced (tags_insert tag t) = ot_sequenced t @ [at_id tag]"
    by (simp add: tags_insert_def)
  then show ?thesis
    using TagInsert assms tags_insert_inv [OF assms(1) new] by auto
next
  case (TagRemove i)
  then show ?thesis
    using assms(2) tags_remove_inv [OF assms(1), of i] tags_remove_spec(3) [OF assms(1), of i]
    by (cases "tags_remove i t") auto
next
  case TagPopFront
  show ?thesis
  proof (cases "ot_sequenced t")
    case Nil
    then show ?thesis
      using TagPopFront assms by (simp add: tags_pop_front_def)
  next
    case (Cons i rest)
    from tags_pop_front_spec [OF assms(1) Cons] show ?thesis
      using TagPopFront assms(2) Cons by auto
  qed
next
  case (TagTimeout cutoff)
  from tags_timeout_spec [OF assms(1), of "tags_len t" cutoff] obtain t' where
    t': "tags_timeout (tags_len t) cutoff t = Some t'" "tags_inv t'"
      "ot_sequenced t' = dropWhile (\<lambda>i. at_timestamp (the (fmlookup (ot_by_id t) i)) < cutoff) (ot_sequenced t)"
    by (auto simp: tags_len_def)
  then have "set (ot_sequenced t') \<subseteq> set (ot_sequenced t)"
    by (metis set_dropWhileD subsetI)
  then show ?thesis
    using TagTimeout assms(2) t'(1,2) by auto
qed

lemma tag_run_inv:
  "tags_inv t \<Longrightarrow> set (inserted_ids ops) \<inter> set (ot_sequenced t) = {} \<Longrightarrow> distinct (inserted_ids ops) \<Longrightarrow>
   \<exists>outs t'. run_ops tag_step ops t = Some (outs, t') \<and> tags_inv t'"
proof (induction ops arbitrary: t)
  case (Cons op ops)
  obtain out t1 where 1: "tag_step op t = Some (out, t1)" "tags_inv t1" "set (inserted_ids ops) \<inter> set (ot_sequenced t1) = {}"
    using tag_step_inv [OF Cons.prems] by blast
  have "distinct (inserted_ids ops)"
    using Cons.prems(3) by (cases op) auto
  then show ?case
    using Cons.IH [OF 1(2,3)] 1(1) by auto
qed simp

datatype sample_op = AddSample bool | ResizeWindow nat

fun throttle_step :: "sample_op \<Rightarrow> throttle \<Rightarrow> throttle" where
  "throttle_step (AddSample s) th = throttle_add s th"
| "throttle_step (ResizeWindow n) th = throttle_resize n th"

text \<open>The window of the last samples; a window that grows is padded with failures at its end.\<close>

fun window_step :: "sample_op \<Rightarrow> bool list \<Rightarrow> bool list" where
  "window_step (AddSample s) w = drop 1 w @ [s]"
| "window_step (ResizeWindow n) w = drop (length w - n) w @ replicate (n - length w) False"

lemma throttle_window:
  "throttle_ok th \<Longrightarrow> throttle_ok (fold throttle_step ops th) \<and>
   th_samples (fold throttle_step ops th) = fold window_step ops (th_samples th)"
proof (induction ops arbitrary: th)
  case (Cons op ops)
  have "throttle_ok (throttle_step op th) \<and> th_samples (throttle_step op th) = window_step op (th_samples th)"
    using throttle_add_spec [OF Cons.prems] throttle_resize_spec [OF Cons.prems] by (cases op) simp_all
  then show ?case
    using Cons.IH [of "throttle_step op th"] by simp
qed simp

section \<open>Properties\<close>

text \<open>
  C27. Whatever requests are added under fresh identifiers, removed, popped or timed out, no operation
  panics, and afterwards the index by account lists exactly the outstanding requests of an account
  and the index by hash exactly those for a hash, each once.
\<close>

theorem tags_indexes_exact:
  assumes "distinct (inserted_ids ops)"
  shows "\<exists>outs t. run_ops tag_step ops tags_default = Some (outs, t) \<and>
    (\<forall>a. \<exists>ts. iter_account t a = Some ts \<and> distinct ts \<and>
       (\<forall>tag. tag \<in> set ts \<longleftrightarrow> at_account tag = a \<and> fmlookup (ot_by_id t) (at_id tag) = Some tag)) \<and>
    (\<forall>h. \<exists>ts. iter_hash t h = Some ts \<and> distinct ts \<and>
       (\<forall>tag. tag \<in> set ts \<longleftrightarrow> at_hash tag = h \<and> fmlookup (ot_by_id t) (at_id tag) = Some tag))"
proof -
  obtain outs t where "run_ops tag_step ops tags_default = Some (outs, t)" "tags_inv t"
    using tag_run_inv [OF tags_inv_default _ assms] by (auto simp: tags_default_def)
  then show ?thesis
    using iter_account_spec iter_hash_spec by blast
qed

theorem tags_indexes_exact_witness:
  "\<exists>outs t ts. run_ops tag_step
      [TagInsert \<lparr>at_query_type = BlocksByHash, at_source = PrioritySource, at_start = 0, at_account = 7, at_hash = 9,
         at_count = 2, at_id = 1, at_timestamp = 0\<rparr>, TagTimeout 0, TagRemove 5] tags_default = Some (outs, t) \<and>
     iter_account t 7 = Some ts \<and> distinct ts"
  using tags_indexes_exact [of "[TagInsert \<lparr>at_query_type = BlocksByHash, at_source = PrioritySource, at_start = 0,
      at_account = 7, at_hash = 9, at_count = 2, at_id = 1, at_timestamp = 0\<rparr>, TagTimeout 0, TagRemove 5]"]
  by (simp del: run_ops.simps) metis

text \<open>
  C38. Adding a request under an identifier that is still in use loses the new request: the identifier
  is no longer known although it is queued, and iterating over the requests of its account panics.
\<close>

theorem tags_insert_reused_identifier:
  assumes "tags_inv t" and "tags_contains t (at_id tag)"
  shows "\<not> tags_contains (tags_insert tag t) (at_id tag) \<and>
    at_id tag \<in> set (ot_sequenced (tags_insert tag t)) \<and>
    iter_account (tags_insert tag t) (at_account tag) = None"
  using tags_insert_duplicate [OF assms] by simp

theorem tags_insert_reused_identifier_witness:
  "let tag = \<lparr>at_query_type = BlocksByHash, at_source = PrioritySource, at_start = 0, at_account = 7, at_hash = 9,
         at_count = 2, at_id = 1, at_timestamp = 0\<rparr>
   in iter_account (tags_insert tag (tags_insert tag tags_default)) 7 = None"
proof -
  let ?tag = "\<lparr>at_query_type = BlocksByHash, at_source = PrioritySource, at_start = 0, at_account = 7, at_hash = 9,
         at_count = 2, at_id = 1, at_timestamp = 0\<rparr>"
  have "tags_inv (tags_insert ?tag tags_default)"
    by (rule tags_insert_inv [OF tags_inv_default]) (simp add: tags_default_def)
  moreover have "tags_contains (tags_insert ?tag tags_default) (at_id ?tag)"
    by (simp add: tags_contains_def tags_insert_def tags_default_def)
  ultimately show ?thesis
    using tags_insert_reused_identifier [of "tags_insert ?tag tags_default" ?tag] by simp
qed

text \<open>
  C31. The throttle implements a window over the last results: whatever results are added and whatever
  sizes it is given, it reports that requests are throttled exactly when no result in the window is
  a success.
\<close>

theorem throttle_refines_window:
  "throttled (fold throttle_step ops (throttle_new n)) \<longleftrightarrow>
     True \<notin> set (fold window_step ops (replicate n True))"
proof -
  have "throttle_ok (throttle_new n)" "th_samples (throttle_new n) = replicate n True"
    by (simp_all add: throttle_ok_def throttle_new_def)
  then show ?thesis
    using throttle_window [of "throttle_new n" ops] throttled_iff [of "fold throttle_step ops (throttle_new n)"] by simp
qed

end
