(* ===== verification/Ordered_Priorities.thy ===== *)
theory Ordered_Priorities
  imports Indexes
begin

text \<open>
  The accounts the ascending bootstrapper pulls next
  (\<open>node/src/bootstrap/ascending/ordered_priorities.rs\<close>). A priority is a floating point number;
  here it is of any linear order. An \<open>unwrap\<close> of a missing entry is \<open>None\<close>.
\<close>

section \<open>Priorities\<close>

record 'p priority_entry =
  pe_account :: account
  pe_priority :: 'p
  pe_timestamp :: "int option"

definition priority_entry_new :: "account \<Rightarrow> 'p \<Rightarrow> 'p priority_entry" where
  "priority_entry_new a p = \<lparr>pe_account = a, pe_priority = p, pe_timestamp = None\<rparr>"

record 'p ordered_priorities =
  op_by_account :: "(account, 'p priority_entry) fmap"
  op_sequenced :: "account list"
  op_by_priority :: "('p, account) index"

definition prios_default :: "'p ordered_priorities" where
  "prios_default = \<lparr>op_by_account = fmempty, op_sequenced = [], op_by_priority = fmempty\<rparr>"

datatype change_result = ChangeUpdated | ChangeDeleted | ChangeNotFound

definition prios_len :: "'p ordered_priorities \<Rightarrow> nat" where
  "prios_len ps = length (op_sequenced ps)"

definition prios_contains :: "'p ordered_priorities \<Rightarrow> account \<Rightarrow> bool" where
  "prios_contains ps a = (fmlookup (op_by_account ps) a \<noteq> None)"

definition prios_insert :: "'p priority_entry \<Rightarrow> 'p ordered_priorities \<Rightarrow> bool \<times> 'p ordered_priorities" where
  "prios_insert e ps =
     (if prios_contains ps (pe_account e) then (False, ps)
      else (True, \<lparr>op_by_account = fmupd (pe_account e) e (op_by_account ps),
                   op_sequenced = op_sequenced ps @ [pe_account e],
                   op_by_priority = idx_push (pe_priority e) (pe_account e) (op_by_priority ps)\<rparr>))"

definition prios_remove_account ::
  "account \<Rightarrow> 'p ordered_priorities \<Rightarrow> ('p priority_entry \<times> 'p ordered_priorities) option" where
  "prios_remove_account a ps =
     (case fmlookup (op_by_account ps) a of
        None \<Rightarrow> None
      | Some e \<Rightarrow>
          map_option
            (\<lambda>ix. (e, \<lparr>op_by_account = fmdrop a (op_by_account ps),
                       op_sequenced = filter (\<lambda>i. i \<noteq> a) (op_sequenced ps), op_by_priority = ix\<rparr>))
            (idx_remove (pe_priority e) a (op_by_priority ps)))"

definition prios_remove ::
  "account \<Rightarrow> 'p ordered_priorities \<Rightarrow> ('p priority_entry option \<times> 'p ordered_priorities) option" where
  "prios_remove a ps =
     (if prios_contains ps a then map_option (\<lambda>(e, ps'). (Some e, ps')) (prios_remove_account a ps)
      else Some (None, ps))"

definition prios_pop_front ::
  "'p ordered_priorities \<Rightarrow> ('p priority_entry option \<times> 'p ordered_priorities) option" where
  "prios_pop_front ps =
     (case op_sequenced ps of
        [] \<Rightarrow> Some (None, ps)
      | a # rest \<Rightarrow>
          map_option (\<lambda>(e, ps'). (Some e, ps')) (prios_remove_account a (ps\<lparr>op_sequenced := rest\<rparr>)))"

definition prios_change_timestamp :: "account \<Rightarrow> int option \<Rightarrow> 'p ordered_priorities \<Rightarrow> 'p ordered_priorities" where
  "prios_change_timestamp a ts ps =
     (case fmlookup (op_by_account ps) a of
        None \<Rightarrow> ps
      | Some e \<Rightarrow> ps\<lparr>op_by_account := fmupd a (e\<lparr>pe_timestamp := ts\<rparr>) (op_by_account ps)\<rparr>)"

definition prios_change_priority ::
  "account \<Rightarrow> ('p \<Rightarrow> 'p option) \<Rightarrow> 'p ordered_priorities \<Rightarrow> (change_result \<times> 'p ordered_priorities) option" where
  "prios_change_priority a f ps =
     (case fmlookup (op_by_account ps) a of
        None \<Rightarrow> Some (ChangeNotFound, ps)
      | Some e \<Rightarrow>
          (case f (pe_priority e) of
             None \<Rightarrow> map_option (\<lambda>(_, ps'). (ChangeDeleted, ps')) (prios_remove_account a ps)
           | Some p \<Rightarrow>
               (let ps' = ps\<lparr>op_by_account := fmupd a (e\<lparr>pe_priority := p\<rparr>) (op_by_account ps)\<rparr>
                in if p = pe_priority e then Some (ChangeUpdated, ps')
                   else map_option (\<lambda>ix. (ChangeUpdated, ps'\<lparr>op_by_priority := idx_push p a ix\<rparr>))
                          (idx_remove (pe_priority e) a (op_by_priority ps')))))"

text \<open>The first eligible account in the order of descending priority.\<close>

definition accounts_by_priority :: "'p::linorder ordered_priorities \<Rightarrow> account list" where
  "accounts_by_priority ps = concat (map snd (rev (sorted_list_of_fmap (op_by_priority ps))))"

definition eligible :: "int \<Rightarrow> (account \<Rightarrow> bool) \<Rightarrow> 'p priority_entry \<Rightarrow> bool" where
  "eligible cutoff flt e \<longleftrightarrow>
     (case pe_timestamp e of None \<Rightarrow> True | Some ts \<Rightarrow> \<not> ts > cutoff) \<and> flt (pe_account e)"

definition prios_next_priority ::
  "int \<Rightarrow> (account \<Rightarrow> bool) \<Rightarrow> 'p::linorder ordered_priorities \<Rightarrow> account option option" where
  "prios_next_priority cutoff flt ps =
     map_option (map_option pe_account)
       (find_entry (fmlookup (op_by_account ps)) (eligible cutoff flt) (accounts_by_priority ps))"


subsection \<open>The invariant\<close>

definition prios_inv :: "'p ordered_priorities \<Rightarrow> bool" where
  "prios_inv ps \<longleftrightarrow>
     sequence_ok (op_by_account ps) (op_sequenced ps) \<and>
     index_ok pe_priority (op_by_account ps) (op_by_priority ps) \<and>
     (\<forall>a e. fmlookup (op_by_account ps) a = Some e \<longrightarrow> pe_account e = a)"

lemma prios_inv_default: "prios_inv prios_default"
  by (simp add: prios_inv_def prios_default_def)

lemma prios_insert_spec:
  assumes "prios_inv ps" "fmlookup (op_by_account ps) (pe_account e) = None"
  shows "\<exists>ps'. prios_insert e ps = (True, ps') \<and> prios_inv ps' \<and>
    op_by_account ps' = fmupd (pe_account e) e (op_by_account ps) \<and>
    op_sequenced ps' = op_sequenced ps @ [pe_account e]"
  using assms sequence_ok_snoc [OF _ assms(2), of _ e] index_ok_push [OF _ assms(2), of pe_priority]
  by (auto simp: prios_insert_def prios_contains_def prios_inv_def)

lemma prios_remove_account_spec:
  assumes "prios_inv ps" "fmlookup (op_by_account ps) a = Some e"
  shows "\<exists>ps'. prios_remove_account a ps = Some (e, ps') \<and> prios_inv ps' \<and>
    op_by_account ps' = fmdrop a (op_by_account ps) \<and>
    op_sequenced ps' = filter (\<lambda>i. i \<noteq> a) (op_sequenced ps)"
proof -
  obtain ix where ix: "idx_remove (pe_priority e) a (op_by_priority ps) = Some ix"
    "index_ok pe_priority (fmdrop a (op_by_account ps)) ix"
    using index_ok_remove [of pe_priority, OF _ assms(2) refl] assms(1) unfolding prios_inv_def by blast
  then show ?thesis
    using assms by (auto simp: prios_remove_account_def prios_inv_def intro: sequence_ok_filter)
qed

lemma prios_remove_spec:
  assumes "prios_inv ps"
  shows "\<exists>ps'. prios_remove a ps = Some (fmlookup (op_by_account ps) a, ps') \<and> prios_inv ps' \<and>
    op_by_account ps' = fmdrop a (op_by_account ps) \<and>
    op_sequenced ps' = filter (\<lambda>i. i \<noteq> a) (op_sequenced ps)"
proof (cases "fmlookup (op_by_account ps) a")
  case None
  then have "a \<notin> set (op_sequenced ps)"
    using assms by (simp add: prios_inv_def sequence_ok_def)
  then show ?thesis
    using assms None by (simp add: prios_remove_def prios_contains_def fmdrop_absent filter_absent)
next
  case (Some e)
  then show ?thesis
    using prios_remove_account_spec [OF assms Some] by (auto simp: prios_remove_def prios_contains_def)
qed

lemma prios_pop_front_spec:
  assumes "prios_inv ps" "op_sequenced ps = a # rest"
  shows "\<exists>e ps'. prios_pop_front ps = Some (Some e, ps') \<and> prios_inv ps' \<and> op_sequenced ps' = rest \<and>
    op_by_account ps' = fmdrop a (op_by_account ps)"
proof -
  have s: "sequence_ok (op_by_account ps) (a # rest)"
    using assms by (simp add: prios_inv_def)
  from sequence_ok_Cons(1) [OF s] obtain e where e: "fmlookup (op_by_account ps) a = Some e"
    by blast
  have "prios_remove_account a (ps\<lparr>op_sequenced := rest\<rparr>) = prios_remove_account a ps"
    by (simp add: prios_remove_account_def assms(2) split: option.splits)
  then show ?thesis
    using prios_remove_account_spec [OF assms(1) e] sequence_ok_Cons(3) [OF s] assms(2)
    by (auto simp: prios_pop_front_def)
qed

interpretation prios: sequenced_map prios_inv op_sequenced "\<lambda>ps. fmlookup (op_by_account ps)"
  "\<lambda>ps. map_option snd (prios_pop_front ps)"
proof
  show "distinct (op_sequenced ps)" if "prios_inv ps" for ps :: "'a ordered_priorities"
    using that by (simp add: prios_inv_def sequence_ok_def)
  show "x \<in> set (op_sequenced ps) \<longleftrightarrow> fmlookup (op_by_account ps) x \<noteq> None" if "prios_inv ps"
    for ps :: "'a ordered_priorities" and x
    using that by (simp add: prios_inv_def sequence_ok_def)
  show "\<exists>ps'. map_option snd (prios_pop_front ps) = Some ps' \<and> prios_inv ps' \<and> op_sequenced ps' = xs \<and>
      fmlookup (op_by_account ps') = (fmlookup (op_by_account ps))(x := None)"
    if "prios_inv ps" "op_sequenced ps = x # xs" for ps :: "'a ordered_priorities" and x xs
    using prios_pop_front_spec [OF that] by (auto simp: fun_eq_iff)
qed

lemma prios_change_timestamp_spec:
  assumes "prios_inv ps"
  shows "prios_inv (prios_change_timestamp a ts ps)"
    "op_sequenced (prios_change_timestamp a ts ps) = op_sequenced ps"
    "fmlookup (op_by_account (prios_change_timestamp a ts ps)) =
       (\<lambda>b. if b = a then map_option (pe_timestamp_update (\<lambda>_. ts)) (fmlookup (op_by_account ps) a)
            else fmlookup (op_by_account ps) b)"
proof -
  show "prios_inv (prios_change_timestamp a ts ps)"
    using assms index_ok_same_key [of pe_priority "op_by_account ps" "op_by_priority ps" a]
    by (auto simp: prios_change_timestamp_def prios_inv_def split: option.splits
        intro: sequence_ok_update)
qed (auto simp: prios_change_timestamp_def fun_eq_iff split: option.splits)

lemma prios_change_priority_spec:
  assumes "prios_inv ps"
  shows "\<exists>r ps'. prios_change_priority a f ps = Some (r, ps') \<and> prios_inv ps' \<and>
    (case fmlookup (op_by_account ps) a of
       None \<Rightarrow> r = ChangeNotFound \<and> ps' = ps
     | Some e \<Rightarrow>
         (case f (pe_priority e) of
            None \<Rightarrow> r = ChangeDeleted \<and> op_by_account ps' = fmdrop a (op_by_account ps) \<and>
              op_sequenced ps' = filter (\<lambda>i. i \<noteq> a) (op_sequenced ps)
          | Some p \<Rightarrow> r = ChangeUpdated \<and> op_sequenced ps' = op_sequenced ps \<and>
              op_by_account ps' = fmupd a (e\<lparr>pe_priority := p\<rparr>) (op_by_account ps)))"
proof (cases "fmlookup (op_by_account ps) a")
  case None
  then show ?thesis
    using assms by (simp add: prios_change_priority_def)
next
  case (Some e)
  show ?thesis
  proof (cases "f (pe_priority e)")
    case None
    then show ?thesis
      using prios_remove_account_spec [OF assms Some] by (auto simp: prios_change_priority_def Some)
  next
    case p: (Some p)
    have ix: "index_ok pe_priority (op_by_account ps) (op_by_priority ps)"
      using assms by (simp add: prios_inv_def)
    let ?e = "e\<lparr>pe_priority := p\<rparr>"
    obtain ix' where r: "idx_remove (pe_priority e) a (op_by_priority ps) = Some ix'"
      "index_ok pe_priority (fmupd a ?e (op_by_account ps)) (idx_push (pe_priority ?e) a ix')"
      using index_ok_move [OF ix Some refl] by blast
    have seq: "sequence_ok (fmupd a ?e (op_by_account ps)) (op_sequenced ps)" "pe_account e = a"
      using assms Some by (auto simp: prios_inv_def intro: sequence_ok_update)
    show ?thesis
    proof (cases "p = pe_priority e")
      case True
      then have "index_ok pe_priority (fmupd a ?e (op_by_account ps)) (op_by_priority ps)"
        using index_ok_same_key [OF ix Some, of ?e] by simp
      with True show ?thesis
        using assms seq by (simp add: prios_change_priority_def Some p prios_inv_def Let_def)
    next
      case False
      then show ?thesis
        using assms r seq by (simp add: prios_change_priority_def Some p prios_inv_def Let_def)
    qed
  qed
qed


subsection \<open>The next account\<close>

lemma accounts_by_priority_spec:
  assumes "prios_inv ps"
  shows "a \<in> set (accounts_by_priority ps) \<longleftrightarrow> fmlookup (op_by_account ps) a \<noteq> None"
    "sorted_wrt (\<lambda>a b. pe_priority (the (fmlookup (op_by_account ps) b)) \<le>
       pe_priority (the (fmlookup (op_by_account ps) a))) (accounts_by_priority ps)"
proof -
  let ?L = "rev (sorted_list_of_fmap (op_by_priority ps))"
  have ix: "index_ok pe_priority (op_by_account ps) (op_by_priority ps)"
    using assms by (simp add: prios_inv_def)
  have "sorted_wrt (\<lambda>x y. fst y \<le> fst x) ?L"
    using sorted_sorted_list_of_fmap [of "op_by_priority ps"] by (simp add: sorted_map sorted_wrt_rev)
  note flat = index_flat [OF ix, of ?L "\<lambda>p q. q \<le> p", OF _ this]
  show "a \<in> set (accounts_by_priority ps) \<longleftrightarrow> fmlookup (op_by_account ps) a \<noteq> None"
    "sorted_wrt (\<lambda>a b. pe_priority (the (fmlookup (op_by_account ps) b)) \<le>
       pe_priority (the (fmlookup (op_by_account ps) a))) (accounts_by_priority ps)"
    using flat by (simp_all add: accounts_by_priority_def)
qed

text \<open>
  \<open>next_priority\<close> never fails, and its answer is an eligible account of the highest priority among
  the eligible ones; it is \<open>None\<close> only if no account is eligible.
\<close>

lemma prios_next_priority_spec:
  assumes "prios_inv ps"
  shows "\<exists>r. prios_next_priority cutoff flt ps = Some r \<and>
    (case r of
       None \<Rightarrow> \<forall>a e. fmlookup (op_by_account ps) a = Some e \<longrightarrow> \<not> eligible cutoff flt e
     | Some a \<Rightarrow> \<exists>e. fmlookup (op_by_account ps) a = Some e \<and> eligible cutoff flt e \<and>
         (\<forall>b e'. fmlookup (op_by_account ps) b = Some e' \<longrightarrow> eligible cutoff flt e' \<longrightarrow>
            pe_priority e' \<le> pe_priority e))"
proof -
  let ?get = "fmlookup (op_by_account ps)" and ?as = "accounts_by_priority ps"
  let ?es = "map (the \<circ> ?get) ?as"
  note a = accounts_by_priority_spec [OF assms]
  have acc: "pe_account e = b" if "?get b = Some e" for b e
    using that assms by (simp add: prios_inv_def)
  have f: "find_entry ?get (eligible cutoff flt) ?as = Some (List.find (eligible cutoff flt) ?es)"
    by (rule find_entry_Some) (use a(1) in auto)
  have es: "e \<in> set ?es \<longleftrightarrow> ?get (pe_account e) = Some e" for e
  proof
    assume "e \<in> set ?es"
    then obtain b where "b \<in> set ?as" "e = the (?get b)"
      by auto
    then show "?get (pe_account e) = Some e"
      using a(1) [of b] acc [of b] by auto
  next
    assume "?get (pe_account e) = Some e"
    then show "e \<in> set ?es"
      using a(1) [of "pe_account e"] by (auto intro!: image_eqI [of _ _ "pe_account e"])
  qed
  have sorted: "sorted_wrt (\<lambda>x y. pe_priority y \<le> pe_priority x) ?es"
    using a(2) by (simp add: sorted_wrt_map)
  show ?thesis
  proof (cases "List.find (eligible cutoff flt) ?es")
    case None
    then have "\<not> eligible cutoff flt e" if "?get b = Some e" for b e
      using that es [of e] acc [OF that] by (auto simp: find_None_iff)
    then show ?thesis
      by (simp add: prios_next_priority_def f None)
  next
    case (Some e)
    then have e: "e \<in> set ?es" "eligible cutoff flt e"
      by (auto simp: find_Some_iff dest: nth_mem)
    have "pe_priority e' \<le> pe_priority e" if "?get b = Some e'" "eligible cutoff flt e'" for b e'
      using find_first [OF Some sorted _ that(2)] es [of e'] acc [OF that(1)] that(1) by auto
    then show ?thesis
      using e es [of e] by (auto simp: prios_next_priority_def f Some)
  qed
qed

end
