(* ===== verification/Ordered_Blocking.thy ===== *)
theory Ordered_Blocking
  imports Ordered_Priorities
begin

text \<open>
  The accounts that wait for a block of another account
  (\<open>node/src/bootstrap/ascending/ordered_blocking.rs\<close>), with indexes by priority, by the missing
  block and by the account that is known to hold it.
\<close>

record 'p blocking_entry =
  be_dependency :: block_hash
  be_original_entry :: "'p priority_entry"
  be_dependency_account :: account

definition be_priority :: "'p blocking_entry \<Rightarrow> 'p" where
  "be_priority e = pe_priority (be_original_entry e)"

definition be_account :: "'p blocking_entry \<Rightarrow> account" where
  "be_account e = pe_account (be_original_entry e)"

record 'p ordered_blocking =
  ob_by_account :: "(account, 'p blocking_entry) fmap"
  ob_sequenced :: "account list"
  ob_by_priority :: "('p, account) index"
  ob_by_dependency :: "(block_hash, account) index"
  ob_by_dependency_account :: "(account, account) index"

definition blocking_default :: "'p ordered_blocking" where
  "blocking_default =
     \<lparr>ob_by_account = fmempty, ob_sequenced = [], ob_by_priority = fmempty, ob_by_dependency = fmempty,
      ob_by_dependency_account = fmempty\<rparr>"

definition blocking_len :: "'p ordered_blocking \<Rightarrow> nat" where
  "blocking_len ob = length (ob_sequenced ob)"

definition blocking_contains :: "'p ordered_blocking \<Rightarrow> account \<Rightarrow> bool" where
  "blocking_contains ob a = (fmlookup (ob_by_account ob) a \<noteq> None)"

definition blocking_insert :: "'p blocking_entry \<Rightarrow> 'p ordered_blocking \<Rightarrow> bool \<times> 'p ordered_blocking" where
  "blocking_insert e ob =
     (let a = be_account e
      in if blocking_contains ob a then (False, ob)
         else (True,
           \<lparr>ob_by_account = fmupd a e (ob_by_account ob), ob_sequenced = ob_sequenced ob @ [a],
            ob_by_priority = idx_push (be_priority e) a (ob_by_priority ob),
            ob_by_dependency = idx_push (be_dependency e) a (ob_by_dependency ob),
            ob_by_dependency_account = idx_push (be_dependency_account e) a (ob_by_dependency_account ob)\<rparr>))"

definition remove_indexes :: "'p blocking_entry \<Rightarrow> 'p ordered_blocking \<Rightarrow> 'p ordered_blocking option" where
  "remove_indexes e ob =
     do {
       ps \<leftarrow> idx_remove (be_priority e) (be_account e) (ob_by_priority ob);
       ds \<leftarrow> idx_remove (be_dependency e) (be_account e) (ob_by_dependency ob);
       das \<leftarrow> idx_remove (be_dependency_account e) (be_account e) (ob_by_dependency_account ob);
       Some (ob\<lparr>ob_sequenced := filter (\<lambda>i. i \<noteq> be_account e) (ob_sequenced ob),
                ob_by_priority := ps, ob_by_dependency := ds, ob_by_dependency_account := das\<rparr>)
     }"

definition blocking_remove ::
  "account \<Rightarrow> 'p ordered_blocking \<Rightarrow> ('p blocking_entry option \<times> 'p ordered_blocking) option" where
  "blocking_remove a ob =
     (case fmlookup (ob_by_account ob) a of
        None \<Rightarrow> Some (None, ob)
      | Some e \<Rightarrow>
          map_option (\<lambda>ob'. (Some e, ob')) (remove_indexes e (ob\<lparr>ob_by_account := fmdrop a (ob_by_account ob)\<rparr>)))"

definition blocking_pop_front ::
  "'p ordered_blocking \<Rightarrow> ('p blocking_entry option \<times> 'p ordered_blocking) option" where
  "blocking_pop_front ob =
     (case ob_sequenced ob of
        [] \<Rightarrow> Some (None, ob)
      | a # rest \<Rightarrow> blocking_remove a (ob\<lparr>ob_sequenced := rest\<rparr>))"

definition count_by_dependency_account :: "'p ordered_blocking \<Rightarrow> account \<Rightarrow> nat" where
  "count_by_dependency_account ob a =
     unwrap_or (map_option length (fmlookup (ob_by_dependency_account ob) a)) 0"

definition blocking_next :: "(block_hash \<Rightarrow> bool) \<Rightarrow> 'p ordered_blocking \<Rightarrow> block_hash option option" where
  "blocking_next flt ob =
     (case fmlookup (ob_by_dependency_account ob) 0 of
        None \<Rightarrow> Some None
      | Some as \<Rightarrow>
          map_option (map_option be_dependency)
            (find_entry (fmlookup (ob_by_account ob)) (\<lambda>e. flt (be_dependency e)) as))"

definition iter_start_dep_account :: "account \<Rightarrow> 'p ordered_blocking \<Rightarrow> 'p blocking_entry list option" where
  "iter_start_dep_account start ob =
     those (map (fmlookup (ob_by_account ob)) (concat (map snd (entries_from start (ob_by_dependency_account ob)))))"

definition modify_dependency ::
  "account \<Rightarrow> account \<Rightarrow> 'p ordered_blocking \<Rightarrow> (bool \<times> 'p ordered_blocking) option" where
  "modify_dependency new a ob =
     (case fmlookup (ob_by_account ob) a of
        None \<Rightarrow> None
      | Some e \<Rightarrow>
          if be_dependency_account e = new then Some (False, ob)
          else map_option
            (\<lambda>das. (True, ob\<lparr>ob_by_account := fmupd a (e\<lparr>be_dependency_account := new\<rparr>) (ob_by_account ob),
                              ob_by_dependency_account := idx_push new (be_account e) das\<rparr>))
            (idx_remove_last (be_dependency_account e) (be_account e) (ob_by_dependency_account ob)))"

fun modify_dependencies ::
  "account \<Rightarrow> account list \<Rightarrow> 'p ordered_blocking \<Rightarrow> (nat \<times> 'p ordered_blocking) option" where
  "modify_dependencies new [] ob = Some (0, ob)"
| "modify_dependencies new (a # as) ob =
     do {
       (changed, ob) \<leftarrow> modify_dependency new a ob;
       (n, ob) \<leftarrow> modify_dependencies new as ob;
       Some ((if changed then n + 1 else n), ob)
     }"

definition modify_dependency_account ::
  "block_hash \<Rightarrow> account \<Rightarrow> 'p ordered_blocking \<Rightarrow> (nat \<times> 'p ordered_blocking) option" where
  "modify_dependency_account d new ob =
     (case fmlookup (ob_by_dependency ob) d of
        None \<Rightarrow> Some (0, ob)
      | Some as \<Rightarrow> modify_dependencies new as ob)"

section \<open>The invariant\<close>

definition blocking_inv :: "'p ordered_blocking \<Rightarrow> bool" where
  "blocking_inv ob \<longleftrightarrow>
     sequence_ok (ob_by_account ob) (ob_sequenced ob) \<and>
     index_ok be_priority (ob_by_account ob) (ob_by_priority ob) \<and>
     index_ok be_dependency (ob_by_account ob) (ob_by_dependency ob) \<and>
     index_ok be_dependency_account (ob_by_account ob) (ob_by_dependency_account ob) \<and>
     (\<forall>a e. fmlookup (ob_by_account ob) a = Some e \<longrightarrow> be_account e = a)"

lemma blocking_inv_default: "blocking_inv blocking_default"
  by (simp add: blocking_inv_def blocking_default_def)

lemma blocking_insert_spec:
  assumes "blocking_inv ob" "fmlookup (ob_by_account ob) (be_account e) = None"
  shows "\<exists>ob'. blocking_insert e ob = (True, ob') \<and> blocking_inv ob' \<and>
    ob_by_account ob' = fmupd (be_account e) e (ob_by_account ob) \<and>
    ob_sequenced ob' = ob_sequenced ob @ [be_account e]"
  using assms sequence_ok_snoc [OF _ assms(2), of _ e] index_ok_push [OF _ assms(2), of be_priority]
    index_ok_push [OF _ assms(2), of be_dependency] index_ok_push [OF _ assms(2), of be_dependency_account]
  by (auto simp: blocking_insert_def blocking_contains_def blocking_inv_def Let_def)

lemma blocking_remove_spec:
  assumes "blocking_inv ob"
  shows "\<exists>ob'. blocking_remove a ob = Some (fmlookup (ob_by_account ob) a, ob') \<and> blocking_inv ob' \<and>
    ob_by_account ob' = fmdrop a (ob_by_account ob) \<and>
    ob_sequenced ob' = filter (\<lambda>i. i \<noteq> a) (ob_sequenced ob)"
proof (cases "fmlookup (ob_by_account ob) a")
  case None
  then have "a \<notin> set (ob_sequenced ob)"
    using assms by (simp add: blocking_inv_def sequence_ok_def)
  then show ?thesis
    using assms None by (simp add: blocking_remove_def fmdrop_absent filter_absent)
next
  case (Some e)
  have inv: "index_ok be_priority (ob_by_account ob) (ob_by_priority ob)"
    "index_ok be_dependency (ob_by_account ob) (ob_by_dependency ob)"
    "index_ok be_dependency_account (ob_by_account ob) (ob_by_dependency_account ob)" "be_account e = a"
    using assms Some by (simp_all add: blocking_inv_def)
  obtain ps ds das where
    "idx_remove (be_priority e) a (ob_by_priority ob) = Some ps"
    "index_ok be_priority (fmdrop a (ob_by_account ob)) ps"
    "idx_remove (be_dependency e) a (ob_by_dependency ob) = Some ds"
    "index_ok be_dependency (fmdrop a (ob_by_account ob)) ds"
    "idx_remove (be_dependency_account e) a (ob_by_dependency_account ob) = Some das"
    "index_ok be_dependency_account (fmdrop a (ob_by_account ob)) das"
    using index_ok_remove [OF inv(1) Some refl] index_ok_remove [OF inv(2) Some refl]
      index_ok_remove [OF inv(3) Some refl] by blast
  then show ?thesis
    using assms sequence_ok_filter [of "ob_by_account ob" "ob_sequenced ob" a]
    by (auto simp: blocking_remove_def remove_indexes_def Some inv(4) blocking_inv_def)
qed

lemma blocking_pop_front_spec:
  assumes "blocking_inv ob" "ob_sequenced ob = a # rest"
  shows "\<exists>e ob'. blocking_pop_front ob = Some (Some e, ob') \<and> blocking_inv ob' \<and> ob_sequenced ob' = rest \<and>
    ob_by_account ob' = fmdrop a (ob_by_account ob)"
proof -
  have s: "sequence_ok (ob_by_account ob) (a # rest)"
    using assms by (simp add: blocking_inv_def)
  from sequence_ok_Cons(1) [OF s] obtain e where e: "fmlookup (ob_by_account ob) a = Some e"
    by blast
  then have "be_account e = a"
    using assms(1) by (simp add: blocking_inv_def)
  then have "blocking_remove a (ob\<lparr>ob_sequenced := rest\<rparr>) = blocking_remove a ob"
    by (simp add: blocking_remove_def remove_indexes_def e assms(2))
  then show ?thesis
    using blocking_remove_spec [OF assms(1), of a] sequence_ok_Cons(3) [OF s] assms(2) e
    by (auto simp: blocking_pop_front_def)
qed

interpretation blocking: sequenced_map blocking_inv ob_sequenced "\<lambda>ob. fmlookup (ob_by_account ob)"
  "\<lambda>ob. map_option snd (blocking_pop_front ob)"
proof
  show "distinct (ob_sequenced ob)" if "blocking_inv ob" for ob :: "'a ordered_blocking"
    using that by (simp add: blocking_inv_def sequence_ok_def)
  show "x \<in> set (ob_sequenced ob) \<longleftrightarrow> fmlookup (ob_by_account ob) x \<noteq> None" if "blocking_inv ob"
    for ob :: "'a ordered_blocking" and x
    using that by (simp add: blocking_inv_def sequence_ok_def)
  show "\<exists>ob'. map_option snd (blocking_pop_front ob) = Some ob' \<and> blocking_inv ob' \<and> ob_sequenced ob' = xs \<and>
      fmlookup (ob_by_account ob') = (fmlookup (ob_by_account ob))(x := None)"
    if "blocking_inv ob" "ob_sequenced ob = x # xs" for ob :: "'a ordered_blocking" and x xs
    using blocking_pop_front_spec [OF that] by (auto simp: fun_eq_iff)
qed


section \<open>Dependencies\<close>

lemma modify_dependency_spec:
  assumes "blocking_inv ob" "fmlookup (ob_by_account ob) a = Some e"
  shows "\<exists>c ob'. modify_dependency new a ob = Some (c, ob') \<and> blocking_inv ob' \<and>
    (c \<longleftrightarrow> be_dependency_account e \<noteq> new) \<and>
    ob_by_account ob' = fmupd a (e\<lparr>be_dependency_account := new\<rparr>) (ob_by_account ob) \<and>
    ob_sequenced ob' = ob_sequenced ob"
proof -
  let ?e = "e\<lparr>be_dependency_account := new\<rparr>"
  have inv: "index_ok be_dependency_account (ob_by_account ob) (ob_by_dependency_account ob)" "be_account e = a"
    using assms by (simp_all add: blocking_inv_def)
  show ?thesis
  proof (cases "be_dependency_account e = new")
    case True
    then have "?e = e"
      by simp
    then show ?thesis
      using True assms by (intro exI [of _ False] exI [of _ ob]) (simp add: modify_dependency_def fmupd_present)
  next
    case False
    obtain das where d: "idx_remove (be_dependency_account e) a (ob_by_dependency_account ob) = Some das"
      "index_ok be_dependency_account (fmupd a ?e (ob_by_account ob)) (idx_push (be_dependency_account ?e) a das)"
      using index_ok_move [OF inv(1) assms(2) refl] by blast
    have "index_ok be_priority (fmupd a ?e (ob_by_account ob)) (ob_by_priority ob)"
      "index_ok be_dependency (fmupd a ?e (ob_by_account ob)) (ob_by_dependency ob)"
      using assms by (auto simp: blocking_inv_def be_priority_def intro: index_ok_same_key)
    then show ?thesis
      using False assms d sequence_ok_update [OF _ assms(2), of _ ?e]
      by (auto simp: modify_dependency_def idx_remove_last_eq [OF inv(1)] inv(2) blocking_inv_def be_account_def)
  qed
qed

lemma modify_dependencies_spec:
  "blocking_inv ob \<Longrightarrow> distinct as \<Longrightarrow> \<forall>a\<in>set as. fmlookup (ob_by_account ob) a \<noteq> None \<Longrightarrow>
   \<exists>n ob'. modify_dependencies new as ob = Some (n, ob') \<and> blocking_inv ob' \<and>
     n = length (filter (\<lambda>a. be_dependency_account (the (fmlookup (ob_by_account ob) a)) \<noteq> new) as) \<and>
     fmlookup (ob_by_account ob') =
       (\<lambda>a. if a \<in> set as then map_option (be_dependency_account_update (\<lambda>_. new)) (fmlookup (ob_by_account ob) a)
            else fmlookup (ob_by_account ob) a) \<and>
     ob_sequenced ob' = ob_sequenced ob"
proof (induction "as" arbitrary: ob)
  case (Cons a as)
  from Cons.prems(3) obtain e where e: "fmlookup (ob_by_account ob) a = Some e"
    by auto
  from modify_dependency_spec [OF Cons.prems(1) e, of new] obtain c ob1 where
    m: "modify_dependency new a ob = Some (c, ob1)" "blocking_inv ob1" "c \<longleftrightarrow> be_dependency_account e \<noteq> new"
      "ob_by_account ob1 = fmupd a (e\<lparr>be_dependency_account := new\<rparr>) (ob_by_account ob)"
      "ob_sequenced ob1 = ob_sequenced ob"
    by blast
  have same: "\<forall>b\<in>set as. fmlookup (ob_by_account ob1) b = fmlookup (ob_by_account ob) b"
    using Cons.prems(2) by (auto simp: m(4))
  then have f: "filter (\<lambda>a. be_dependency_account (the (fmlookup (ob_by_account ob1) a)) \<noteq> new) as =
      filter (\<lambda>a. be_dependency_account (the (fmlookup (ob_by_account ob) a)) \<noteq> new) as"
    by (auto intro: filter_cong)
  have "distinct as" "\<forall>b\<in>set as. fmlookup (ob_by_account ob1) b \<noteq> None"
    using same Cons.prems(2,3) by auto
  from Cons.IH [OF m(2) this] obtain n ob' where
    i: "modify_dependencies new as ob1 = Some (n, ob')" "blocking_inv ob'"
      "n = length (filter (\<lambda>a. be_dependency_account (the (fmlookup (ob_by_account ob) a)) \<noteq> new) as)"
      "fmlookup (ob_by_account ob') =
       (\<lambda>a. if a \<in> set as then map_option (be_dependency_account_update (\<lambda>_. new)) (fmlookup (ob_by_account ob1) a)
            else fmlookup (ob_by_account ob1) a)"
      "ob_sequenced ob' = ob_sequenced ob1"
    unfolding f by blast
  have "fmlookup (ob_by_account ob') b =
      (if b \<in> set (a # as) then map_option (be_dependency_account_update (\<lambda>_. new)) (fmlookup (ob_by_account ob) b)
       else fmlookup (ob_by_account ob) b)" for b
    using Cons.prems(2) e by (auto simp: i(4) m(4))
  then show ?case
    using i(1,2,3,5) m(1,3,5) e by (intro exI [of _ "if c then n + 1 else n"] exI [of _ ob']) (auto simp: fun_eq_iff)
qed (simp add: fun_eq_iff)

text \<open>
  Once the account that holds a missing block is known, it is recorded in every entry that waits for
  the block and in no other.
\<close>

lemma modify_dependency_account_spec:
  assumes "blocking_inv ob"
  shows "\<exists>n ob'. modify_dependency_account d new ob = Some (n, ob') \<and> blocking_inv ob' \<and>
     fmlookup (ob_by_account ob') =
       (\<lambda>a. map_option (\<lambda>e. if be_dependency e = d then e\<lparr>be_dependency_account := new\<rparr> else e)
              (fmlookup (ob_by_account ob) a)) \<and>
     ob_sequenced ob' = ob_sequenced ob"
proof -
  have ix: "index_ok be_dependency (ob_by_account ob) (ob_by_dependency ob)"
    using assms by (simp add: blocking_inv_def)
  let ?as = "idx_get (ob_by_dependency ob) d"
  have as: "a \<in> set ?as \<longleftrightarrow> (\<exists>e. fmlookup (ob_by_account ob) a = Some e \<and> be_dependency e = d)" for a
    using index_okD(2) [OF ix] .
  have "modify_dependency_account d new ob = modify_dependencies new ?as ob"
    by (simp add: modify_dependency_account_def idx_get_def split: option.splits)
  moreover have "(\<lambda>a. if a \<in> set ?as
        then map_option (be_dependency_account_update (\<lambda>_. new)) (fmlookup (ob_by_account ob) a)
        else fmlookup (ob_by_account ob) a) =
      (\<lambda>a. map_option (\<lambda>e. if be_dependency e = d then e\<lparr>be_dependency_account := new\<rparr> else e)
              (fmlookup (ob_by_account ob) a))"
  proof
    show "(if a \<in> set ?as then map_option (be_dependency_account_update (\<lambda>_. new)) (fmlookup (ob_by_account ob) a)
        else fmlookup (ob_by_account ob) a) =
      map_option (\<lambda>e. if be_dependency e = d then e\<lparr>be_dependency_account := new\<rparr> else e)
        (fmlookup (ob_by_account ob) a)" for a
      by (cases "fmlookup (ob_by_account ob) a") (auto simp: as)
  qed
  moreover have "\<forall>a\<in>set ?as. fmlookup (ob_by_account ob) a \<noteq> None"
    using as by auto
  ultimately show ?thesis
    using modify_dependencies_spec [OF assms index_okD(1) [OF ix], of d new] by auto
qed

text \<open>
  The next block to look up belongs to an entry whose holder is unknown; there is an answer whenever
  such an entry passes the filter.
\<close>

lemma blocking_next_spec:
  assumes "blocking_inv ob"
  shows "\<exists>r. blocking_next flt ob = Some r \<and>
    (case r of
       None \<Rightarrow> \<forall>a e. fmlookup (ob_by_account ob) a = Some e \<longrightarrow> be_dependency_account e = 0 \<longrightarrow>
         \<not> flt (be_dependency e)
     | Some d \<Rightarrow> flt d \<and> (\<exists>a e. fmlookup (ob_by_account ob) a = Some e \<and> be_dependency_account e = 0 \<and>
         be_dependency e = d))"
proof -
  have ix: "index_ok be_dependency_account (ob_by_account ob) (ob_by_dependency_account ob)"
    using assms by (simp add: blocking_inv_def)
  let ?as = "idx_get (ob_by_dependency_account ob) 0" and ?ok = "\<lambda>e. flt (be_dependency e)"
  let ?es = "map (the \<circ> fmlookup (ob_by_account ob)) ?as"
  have as: "a \<in> set ?as \<longleftrightarrow> (\<exists>e. fmlookup (ob_by_account ob) a = Some e \<and> be_dependency_account e = 0)" for a
    using index_okD(2) [OF ix] .
  have "blocking_next flt ob = map_option (map_option be_dependency)
      (find_entry (fmlookup (ob_by_account ob)) ?ok ?as)"
    by (simp add: blocking_next_def idx_get_def split: option.splits)
  also have "\<dots> = Some (map_option be_dependency (List.find ?ok ?es))"
    using find_entry_Some [of ?as "fmlookup (ob_by_account ob)" ?ok] as by auto
  finally have n: "blocking_next flt ob = Some (map_option be_dependency (List.find ?ok ?es))" .
  show ?thesis
  proof (cases "List.find ?ok ?es")
    case None
    have "\<not> flt (be_dependency e)" if "fmlookup (ob_by_account ob) a = Some e" "be_dependency_account e = 0" for a e
    proof -
      have "e \<in> set ?es"
        using as [of a] that by (force simp: image_iff)
      with None show ?thesis
        by (auto simp: find_None_iff)
    qed
    then show ?thesis
      using n None by auto
  next
    case (Some e)
    then have "e \<in> set ?es" "flt (be_dependency e)"
      by (auto simp: find_Some_iff dest: nth_mem)
    then obtain a where "a \<in> set ?as" "e = the (fmlookup (ob_by_account ob) a)"
      by auto
    then have "fmlookup (ob_by_account ob) a = Some e" "be_dependency_account e = 0"
      using as [of a] by auto
    then show ?thesis
      using n Some \<open>flt (be_dependency e)\<close> by (auto intro!: exI [of _ a])
  qed
qed

lemma iter_start_dep_account_spec:
  assumes "blocking_inv ob"
  shows "\<exists>es. iter_start_dep_account start ob = Some es \<and>
    (\<forall>e. e \<in> set es \<longleftrightarrow> fmlookup (ob_by_account ob) (be_account e) = Some e \<and> start \<le> be_dependency_account e)"
proof -
  have ix: "index_ok be_dependency_account (ob_by_account ob) (ob_by_dependency_account ob)"
    using assms by (simp add: blocking_inv_def)
  let ?as = "concat (map snd (entries_from start (ob_by_dependency_account ob)))"
  have as: "a \<in> set ?as \<longleftrightarrow> (\<exists>e. fmlookup (ob_by_account ob) a = Some e \<and> start \<le> be_dependency_account e)" for a
  proof -
    have "a \<in> set ?as \<longleftrightarrow> (\<exists>k l. (k, l) \<in> set (entries_from start (ob_by_dependency_account ob)) \<and> a \<in> set l)"
      by force
    also have "\<dots> \<longleftrightarrow> (\<exists>k. start \<le> k \<and> a \<in> set (idx_get (ob_by_dependency_account ob) k))"
      by (auto simp: idx_get_mem set_entries_from)
    also have "\<dots> \<longleftrightarrow> (\<exists>e. fmlookup (ob_by_account ob) a = Some e \<and> start \<le> be_dependency_account e)"
      by (auto simp: index_okD(2) [OF ix])
    finally show ?thesis .
  qed
  have acc: "be_account e = a" if "fmlookup (ob_by_account ob) a = Some e" for a e
    using that assms by (simp add: blocking_inv_def)
  have "iter_start_dep_account start ob = Some (map (the \<circ> fmlookup (ob_by_account ob)) ?as)"
    unfolding iter_start_dep_account_def by (rule those_map_Some) (use as in auto)
  moreover have "e \<in> set (map (the \<circ> fmlookup (ob_by_account ob)) ?as) \<longleftrightarrow>
      fmlookup (ob_by_account ob) (be_account e) = Some e \<and> start \<le> be_dependency_account e" for e
  proof
    assume "e \<in> set (map (the \<circ> fmlookup (ob_by_account ob)) ?as)"
    then obtain a where "a \<in> set ?as" "e = the (fmlookup (ob_by_account ob) a)"
      by auto
    then show "fmlookup (ob_by_account ob) (be_account e) = Some e \<and> start \<le> be_dependency_account e"
      using as [of a] acc [of a] by auto
  next
    assume "fmlookup (ob_by_account ob) (be_account e) = Some e \<and> start \<le> be_dependency_account e"
    then show "e \<in> set (map (the \<circ> fmlookup (ob_by_account ob)) ?as)"
      using as [of "be_account e"] unfolding set_map by (intro image_eqI [of _ _ "be_account e"]) auto
  qed
  ultimately show ?thesis
    by blast
qed

end
