(* ===== verification/Account_Sets.thy ===== *)
theory Account_Sets
  imports Traces Ordered_Blocking
begin

text \<open>
  The account sets of the ascending bootstrapper (\<open>node/src/bootstrap/ascending/account_sets.rs\<close>):
  the prioritised and the blocked accounts and the operations over both. The floating point
  constants and operations on priorities are the parameter \<open>prio_ops\<close>; \<open>prio_ops_ok\<close> states what is
  assumed of them.
\<close>

section \<open>Definitions\<close>

record 'p prio_ops =
  po_zero :: 'p
  po_initial :: 'p
  po_increase :: 'p
  po_max :: 'p
  po_cutoff :: 'p
  po_add :: "'p \<Rightarrow> 'p \<Rightarrow> 'p"
  po_halve :: "'p \<Rightarrow> 'p"

record account_sets_config =
  asc_priorities_max :: nat
  asc_blocking_max :: nat
  asc_cooldown :: nat

record 'p account_sets =
  as_config :: account_sets_config
  as_priorities :: "'p ordered_priorities"
  as_blocking :: "'p ordered_blocking"

datatype priority_up_result = UpInserted | UpUpdated | UpInvalidAccount | UpAccountBlocked

datatype priority_down_result = DownDeprioritized | DownErased | DownAccountNotFound | DownInvalidAccount

definition account_sets_new :: "account_sets_config \<Rightarrow> 'p account_sets" where
  "account_sets_new c = \<lparr>as_config = c, as_priorities = prios_default, as_blocking = blocking_default\<rparr>"

definition blocked :: "'p account_sets \<Rightarrow> account \<Rightarrow> bool" where
  "blocked s a = blocking_contains (as_blocking s) a"

definition prioritized :: "'p account_sets \<Rightarrow> account \<Rightarrow> bool" where
  "prioritized s a = prios_contains (as_priorities s) a"

text \<open>The two loops drop the oldest entries; each runs at most once per entry.\<close>

definition trim_overflow :: "'p account_sets \<Rightarrow> 'p account_sets option" where
  "trim_overflow s =
     do {
       ps \<leftarrow> trim_to prios_len (\<lambda>ps. map_option snd (prios_pop_front ps)) (asc_priorities_max (as_config s))
              (prios_len (as_priorities s)) (as_priorities s);
       ob \<leftarrow> trim_to blocking_len (\<lambda>ob. map_option snd (blocking_pop_front ob)) (asc_blocking_max (as_config s))
              (blocking_len (as_blocking s)) (as_blocking s);
       Some (s\<lparr>as_priorities := ps, as_blocking := ob\<rparr>)
     }"

definition higher_priority :: "'p::linorder prio_ops \<Rightarrow> 'p \<Rightarrow> 'p option" where
  "higher_priority P p = Some (min (po_add P p (po_increase P)) (po_max P))"

definition lower_priority :: "'p::linorder prio_ops \<Rightarrow> 'p \<Rightarrow> 'p option" where
  "lower_priority P p = (let n = po_halve P p in if n \<le> po_cutoff P then None else Some n)"

definition priority_up ::
  "'p::linorder prio_ops \<Rightarrow> account \<Rightarrow> 'p account_sets \<Rightarrow> (priority_up_result \<times> 'p account_sets) option" where
  "priority_up P a s =
     (if a = 0 then Some (UpInvalidAccount, s)
      else if \<not> blocked s a then
        (case prios_change_priority a (higher_priority P) (as_priorities s) of
           None \<Rightarrow> None
         | Some (ChangeNotFound, ps) \<Rightarrow>
             map_option (\<lambda>s. (UpInserted, s))
               (trim_overflow (s\<lparr>as_priorities := snd (prios_insert (priority_entry_new a (po_initial P)) ps)\<rparr>))
         | Some (_, ps) \<Rightarrow> Some (UpUpdated, s\<lparr>as_priorities := ps\<rparr>))
      else Some (UpAccountBlocked, s))"

definition priority_down ::
  "'p::linorder prio_ops \<Rightarrow> account \<Rightarrow> 'p account_sets \<Rightarrow> (priority_down_result \<times> 'p account_sets) option" where
  "priority_down P a s =
     (if a = 0 then Some (DownInvalidAccount, s)
      else case prios_change_priority a (lower_priority P) (as_priorities s) of
        None \<Rightarrow> None
      | Some (r, ps) \<Rightarrow>
          Some ((case r of ChangeUpdated \<Rightarrow> DownDeprioritized | ChangeDeleted \<Rightarrow> DownErased
                 | ChangeNotFound \<Rightarrow> DownAccountNotFound), s\<lparr>as_priorities := ps\<rparr>))"

definition priority_set_impl ::
  "'p prio_ops \<Rightarrow> account \<Rightarrow> 'p ordered_blocking \<Rightarrow> 'p ordered_priorities \<Rightarrow> bool \<times> 'p ordered_priorities" where
  "priority_set_impl P a ob ps =
     (if a = 0 then (False, ps)
      else if \<not> blocking_contains ob a \<and> \<not> prios_contains ps a
      then (True, snd (prios_insert (priority_entry_new a (po_initial P)) ps))
      else (False, ps))"

definition priority_set :: "'p prio_ops \<Rightarrow> account \<Rightarrow> 'p account_sets \<Rightarrow> (bool \<times> 'p account_sets) option" where
  "priority_set P a s =
     (case priority_set_impl P a (as_blocking s) (as_priorities s) of
        (inserted, ps) \<Rightarrow> map_option (\<lambda>s. (inserted, s)) (trim_overflow (s\<lparr>as_priorities := ps\<rparr>)))"

definition sets_block :: "'p prio_ops \<Rightarrow> account \<Rightarrow> block_hash \<Rightarrow> 'p account_sets \<Rightarrow> 'p account_sets option" where
  "sets_block P a dep s =
     (case prios_remove a (as_priorities s) of
        None \<Rightarrow> None
      | Some (e, ps) \<Rightarrow>
          trim_overflow
            (s\<lparr>as_priorities := ps,
               as_blocking := snd (blocking_insert
                 \<lparr>be_dependency = dep, be_original_entry = unwrap_or e (priority_entry_new a (po_zero P)),
                  be_dependency_account = 0\<rparr> (as_blocking s))\<rparr>))"

definition sets_unblock ::
  "'p prio_ops \<Rightarrow> account \<Rightarrow> block_hash option \<Rightarrow> 'p account_sets \<Rightarrow> (bool \<times> 'p account_sets) option" where
  "sets_unblock P a hash s =
     (if a = 0 then Some (False, s)
      else case fmlookup (ob_by_account (as_blocking s)) a of
        None \<Rightarrow> Some (False, s)
      | Some e \<Rightarrow>
          if (case hash of None \<Rightarrow> True | Some h \<Rightarrow> h = be_dependency e) then
            (let entry = (if pe_account (be_original_entry e) \<noteq> 0 then be_original_entry e
                          else priority_entry_new a (po_initial P))
             in case blocking_remove a (as_blocking s) of
                  None \<Rightarrow> None
                | Some (_, ob) \<Rightarrow>
                    map_option (\<lambda>s. (True, s))
                      (trim_overflow (s\<lparr>as_priorities := snd (prios_insert entry (as_priorities s)),
                                        as_blocking := ob\<rparr>)))
          else Some (False, s))"

definition timestamp_set :: "account \<Rightarrow> int \<Rightarrow> 'p account_sets \<Rightarrow> 'p account_sets" where
  "timestamp_set a now s = s\<lparr>as_priorities := prios_change_timestamp a (Some now) (as_priorities s)\<rparr>"

definition timestamp_reset :: "account \<Rightarrow> 'p account_sets \<Rightarrow> 'p account_sets" where
  "timestamp_reset a s = s\<lparr>as_priorities := prios_change_timestamp a None (as_priorities s)\<rparr>"

definition dependency_update :: "block_hash \<Rightarrow> account \<Rightarrow> 'p account_sets \<Rightarrow> (nat \<times> 'p account_sets) option" where
  "dependency_update dep a s =
     map_option (\<lambda>(n, ob). (n, s\<lparr>as_blocking := ob\<rparr>)) (modify_dependency_account dep a (as_blocking s))"

definition sets_next_priority :: "int \<Rightarrow> (account \<Rightarrow> bool) \<Rightarrow> 'p::linorder account_sets \<Rightarrow> account option" where
  "sets_next_priority now flt s =
     (if op_sequenced (as_priorities s) = [] then Some 0
      else map_option (\<lambda>r. unwrap_or r 0)
        (prios_next_priority (now - int (asc_cooldown (as_config s))) flt (as_priorities s)))"

definition sets_next_blocking :: "(block_hash \<Rightarrow> bool) \<Rightarrow> 'p account_sets \<Rightarrow> block_hash option" where
  "sets_next_blocking flt s =
     (if blocking_len (as_blocking s) = 0 then Some 0
      else map_option (\<lambda>r. unwrap_or r 0) (blocking_next flt (as_blocking s)))"

fun sync_entries ::
  "'p prio_ops \<Rightarrow> 'p blocking_entry list \<Rightarrow> 'p account_sets \<Rightarrow> (nat \<times> nat) \<times> 'p account_sets" where
  "sync_entries P [] s = ((0, 0), s)"
| "sync_entries P (e # es) s =
     (if prios_len (as_priorities s) \<ge> asc_priorities_max (as_config s) then ((0, 0), s)
      else if \<not> blocked s (be_dependency_account e) \<and> \<not> prioritized s (be_dependency_account e) then
        (case priority_set_impl P (be_dependency_account e) (as_blocking s) (as_priorities s) of
           (ok, ps) \<Rightarrow>
             (case sync_entries P es (s\<lparr>as_priorities := ps\<rparr>) of
                ((i, f), s') \<Rightarrow> ((if ok then (i + 1, f) else (i, f + 1)), s')))
      else sync_entries P es s)"

definition sync_dependencies :: "'p prio_ops \<Rightarrow> 'p account_sets \<Rightarrow> ((nat \<times> nat) \<times> 'p account_sets) option" where
  "sync_dependencies P s =
     (case iter_start_dep_account 1 (as_blocking s) of
        None \<Rightarrow> None
      | Some es \<Rightarrow>
          (case sync_entries P es s of (r, s) \<Rightarrow> map_option (\<lambda>s. (r, s)) (trim_overflow s)))"

definition priority_half_full :: "'p account_sets \<Rightarrow> bool" where
  "priority_half_full s = (prios_len (as_priorities s) > asc_priorities_max (as_config s) div 2)"

definition blocked_half_full :: "'p account_sets \<Rightarrow> bool" where
  "blocked_half_full s = (blocking_len (as_blocking s) > asc_blocking_max (as_config s) div 2)"

definition account_priority :: "'p prio_ops \<Rightarrow> 'p account_sets \<Rightarrow> account \<Rightarrow> 'p" where
  "account_priority P s a =
     (if \<not> blocked s a then
        (case fmlookup (op_by_account (as_priorities s)) a of Some e \<Rightarrow> pe_priority e | None \<Rightarrow> po_zero P)
      else po_zero P)"

section \<open>The invariant\<close>

text \<open>
  The containers are consistent, no account is both prioritised and blocked, the zero account is
  neither, the configured sizes are kept and no priority exceeds the maximum.
\<close>

definition sets_core :: "'p::linorder prio_ops \<Rightarrow> 'p account_sets \<Rightarrow> bool" where
  "sets_core P s \<longleftrightarrow>
     prios_inv (as_priorities s) \<and> blocking_inv (as_blocking s) \<and>
     (\<forall>a. prioritized s a \<longrightarrow> \<not> blocked s a) \<and> \<not> prioritized s 0 \<and> \<not> blocked s 0 \<and>
     (\<forall>a e. fmlookup (op_by_account (as_priorities s)) a = Some e \<longrightarrow> pe_priority e \<le> po_max P) \<and>
     (\<forall>a e. fmlookup (ob_by_account (as_blocking s)) a = Some e \<longrightarrow> be_priority e \<le> po_max P)"

definition sets_inv :: "'p::linorder prio_ops \<Rightarrow> 'p account_sets \<Rightarrow> bool" where
  "sets_inv P s \<longleftrightarrow>
     sets_core P s \<and> prios_len (as_priorities s) \<le> asc_priorities_max (as_config s) \<and>
     blocking_len (as_blocking s) \<le> asc_blocking_max (as_config s)"

text \<open>The constants are in order, and halving a priority that is at most the maximum stays there.\<close>

definition prio_ops_ok :: "'p::linorder prio_ops \<Rightarrow> bool" where
  "prio_ops_ok P \<longleftrightarrow>
     po_zero P \<le> po_max P \<and> po_initial P \<le> po_max P \<and> (\<forall>p \<le> po_max P. po_halve P p \<le> po_max P)"

lemma sets_inv_new: "sets_inv P (account_sets_new c)"
  by (simp add: sets_inv_def sets_core_def account_sets_new_def prios_inv_default blocking_inv_default
      prioritized_def blocked_def prios_contains_def blocking_contains_def prios_len_def blocking_len_def)
    (simp add: prios_default_def blocking_default_def)

lemma trim_overflow_spec:
  assumes "sets_core P s"
  shows "\<exists>s'. trim_overflow s = Some s' \<and> sets_inv P s' \<and> as_config s' = as_config s \<and>
    op_sequenced (as_priorities s') =
      drop (prios_len (as_priorities s) - asc_priorities_max (as_config s)) (op_sequenced (as_priorities s)) \<and>
    (\<forall>a e. fmlookup (op_by_account (as_priorities s')) a = Some e \<longrightarrow>
       fmlookup (op_by_account (as_priorities s)) a = Some e) \<and>
    ob_sequenced (as_blocking s') =
      drop (blocking_len (as_blocking s) - asc_blocking_max (as_config s)) (ob_sequenced (as_blocking s)) \<and>
    (\<forall>a e. fmlookup (ob_by_account (as_blocking s')) a = Some e \<longrightarrow>
       fmlookup (ob_by_account (as_blocking s)) a = Some e)"
proof -
  have inv: "prios_inv (as_priorities s)" "blocking_inv (as_blocking s)"
    using assms by (simp_all add: sets_core_def)
  from prios.trim_to_ids [OF inv(1) order.refl, of "asc_priorities_max (as_config s)"] obtain ps where
    ps: "trim_to (\<lambda>ps. length (op_sequenced ps)) (\<lambda>ps. map_option snd (prios_pop_front ps))
       (asc_priorities_max (as_config s)) (length (op_sequenced (as_priorities s))) (as_priorities s) = Some ps"
      "prios_inv ps" "op_sequenced ps = drop (length (op_sequenced (as_priorities s)) -
         asc_priorities_max (as_config s)) (op_sequenced (as_priorities s))"
      "\<And>a e. fmlookup (op_by_account ps) a = Some e \<Longrightarrow> fmlookup (op_by_account (as_priorities s)) a = Some e"
    by (metis (no_types, lifting) option.distinct(1))
  from blocking.trim_to_ids [OF inv(2) order.refl, of "asc_blocking_max (as_config s)"] obtain ob where
    ob: "trim_to (\<lambda>ob. length (ob_sequenced ob)) (\<lambda>ob. map_option snd (blocking_pop_front ob))
       (asc_blocking_max (as_config s)) (length (ob_sequenced (as_blocking s))) (as_blocking s) = Some ob"
      "blocking_inv ob" "ob_sequenced ob = drop (length (ob_sequenced (as_blocking s)) -
         asc_blocking_max (as_config s)) (ob_sequenced (as_blocking s))"
      "\<And>a e. fmlookup (ob_by_account ob) a = Some e \<Longrightarrow> fmlookup (ob_by_account (as_blocking s)) a = Some e"
    by (metis (no_types, lifting) option.distinct(1))
  let ?s = "s\<lparr>as_priorities := ps, as_blocking := ob\<rparr>"
  have "trim_overflow s = Some ?s"
    using ps(1) ob(1) by (simp add: trim_overflow_def prios_len_def [abs_def] blocking_len_def [abs_def])
  moreover have "sets_inv P ?s"
    using assms ps(2,3,4) ob(2,3,4)
    by (auto simp: sets_inv_def sets_core_def prioritized_def blocked_def prios_contains_def
        blocking_contains_def prios_len_def blocking_len_def) (metis option.distinct(1) option.exhaust)+
  ultimately show ?thesis
    using ps ob by (simp add: prios_len_def blocking_len_def)
qed


section \<open>Every operation keeps the invariant\<close>

lemmas sets_defs = sets_core_def prioritized_def blocked_def prios_contains_def blocking_contains_def

lemma sets_inv_core: "sets_inv P s \<Longrightarrow> sets_core P s"
  by (simp add: sets_inv_def)

lemma core_insert_priority:
  assumes "sets_core P s" "\<not> prioritized s (pe_account e)" "\<not> blocked s (pe_account e)"
    "pe_account e \<noteq> 0" "pe_priority e \<le> po_max P"
  shows "sets_core P (s\<lparr>as_priorities := snd (prios_insert e (as_priorities s))\<rparr>)"
    "fmlookup (op_by_account (snd (prios_insert e (as_priorities s)))) =
       (fmlookup (op_by_account (as_priorities s)))(pe_account e \<mapsto> e)"
    "op_sequenced (snd (prios_insert e (as_priorities s))) = op_sequenced (as_priorities s) @ [pe_account e]"
proof -
  have "prios_inv (as_priorities s)" "fmlookup (op_by_account (as_priorities s)) (pe_account e) = None"
    using assms(1,2) by (simp_all add: sets_defs)
  from prios_insert_spec [OF this] obtain ps where
    ps: "prios_insert e (as_priorities s) = (True, ps)" "prios_inv ps"
      "op_by_account ps = fmupd (pe_account e) e (op_by_account (as_priorities s))"
      "op_sequenced ps = op_sequenced (as_priorities s) @ [pe_account e]"
    by blast
  show "fmlookup (op_by_account (snd (prios_insert e (as_priorities s)))) =
       (fmlookup (op_by_account (as_priorities s)))(pe_account e \<mapsto> e)"
    "op_sequenced (snd (prios_insert e (as_priorities s))) = op_sequenced (as_priorities s) @ [pe_account e]"
    by (simp_all add: ps fun_eq_iff)
  show "sets_core P (s\<lparr>as_priorities := snd (prios_insert e (as_priorities s))\<rparr>)"
    using assms ps(2) by (auto simp: sets_defs ps(1,3))
qed

lemma priority_entry_new_sel [simp]:
  "pe_account (priority_entry_new a p) = a" "pe_priority (priority_entry_new a p) = p"
  "pe_timestamp (priority_entry_new a p) = None"
  by (simp_all add: priority_entry_new_def)

lemma priority_up_spec:
  assumes "sets_inv P s" "prio_ops_ok P"
  shows "\<exists>r s'. priority_up P a s = Some (r, s') \<and> sets_inv P s' \<and> as_config s' = as_config s \<and>
    (r = UpInvalidAccount \<longleftrightarrow> a = 0) \<and> (r = UpAccountBlocked \<longleftrightarrow> a \<noteq> 0 \<and> blocked s a) \<and>
    (r = UpUpdated \<longleftrightarrow> prioritized s a)"
proof (cases "a = 0 \<or> blocked s a")
  case True
  then show ?thesis
    using assms by (auto simp: priority_up_def sets_inv_def sets_core_def)
next
  case False
  have inv: "prios_inv (as_priorities s)"
    using assms(1) by (simp add: sets_inv_def sets_core_def)
  from prios_change_priority_spec [OF inv, of a "higher_priority P"] obtain r ps where
    c: "prios_change_priority a (higher_priority P) (as_priorities s) = Some (r, ps)" "prios_inv ps"
      "case fmlookup (op_by_account (as_priorities s)) a of
         None \<Rightarrow> r = ChangeNotFound \<and> ps = as_priorities s
       | Some e \<Rightarrow> r = ChangeUpdated \<and> op_sequenced ps = op_sequenced (as_priorities s) \<and>
           op_by_account ps = fmupd a (e\<lparr>pe_priority := min (po_add P (pe_priority e) (po_increase P)) (po_max P)\<rparr>)
             (op_by_account (as_priorities s))"
    by (auto simp: higher_priority_def split: option.splits)
  show ?thesis
  proof (cases "fmlookup (op_by_account (as_priorities s)) a")
    case None
    let ?e = "priority_entry_new a (po_initial P)"
    have "sets_core P (s\<lparr>as_priorities := snd (prios_insert ?e (as_priorities s))\<rparr>)"
      using assms False None
      by (intro core_insert_priority(1) sets_inv_core)
        (auto simp: prioritized_def prios_contains_def prio_ops_ok_def)
    from trim_overflow_spec [OF this] show ?thesis
      using False None c by (auto simp: priority_up_def prioritized_def prios_contains_def)
  next
    case (Some e)
    then have "sets_inv P (s\<lparr>as_priorities := ps\<rparr>)"
      using assms(1) c False by (auto simp: sets_inv_def sets_defs prios_len_def)
    then show ?thesis
      using False Some c by (auto simp: priority_up_def prioritized_def prios_contains_def)
  qed
qed

lemma priority_down_spec:
  assumes "sets_inv P s" "prio_ops_ok P"
  shows "\<exists>r s'. priority_down P a s = Some (r, s') \<and> sets_inv P s' \<and> as_config s' = as_config s \<and>
    (r = DownInvalidAccount \<longleftrightarrow> a = 0) \<and> (r = DownAccountNotFound \<longleftrightarrow> a \<noteq> 0 \<and> \<not> prioritized s a) \<and>
    (r = DownErased \<longrightarrow> \<not> prioritized s' a)"
proof (cases "a = 0")
  case True
  then show ?thesis
    using assms by (simp add: priority_down_def)
next
  case False
  have inv: "prios_inv (as_priorities s)"
    using assms(1) by (simp add: sets_inv_def sets_core_def)
  from prios_change_priority_spec [OF inv, of a "lower_priority P"] obtain r ps where
    c: "prios_change_priority a (lower_priority P) (as_priorities s) = Some (r, ps)" "prios_inv ps"
      "case fmlookup (op_by_account (as_priorities s)) a of
         None \<Rightarrow> r = ChangeNotFound \<and> ps = as_priorities s
       | Some e \<Rightarrow>
         (case lower_priority P (pe_priority e) of
            None \<Rightarrow> r = ChangeDeleted \<and> op_by_account ps = fmdrop a (op_by_account (as_priorities s)) \<and>
              op_sequenced ps = filter (\<lambda>i. i \<noteq> a) (op_sequenced (as_priorities s))
          | Some p \<Rightarrow> r = ChangeUpdated \<and> op_sequenced ps = op_sequenced (as_priorities s) \<and>
              op_by_account ps = fmupd a (e\<lparr>pe_priority := p\<rparr>) (op_by_account (as_priorities s)))"
    by blast
  have len: "prios_len ps \<le> asc_priorities_max (as_config s)"
    using c(3) assms(1)
    by (auto simp: sets_inv_def prios_len_def split: option.splits intro: order_trans [OF length_filter_le])
  have "sets_core P (s\<lparr>as_priorities := ps\<rparr>)"
  proof (cases "fmlookup (op_by_account (as_priorities s)) a")
    case (Some e)
    then have "pe_priority e \<le> po_max P" "\<not> blocked s a" "a \<noteq> 0"
      using assms(1) False by (auto simp: sets_inv_def sets_defs)
    then show ?thesis
      using assms c(2,3) Some
      by (auto simp: sets_inv_def sets_defs prio_ops_ok_def lower_priority_def Let_def split: if_splits)
  qed (use assms c in \<open>simp add: sets_inv_def\<close>)
  with len have "sets_inv P (s\<lparr>as_priorities := ps\<rparr>)"
    using assms(1) by (simp add: sets_inv_def)
  then show ?thesis
    using False c by (auto simp: priority_down_def prioritized_def prios_contains_def split: option.splits)
qed


lemma priority_set_impl_spec:
  assumes "sets_core P s" "prio_ops_ok P" "priority_set_impl P a (as_blocking s) (as_priorities s) = (r, ps)"
  shows "sets_core P (s\<lparr>as_priorities := ps\<rparr>)" "r \<longleftrightarrow> a \<noteq> 0 \<and> \<not> prioritized s a \<and> \<not> blocked s a"
    "prioritized s b \<Longrightarrow> prios_contains ps b" "r \<Longrightarrow> prios_contains ps a"
    "prios_len ps = prios_len (as_priorities s) + (if r then 1 else 0)"
proof -
  let ?e = "priority_entry_new a (po_initial P)"
  show r: "r \<longleftrightarrow> a \<noteq> 0 \<and> \<not> prioritized s a \<and> \<not> blocked s a"
    using assms(3) by (auto simp: priority_set_impl_def prioritized_def blocked_def split: if_splits)
  have ps: "ps = (if r then snd (prios_insert ?e (as_priorities s)) else as_priorities s)"
    using assms(3) by (auto simp: priority_set_impl_def split: if_splits)
  have i: "sets_core P (s\<lparr>as_priorities := snd (prios_insert ?e (as_priorities s))\<rparr>)"
    "fmlookup (op_by_account (snd (prios_insert ?e (as_priorities s)))) =
       (fmlookup (op_by_account (as_priorities s)))(a \<mapsto> ?e)"
    "op_sequenced (snd (prios_insert ?e (as_priorities s))) = op_sequenced (as_priorities s) @ [a]" if r
    using core_insert_priority [OF assms(1), of ?e] that assms(2) unfolding r by (simp_all add: prio_ops_ok_def)
  show "sets_core P (s\<lparr>as_priorities := ps\<rparr>)"
    using assms(1) i(1) by (simp add: ps)
  show "prioritized s b \<Longrightarrow> prios_contains ps b" "r \<Longrightarrow> prios_contains ps a"
    using i(2) by (simp_all add: ps prioritized_def prios_contains_def)
  show "prios_len ps = prios_len (as_priorities s) + (if r then 1 else 0)"
    using i(3) by (simp add: ps prios_len_def)
qed

lemma priority_set_spec:
  assumes "sets_inv P s" "prio_ops_ok P"
  shows "\<exists>r s'. priority_set P a s = Some (r, s') \<and> sets_inv P s' \<and> as_config s' = as_config s \<and>
    (r \<longleftrightarrow> a \<noteq> 0 \<and> \<not> prioritized s a \<and> \<not> blocked s a)"
proof -
  obtain r ps where p: "priority_set_impl P a (as_blocking s) (as_priorities s) = (r, ps)"
    by fastforce
  note i = priority_set_impl_spec [OF sets_inv_core [OF assms(1)] assms(2) p]
  from trim_overflow_spec [OF i(1)] show ?thesis
    using i(2) by (auto simp: priority_set_def p)
qed

lemma last_kept: "0 < n \<Longrightarrow> x \<in> set (drop (length (xs @ [x]) - n) (xs @ [x]))"
  by (cases n) auto

lemma blocked_mem: "blocking_inv (as_blocking s) \<Longrightarrow> a \<in> set (ob_sequenced (as_blocking s)) \<longleftrightarrow> blocked s a"
  by (simp add: blocking.ids_find blocked_def blocking_contains_def)

lemma prioritized_mem: "prios_inv (as_priorities s) \<Longrightarrow> a \<in> set (op_sequenced (as_priorities s)) \<longleftrightarrow> prioritized s a"
  by (simp add: prios.ids_find prioritized_def prios_contains_def)

text \<open>
  Blocking an account takes it out of the prioritised ones and remembers its entry; an account that
  was not prioritised is remembered with the priority zero.
\<close>

lemma sets_block_spec:
  assumes "sets_inv P s" "prio_ops_ok P" "a \<noteq> 0"
  shows "\<exists>s'. sets_block P a dep s = Some s' \<and> sets_inv P s' \<and> as_config s' = as_config s \<and> \<not> prioritized s' a \<and>
    (\<not> blocked s a \<longrightarrow> 0 < asc_blocking_max (as_config s) \<longrightarrow>
       fmlookup (ob_by_account (as_blocking s')) a =
         Some \<lparr>be_dependency = dep,
               be_original_entry = unwrap_or (fmlookup (op_by_account (as_priorities s)) a) (priority_entry_new a (po_zero P)),
               be_dependency_account = 0\<rparr>)"
proof -
  have c: "sets_core P s" and inv: "prios_inv (as_priorities s)" "blocking_inv (as_blocking s)"
    using assms(1) by (simp_all add: sets_inv_def sets_core_def)
  from prios_remove_spec [OF inv(1), of a] obtain ps where
    ps: "prios_remove a (as_priorities s) = Some (fmlookup (op_by_account (as_priorities s)) a, ps)" "prios_inv ps"
      "op_by_account ps = fmdrop a (op_by_account (as_priorities s))"
    by blast
  define e where "e = \<lparr>be_dependency = dep,
     be_original_entry = unwrap_or (fmlookup (op_by_account (as_priorities s)) a) (priority_entry_new a (po_zero P)),
     be_dependency_account = 0\<rparr>"
  have e: "be_account e = a" "be_priority e \<le> po_max P"
    using c assms(2) by (auto simp: e_def be_account_def be_priority_def sets_core_def prios_inv_def
        prio_ops_ok_def unwrap_or_def split: option.splits)
  define ob where "ob = snd (blocking_insert e (as_blocking s))"
  have ob: "blocking_inv ob" "fmlookup (ob_by_account ob) = (if blocked s a then fmlookup (ob_by_account (as_blocking s))
      else (fmlookup (ob_by_account (as_blocking s)))(a \<mapsto> e))"
      "\<not> blocked s a \<Longrightarrow> ob_sequenced ob = ob_sequenced (as_blocking s) @ [a]"
    using blocking_insert_spec [OF inv(2), of e] inv(2) e(1)
    by (auto simp: ob_def blocking_insert_def blocking_contains_def blocked_def Let_def fun_eq_iff)
  let ?s = "s\<lparr>as_priorities := ps, as_blocking := ob\<rparr>"
  have "sets_core P ?s"
    using c ps(2,3) ob(1,2) assms(3) e by (auto simp: sets_defs split: if_splits)
  from trim_overflow_spec [OF this] obtain s' where
    t: "trim_overflow ?s = Some s'" "sets_inv P s'" "as_config s' = as_config s"
      "\<And>b e. fmlookup (op_by_account (as_priorities s')) b = Some e \<Longrightarrow> fmlookup (op_by_account ps) b = Some e"
      "ob_sequenced (as_blocking s') = drop (blocking_len ob - asc_blocking_max (as_config s)) (ob_sequenced ob)"
      "\<And>b e. fmlookup (ob_by_account (as_blocking s')) b = Some e \<Longrightarrow> fmlookup (ob_by_account ob) b = Some e"
    by auto
  have "fmlookup (ob_by_account (as_blocking s')) a = Some e"
    if "\<not> blocked s a" "0 < asc_blocking_max (as_config s)"
  proof -
    have "a \<in> set (ob_sequenced (as_blocking s'))"
      using t(5) ob(3) [OF that(1)] last_kept [OF that(2)] by (simp add: blocking_len_def)
    then obtain e' where "fmlookup (ob_by_account (as_blocking s')) a = Some e'"
      using t(2) by (auto simp: blocked_mem sets_inv_def sets_core_def blocked_def blocking_contains_def)
    with t(6) ob(2) that(1) show ?thesis
      by force
  qed
  moreover have "\<not> prioritized s' a"
    using t(4) [of a]
    by (cases "fmlookup (op_by_account (as_priorities s')) a") (simp_all add: prioritized_def prios_contains_def ps(3))
  ultimately show ?thesis
    using t ps(1) by (auto simp: sets_block_def e_def [symmetric] ob_def [symmetric])
qed

lemma sets_unblock_spec:
  assumes "sets_inv P s" "prio_ops_ok P"
  shows "\<exists>r s'. sets_unblock P a hash s = Some (r, s') \<and> sets_inv P s' \<and> as_config s' = as_config s \<and>
    (r \<longrightarrow> \<not> blocked s' a \<and> (\<exists>e. fmlookup (ob_by_account (as_blocking s)) a = Some e \<and>
        (hash = None \<or> hash = Some (be_dependency e)) \<and>
        (0 < asc_priorities_max (as_config s) \<longrightarrow>
           fmlookup (op_by_account (as_priorities s')) a = Some (be_original_entry e)))) \<and>
    (\<not> r \<longrightarrow> s' = s \<and> (\<forall>e. fmlookup (ob_by_account (as_blocking s)) a = Some e \<longrightarrow>
        hash \<noteq> None \<and> hash \<noteq> Some (be_dependency e)))"
proof (cases "fmlookup (ob_by_account (as_blocking s)) a")
  case None
  then show ?thesis
    using assms by (intro exI [of _ False] exI [of _ s]) (simp add: sets_unblock_def)
next
  case (Some e)
  have c: "sets_core P s" and inv: "prios_inv (as_priorities s)" "blocking_inv (as_blocking s)"
    using assms(1) by (simp_all add: sets_inv_def sets_core_def)
  have a: "a \<noteq> 0" "pe_account (be_original_entry e) = a" "\<not> prioritized s a" "pe_priority (be_original_entry e) \<le> po_max P"
    using c Some by (auto simp: sets_defs blocking_inv_def be_account_def be_priority_def)
  show ?thesis
  proof (cases "hash = None \<or> hash = Some (be_dependency e)")
    case False
    then show ?thesis
      using assms(1) Some by (auto simp: sets_unblock_def split: option.splits)
  next
    case True
    from blocking_remove_spec [OF inv(2), of a] obtain ob where
      ob: "blocking_remove a (as_blocking s) = Some (Some e, ob)" "blocking_inv ob"
        "ob_by_account ob = fmdrop a (ob_by_account (as_blocking s))"
      using Some by auto
    let ?s = "s\<lparr>as_blocking := ob\<rparr>"
    have "sets_core P ?s" "\<not> prioritized ?s a" "\<not> blocked ?s a"
      using c ob(2,3) a by (auto simp: sets_defs)
    note i = core_insert_priority [OF this(1), of "be_original_entry e", unfolded a(2), OF this(2,3) a(1,4)]
    from trim_overflow_spec [OF i(1)] obtain s' where
      t: "trim_overflow (?s\<lparr>as_priorities := snd (prios_insert (be_original_entry e) (as_priorities s))\<rparr>) = Some s'"
        "sets_inv P s'" "as_config s' = as_config s"
        "op_sequenced (as_priorities s') = drop (length (op_sequenced (as_priorities s) @ [a]) - asc_priorities_max (as_config s))
           (op_sequenced (as_priorities s) @ [a])"
        "\<And>b e'. fmlookup (op_by_account (as_priorities s')) b = Some e' \<Longrightarrow>
           ((fmlookup (op_by_account (as_priorities s)))(a \<mapsto> be_original_entry e)) b = Some e'"
        "\<And>b e'. fmlookup (ob_by_account (as_blocking s')) b = Some e' \<Longrightarrow> fmlookup (ob_by_account ob) b = Some e'"
      using i(2,3) by (auto simp: prios_len_def)
    have "fmlookup (op_by_account (as_priorities s')) a = Some (be_original_entry e)" if "0 < asc_priorities_max (as_config s)"
    proof -
      have "a \<in> set (op_sequenced (as_priorities s'))"
        unfolding t(4) by (rule last_kept [OF that])
      then obtain e' where "fmlookup (op_by_account (as_priorities s')) a = Some e'"
        using t(2) by (auto simp: prioritized_mem sets_inv_def sets_core_def prioritized_def prios_contains_def)
      with t(5) show ?thesis
        by force
    qed
    moreover have "\<not> blocked s' a"
      using t(6) [of a]
      by (cases "fmlookup (ob_by_account (as_blocking s')) a") (simp_all add: blocked_def blocking_contains_def ob(3))
    moreover have "sets_unblock P a hash s = Some (True, s')"
    proof -
      have eq: "s\<lparr>as_priorities := x, as_blocking := ob\<rparr> = ?s\<lparr>as_priorities := x\<rparr>" for x
        by simp
      have "trim_overflow (s\<lparr>as_priorities := snd (prios_insert (be_original_entry e) (as_priorities s)),
          as_blocking := ob\<rparr>) = Some s'"
        unfolding eq by (rule t(1))
      then show ?thesis
        using True a ob(1) Some by (auto simp: sets_unblock_def split: option.splits)
    qed
    ultimately show ?thesis
      using t(2,3) Some True by (intro exI [of _ True] exI [of _ s']) auto
  qed
qed


lemma timestamp_inv:
  assumes "sets_inv P s"
  shows "sets_inv P (timestamp_set a now s)" "sets_inv P (timestamp_reset a s)"
proof -
  have inv: "prios_inv (as_priorities s)"
    using assms by (simp add: sets_inv_def sets_core_def)
  note t = prios_change_timestamp_spec [OF inv]
  have "sets_inv P (s\<lparr>as_priorities := prios_change_timestamp a ts (as_priorities s)\<rparr>)" for ts
    using assms t(1) [of a ts] by (auto simp: sets_inv_def sets_defs prios_len_def t(2,3) split: if_splits)
  then show "sets_inv P (timestamp_set a now s)" "sets_inv P (timestamp_reset a s)"
    by (simp_all add: timestamp_set_def timestamp_reset_def)
qed

lemma dependency_update_spec:
  assumes "sets_inv P s"
  shows "\<exists>n s'. dependency_update d a s = Some (n, s') \<and> sets_inv P s' \<and> as_config s' = as_config s \<and>
    fmlookup (ob_by_account (as_blocking s')) =
      (\<lambda>b. map_option (\<lambda>e. if be_dependency e = d then e\<lparr>be_dependency_account := a\<rparr> else e)
             (fmlookup (ob_by_account (as_blocking s)) b))"
proof -
  have inv: "blocking_inv (as_blocking s)"
    using assms by (simp add: sets_inv_def sets_core_def)
  from modify_dependency_account_spec [OF inv, of d a] obtain n ob where
    m: "modify_dependency_account d a (as_blocking s) = Some (n, ob)" "blocking_inv ob"
      "fmlookup (ob_by_account ob) =
        (\<lambda>b. map_option (\<lambda>e. if be_dependency e = d then e\<lparr>be_dependency_account := a\<rparr> else e)
             (fmlookup (ob_by_account (as_blocking s)) b))"
      "ob_sequenced ob = ob_sequenced (as_blocking s)"
    by blast
  have "sets_inv P (s\<lparr>as_blocking := ob\<rparr>)"
    using assms m(2,3,4) by (auto simp: sets_inv_def sets_defs blocking_len_def be_priority_def)
  then show ?thesis
    using m(1,3) by (simp add: dependency_update_def)
qed

lemma sync_entries_spec:
  "sets_core P s \<Longrightarrow> prio_ops_ok P \<Longrightarrow> sync_entries P es s = (r, s') \<Longrightarrow>
   sets_core P s' \<and> as_config s' = as_config s \<and> as_blocking s' = as_blocking s"
proof (induction es arbitrary: s r s')
  case (Cons e es)
  obtain ok ps where p: "priority_set_impl P (be_dependency_account e) (as_blocking s) (as_priorities s) = (ok, ps)"
    by fastforce
  obtain i f s1 where s1: "sync_entries P es (s\<lparr>as_priorities := ps\<rparr>) = ((i, f), s1)"
    by (metis prod.exhaust)
  have "sets_core P s1 \<and> as_config s1 = as_config s \<and> as_blocking s1 = as_blocking s"
    using Cons.IH [OF priority_set_impl_spec(1) [OF Cons.prems(1,2) p] Cons.prems(2) s1] by simp
  then show ?case
    using Cons.prems Cons.IH [OF Cons.prems(1,2)] by (simp add: p s1 split: if_splits)
qed simp

lemma sync_dependencies_spec:
  assumes "sets_inv P s" "prio_ops_ok P"
  shows "\<exists>r s'. sync_dependencies P s = Some (r, s') \<and> sets_inv P s' \<and> as_config s' = as_config s"
proof -
  have inv: "blocking_inv (as_blocking s)"
    using assms by (simp add: sets_inv_def sets_core_def)
  from iter_start_dep_account_spec [OF inv, of 1] obtain es where es: "iter_start_dep_account 1 (as_blocking s) = Some es"
    by blast
  obtain r s1 where s1: "sync_entries P es s = (r, s1)"
    by fastforce
  from sync_entries_spec [OF sets_inv_core [OF assms(1)] assms(2) s1]
  have "sets_core P s1" "as_config s1 = as_config s"
    by auto
  with trim_overflow_spec [OF this(1)] show ?thesis
    by (auto simp: sync_dependencies_def es s1)
qed

text \<open>The next account to pull is prioritised, rested and accepted by the filter, and no better one is.\<close>

lemma sets_next_priority_spec:
  assumes "sets_inv P s"
  shows "\<exists>a. sets_next_priority now flt s = Some a \<and>
    (let cutoff = now - int (asc_cooldown (as_config s)); es = fmlookup (op_by_account (as_priorities s)) in
     if a = 0 then \<forall>b e. es b = Some e \<longrightarrow> \<not> eligible cutoff flt e
     else \<exists>e. es a = Some e \<and> eligible cutoff flt e \<and>
       (\<forall>b e'. es b = Some e' \<longrightarrow> eligible cutoff flt e' \<longrightarrow> pe_priority e' \<le> pe_priority e))"
proof -
  have inv: "prios_inv (as_priorities s)" "fmlookup (op_by_account (as_priorities s)) 0 = None"
    using assms by (auto simp: sets_inv_def sets_defs)
  have n: "op_sequenced (as_priorities s) = [] \<Longrightarrow> fmlookup (op_by_account (as_priorities s)) b = None" for b
    using prios.ids_find [OF inv(1), of b] by auto
  from prios_next_priority_spec [OF inv(1), of "now - int (asc_cooldown (as_config s))" flt] obtain r where
    r: "prios_next_priority (now - int (asc_cooldown (as_config s))) flt (as_priorities s) = Some r"
      "case r of
       None \<Rightarrow> \<forall>a e. fmlookup (op_by_account (as_priorities s)) a = Some e \<longrightarrow>
         \<not> eligible (now - int (asc_cooldown (as_config s))) flt e
     | Some a \<Rightarrow> \<exists>e. fmlookup (op_by_account (as_priorities s)) a = Some e \<and>
         eligible (now - int (asc_cooldown (as_config s))) flt e \<and>
         (\<forall>b e'. fmlookup (op_by_account (as_priorities s)) b = Some e' \<longrightarrow>
            eligible (now - int (asc_cooldown (as_config s))) flt e' \<longrightarrow> pe_priority e' \<le> pe_priority e)"
    by blast
  show ?thesis
  proof (cases "op_sequenced (as_priorities s) = [] \<or> r = None")
    case True
    then show ?thesis
      using n r by (auto simp: sets_next_priority_def)
  next
    case False
    then obtain a where "r = Some a"
      by auto
    then show ?thesis
      using False r inv(2) by (auto simp: sets_next_priority_def)
  qed
qed

text \<open>
  An account that is blocked without having been prioritised comes back with the priority zero: the
  branch of \<open>unblock\<close> that gives it the initial priority is never taken.
\<close>

lemma block_unblock_priority:
  assumes "sets_inv P s" "prio_ops_ok P" "a \<noteq> 0" "\<not> blocked s a"
    "0 < asc_blocking_max (as_config s)" "0 < asc_priorities_max (as_config s)"
  shows "\<exists>s1 s2. sets_block P a dep s = Some s1 \<and> blocked s1 a \<and>
    sets_unblock P a None s1 = Some (True, s2) \<and> \<not> blocked s2 a \<and> prioritized s2 a \<and>
    account_priority P s2 a = account_priority P s a"
proof -
  let ?e = "unwrap_or (fmlookup (op_by_account (as_priorities s)) a) (priority_entry_new a (po_zero P))"
  from sets_block_spec [OF assms(1,2,3), of dep] assms(4,5) obtain s1 where
    s1: "sets_block P a dep s = Some s1" "sets_inv P s1" "as_config s1 = as_config s"
      "fmlookup (ob_by_account (as_blocking s1)) a =
         Some \<lparr>be_dependency = dep, be_original_entry = ?e, be_dependency_account = 0\<rparr>"
    by auto
  from sets_unblock_spec [OF s1(2) assms(2), of a None] obtain s2 where
    s2: "sets_unblock P a None s1 = Some (True, s2)" "\<not> blocked s2 a"
      "fmlookup (op_by_account (as_priorities s2)) a = Some ?e"
    using s1(3,4) assms(6) by auto
  have "account_priority P s2 a = account_priority P s a"
    using s2(2,3) assms(4) by (auto simp: account_priority_def unwrap_or_def split: option.splits)
  then show ?thesis
    using s1 s2 by (auto simp: blocked_def blocking_contains_def prioritized_def prios_contains_def)
qed

section \<open>Runs\<close>

datatype sets_op =
    SetsPriorityUp account | SetsPriorityDown account | SetsPrioritySet account
  | SetsBlock account block_hash | SetsUnblock account "block_hash option"
  | SetsTimestampSet account int | SetsTimestampReset account
  | SetsDependencyUpdate block_hash account | SetsSync

fun sets_step :: "'p::linorder prio_ops \<Rightarrow> sets_op \<Rightarrow> 'p account_sets \<Rightarrow> (unit \<times> 'p account_sets) option" where
  "sets_step P (SetsPriorityUp a) s = map_option (\<lambda>(_, s). ((), s)) (priority_up P a s)"
| "sets_step P (SetsPriorityDown a) s = map_option (\<lambda>(_, s). ((), s)) (priority_down P a s)"
| "sets_step P (SetsPrioritySet a) s = map_option (\<lambda>(_, s). ((), s)) (priority_set P a s)"
| "sets_step P (SetsBlock a dep) s = map_option (Pair ()) (sets_block P a dep s)"
| "sets_step P (SetsUnblock a h) s = map_option (\<lambda>(_, s). ((), s)) (sets_unblock P a h s)"
| "sets_step P (SetsTimestampSet a now) s = Some ((), timestamp_set a now s)"
| "sets_step P (SetsTimestampReset a) s = Some ((), timestamp_reset a s)"
| "sets_step P (SetsDependencyUpdate d a) s = map_option (\<lambda>(_, s). ((), s)) (dependency_update d a s)"
| "sets_step P SetsSync s = map_option (\<lambda>(_, s). ((), s)) (sync_dependencies P s)"

text \<open>\<open>block\<close> asserts that it is not called for the zero account.\<close>

fun sets_allowed :: "sets_op \<Rightarrow> bool" where
  "sets_allowed (SetsBlock a _) \<longleftrightarrow> a \<noteq> 0"
| "sets_allowed _ \<longleftrightarrow> True"

lemma timestamp_config [simp]:
  "as_config (timestamp_set a now s) = as_config s" "as_config (timestamp_reset a s) = as_config s"
  by (simp_all add: timestamp_set_def timestamp_reset_def)

interpretation sets_trace: simulation "\<lambda>s. prio_ops_ok P \<and> sets_inv P s" as_config sets_allowed "sets_step P"
  "\<lambda>c _ _ c'. c' = c" for P :: "'p::linorder prio_ops"
proof
  fix s :: "'p account_sets" and op
  assume s: "prio_ops_ok P \<and> sets_inv P s" and op: "sets_allowed op"
  note spec = priority_up_spec [of P s] priority_down_spec [of P s] priority_set_spec [of P s]
    sets_block_spec [of P s] sets_unblock_spec [of P s] timestamp_inv [of P s]
    dependency_update_spec [of P s] sync_dependencies_spec [of P s]
  show "\<exists>out s'. sets_step P op s = Some (out, s') \<and> (prio_ops_ok P \<and> sets_inv P s') \<and> as_config s' = as_config s"
  proof (cases op)
    case (SetsPriorityUp a)
    then show ?thesis using s spec(1) [of a] by fastforce
  next
    case (SetsPriorityDown a)
    then show ?thesis using s spec(2) [of a] by fastforce
  next
    case (SetsPrioritySet a)
    then show ?thesis using s spec(3) [of a] by fastforce
  next
    case (SetsBlock a dep)
    then show ?thesis using s op spec(4) [of a dep] by fastforce
  next
    case (SetsUnblock a h)
    then show ?thesis using s spec(5) [of a h] by fastforce
  next
    case (SetsTimestampSet a now)
    then show ?thesis using s spec(6) [of a now] by simp
  next
    case (SetsTimestampReset a)
    then show ?thesis using s spec(7) [of a] by simp
  next
    case (SetsDependencyUpdate d a)
    then show ?thesis using s spec(8) [of d a] by fastforce
  next
    case SetsSync
    then show ?thesis using s spec(9) by fastforce
  qed
qed

lemma sets_reachable:
  assumes "prio_ops_ok P" "\<forall>op\<in>set ops. sets_allowed op"
  shows "\<exists>outs s. run_ops (sets_step P) ops (account_sets_new c) = Some (outs, s) \<and> sets_inv P s \<and> as_config s = c"
proof -
  have unchanged: "spec_run (\<lambda>c _ _ c'. c' = c) ops outs a b \<Longrightarrow> b = a" for outs :: "unit list" and a b :: account_sets_config
    by (induction ops arbitrary: outs a) (case_tac outs; simp)+
  show ?thesis
    using sets_trace.run_simulates [of P "account_sets_new c" ops] assms sets_inv_new [of P c] unchanged
    by (fastforce simp: account_sets_new_def)
qed

section \<open>Properties\<close>

text \<open>
  C23. Whatever the bootstrap client does with the account sets, no operation panics, the sets stay
  within their configured sizes, no account is prioritised and blocked at once, the zero account is
  neither, and no account has a priority above the maximum.
\<close>

theorem account_sets_bounded:
  assumes "prio_ops_ok P" and "\<forall>op\<in>set ops. sets_allowed op"
  shows "\<exists>outs s. run_ops (sets_step P) ops (account_sets_new c) = Some (outs, s) \<and>
    prios_len (as_priorities s) \<le> asc_priorities_max c \<and> blocking_len (as_blocking s) \<le> asc_blocking_max c \<and>
    (\<forall>a. \<not> (prioritized s a \<and> blocked s a)) \<and> \<not> prioritized s 0 \<and> \<not> blocked s 0 \<and>
    (\<forall>a. account_priority P s a \<le> po_max P)"
proof -
  obtain outs s where s: "run_ops (sets_step P) ops (account_sets_new c) = Some (outs, s)" "sets_inv P s" "as_config s = c"
    using sets_reachable [OF assms] by blast
  moreover have "account_priority P s a \<le> po_max P" for a
    using s(2) assms(1) by (auto simp: account_priority_def sets_inv_def sets_core_def prio_ops_ok_def split: option.splits)
  ultimately show ?thesis
    unfolding sets_inv_def sets_core_def by metis
qed

text \<open>
  C28. The account to request next is, among the prioritised accounts that are off their cooldown and
  pass the filter, one of the highest priority; the answer is the zero account exactly if there is
  no such account.
\<close>

theorem next_priority_is_highest:
  assumes "prio_ops_ok P" and "\<forall>op\<in>set ops. sets_allowed op"
    and "run_ops (sets_step P) ops (account_sets_new c) = Some (outs, s)"
  shows "\<exists>a. sets_next_priority now flt s = Some a \<and>
    (let cutoff = now - int (asc_cooldown c); es = fmlookup (op_by_account (as_priorities s)) in
     if a = 0 then \<forall>b e. es b = Some e \<longrightarrow> \<not> eligible cutoff flt e
     else \<exists>e. es a = Some e \<and> eligible cutoff flt e \<and>
       (\<forall>b e'. es b = Some e' \<longrightarrow> eligible cutoff flt e' \<longrightarrow> pe_priority e' \<le> pe_priority e))"
proof -
  have "sets_inv P s" "as_config s = c"
    using sets_reachable [OF assms(1,2), of c] assms(3) by auto
  then show ?thesis
    using sets_next_priority_spec [of P s now flt] by simp
qed

text \<open>
  C36. Blocking an account and unblocking it again gives it the priority it had. An account that had
  none comes back with the priority zero and not with the initial priority.
\<close>

theorem block_unblock_restores_priority:
  assumes "prio_ops_ok P" and "sets_inv P s" and "a \<noteq> 0" and "\<not> blocked s a"
    and "0 < asc_blocking_max (as_config s)" and "0 < asc_priorities_max (as_config s)"
  shows "\<exists>s1 s2. sets_block P a dep s = Some s1 \<and> blocked s1 a \<and>
    sets_unblock P a None s1 = Some (True, s2) \<and> \<not> blocked s2 a \<and> prioritized s2 a \<and>
    account_priority P s2 a = account_priority P s a \<and>
    (\<not> prioritized s a \<longrightarrow> account_priority P s2 a = po_zero P)"
proof -
  have "account_priority P s a = po_zero P" if "\<not> prioritized s a"
    using that assms(4) by (auto simp: account_priority_def prioritized_def prios_contains_def blocked_def blocking_contains_def split: option.splits)
  then show ?thesis
    using block_unblock_priority [OF assms(2,1,3-6), of dep] by metis
qed

text \<open>Natural numbers as priorities satisfy what is assumed of the floating point operations.\<close>

definition nat_prios :: "nat prio_ops" where
  "nat_prios = \<lparr>po_zero = 0, po_initial = 8, po_increase = 8, po_max = 512, po_cutoff = 1,
     po_add = (+), po_halve = (\<lambda>p. p div 2)\<rparr>"

lemma nat_prios_ok: "prio_ops_ok nat_prios"
  by (auto simp: prio_ops_ok_def nat_prios_def)

theorem account_sets_bounded_witness:
  "\<exists>outs s. run_ops (sets_step nat_prios) [SetsPriorityUp 1, SetsBlock 1 7, SetsUnblock 1 None]
      (account_sets_new \<lparr>asc_priorities_max = 2, asc_blocking_max = 2, asc_cooldown = 3\<rparr>) = Some (outs, s) \<and>
     prios_len (as_priorities s) \<le> 2 \<and> \<not> (prioritized s 1 \<and> blocked s 1)"
  using account_sets_bounded [OF nat_prios_ok, of "[SetsPriorityUp 1, SetsBlock 1 7, SetsUnblock 1 None]"
      "\<lparr>asc_priorities_max = 2, asc_blocking_max = 2, asc_cooldown = 3\<rparr>"]
  by (simp del: run_ops.simps) blast

theorem next_priority_is_highest_witness:
  "\<exists>outs s. run_ops (sets_step nat_prios) [SetsPriorityUp 5]
      (account_sets_new \<lparr>asc_priorities_max = 2, asc_blocking_max = 2, asc_cooldown = 3\<rparr>) = Some (outs, s) \<and>
     sets_next_priority 9 (\<lambda>_. True) s = Some 5"
proof -
  let ?c = "\<lparr>asc_priorities_max = 2, asc_blocking_max = 2, asc_cooldown = 3\<rparr>"
  obtain outs s where s: "run_ops (sets_step nat_prios) [SetsPriorityUp 5] (account_sets_new ?c) = Some (outs, s)"
      "fmlookup (op_by_account (as_priorities s)) = [5 \<mapsto> priority_entry_new 5 8]"
    by (simp add: account_sets_new_def priority_up_def blocked_def blocking_contains_def blocking_default_def
        prios_default_def prios_change_priority_def prios_insert_def prios_contains_def nat_prios_def
        trim_overflow_def priority_entry_new_def trim_to.simps prios_len_def blocking_len_def fun_eq_iff)
  have "eligible 6 (\<lambda>_. True) (priority_entry_new 5 (8::nat))"
    by (simp add: eligible_def priority_entry_new_def)
  then have "sets_next_priority 9 (\<lambda>_. True) s = Some 5"
    using next_priority_is_highest [OF nat_prios_ok _ s(1), of 9 "\<lambda>_. True"] s(2) by (auto split: if_splits)
  then show ?thesis
    using s(1) by blast
qed

theorem block_unblock_restores_priority_witness:
  "\<exists>s1 s2. sets_block nat_prios 1 7 (account_sets_new \<lparr>asc_priorities_max = 2, asc_blocking_max = 2, asc_cooldown = 3\<rparr>)
       = Some s1 \<and>
     sets_unblock nat_prios 1 None s1 = Some (True, s2) \<and> prioritized s2 1 \<and> account_priority nat_prios s2 1 = 0"
proof -
  let ?s = "account_sets_new \<lparr>asc_priorities_max = 2, asc_blocking_max = 2, asc_cooldown = 3\<rparr> :: nat account_sets"
  have "\<not> blocked ?s 1" "\<not> prioritized ?s 1" "as_config ?s = \<lparr>asc_priorities_max = 2, asc_blocking_max = 2, asc_cooldown = 3\<rparr>"
    by (simp_all add: account_sets_new_def blocked_def blocking_contains_def blocking_default_def
        prioritized_def prios_contains_def prios_default_def)
  then show ?thesis
    using block_unblock_restores_priority [OF nat_prios_ok sets_inv_new, of 1 "as_config ?s" 7]
    by (auto simp: nat_prios_def)
qed

end
