(* ===== verification/Database_Scan.thy ===== *)
theory Database_Scan
  imports Receivables
begin

text \<open>
  The scan of the ledger for accounts to pull (\<open>node/src/bootstrap/ascending/database_scan.rs\<close>): one
  iterator over the account table and one over the accounts with receivable amounts, both in
  batches that resume where the last one stopped. A cursor is the list of the entries it has yet
  to visit; \<open>inc().unwrap_or_default()\<close> starts again at zero after the largest account.
\<close>

section \<open>Definitions\<close>

record account_iterator =
  ai_next :: account
  ai_completed :: nat

record pending_iterator =
  pi_next :: pending_key
  pi_completed :: nat

record database_scan =
  ds_queue :: "account list"
  ds_accounts :: account_iterator
  ds_pending :: pending_iterator

definition BATCH_SIZE :: nat where
  "BATCH_SIZE = 512"

definition inc_or_zero :: "account \<Rightarrow> account" where
  "inc_or_zero a = unwrap_or (inc a) 0"

fun account_batch :: "nat \<Rightarrow> (account \<times> 'v) list \<Rightarrow> account \<Rightarrow> account list \<times> account \<times> bool" where
  "account_batch n [] nxt = ([], nxt, True)"
| "account_batch 0 (_ # _) nxt = ([], nxt, False)"
| "account_batch (Suc n) ((a, _) # rest) nxt =
     (case account_batch n rest (inc_or_zero a) of (as, nxt', ended) \<Rightarrow> (a # as, nxt', ended))"

definition account_next_batch ::
  "(account, 'v) fmap \<Rightarrow> nat \<Rightarrow> account_iterator \<Rightarrow> account list \<times> account_iterator" where
  "account_next_batch t n it =
     (case account_batch n (entries_from (ai_next it) t) (ai_next it) of
        (as, nxt, ended) \<Rightarrow>
          (as, if ended then \<lparr>ai_next = 0, ai_completed = ai_completed it + 1\<rparr> else it\<lparr>ai_next := nxt\<rparr>))"

definition SEQUENTIAL_ATTEMPTS :: nat where
  "SEQUENTIAL_ATTEMPTS = 10"

text \<open>Up to \<open>n\<close> steps of the cursor past the entries of account \<open>a\<close>.\<close>

fun skip_account :: "nat \<Rightarrow> account \<Rightarrow> (pending_key \<times> 'v) list \<Rightarrow> (pending_key \<times> 'v) list" where
  "skip_account 0 a es = es"
| "skip_account (Suc n) a [] = []"
| "skip_account (Suc n) a ((k, v) # es) = (if receiving_account k \<noteq> a then (k, v) # es else skip_account n a es)"

definition advance_account ::
  "(pending_key, 'v) fmap \<Rightarrow> account \<Rightarrow> (pending_key \<times> 'v) list \<Rightarrow> (pending_key \<times> 'v) list" where
  "advance_account t a es =
     (case skip_account SEQUENTIAL_ATTEMPTS a es of
        [] \<Rightarrow> []
      | (k, v) # rest \<Rightarrow>
          if receiving_account k = a then entries_from (PendingKey (inc_or_zero a) 0) t else (k, v) # rest)"

fun pending_batch ::
  "(pending_key, 'v) fmap \<Rightarrow> nat \<Rightarrow> (pending_key \<times> 'v) list \<Rightarrow> pending_key \<Rightarrow> account list \<times> pending_key \<times> bool" where
  "pending_batch t n [] nxt = ([], nxt, True)"
| "pending_batch t 0 (_ # _) nxt = ([], nxt, False)"
| "pending_batch t (Suc n) ((k, v) # rest) nxt =
     (let a = receiving_account k
      in case pending_batch t n (advance_account t a ((k, v) # rest)) (PendingKey (inc_or_zero a) 0) of
           (as, nxt', ended) \<Rightarrow> (a # as, nxt', ended))"

definition pending_next_batch ::
  "(pending_key, 'v) fmap \<Rightarrow> nat \<Rightarrow> pending_iterator \<Rightarrow> account list \<times> pending_iterator" where
  "pending_next_batch t n it =
     (case pending_batch t n (entries_from (pi_next it) t) (pi_next it) of
        (as, nxt, ended) \<Rightarrow>
          (as, if ended then \<lparr>pi_next = PendingKey 0 0, pi_completed = pi_completed it + 1\<rparr>
               else it\<lparr>pi_next := nxt\<rparr>))"

definition database_scan_new :: database_scan where
  "database_scan_new =
     \<lparr>ds_queue = [], ds_accounts = \<lparr>ai_next = 0, ai_completed = 0\<rparr>,
      ds_pending = \<lparr>pi_next = PendingKey 0 0, pi_completed = 0\<rparr>\<rparr>"

definition database_scan_fill :: "ledger \<Rightarrow> database_scan \<Rightarrow> database_scan" where
  "database_scan_fill l d =
     (case account_next_batch (l_account l) BATCH_SIZE (ds_accounts d) of
        (set1, ai) \<Rightarrow>
          (case pending_next_batch (l_pending l) BATCH_SIZE (ds_pending d) of
             (set2, pit) \<Rightarrow>
               \<lparr>ds_queue = ds_queue d @ set1 @ set2, ds_accounts = ai, ds_pending = pit\<rparr>))"

fun pop_until :: "('a \<Rightarrow> bool) \<Rightarrow> 'a list \<Rightarrow> 'a option \<times> 'a list" where
  "pop_until flt [] = (None, [])"
| "pop_until flt (x # xs) = (if flt x then (Some x, xs) else pop_until flt xs)"

definition database_scan_next :: "ledger \<Rightarrow> (account \<Rightarrow> bool) \<Rightarrow> database_scan \<Rightarrow> account \<times> database_scan" where
  "database_scan_next l flt d =
     (let d = (if ds_queue d = [] then database_scan_fill l d else d)
      in case pop_until flt (ds_queue d) of (r, q) \<Rightarrow> (unwrap_or r 0, d\<lparr>ds_queue := q\<rparr>))"

definition warmed_up :: "database_scan \<Rightarrow> bool" where
  "warmed_up d \<longleftrightarrow> ai_completed (ds_accounts d) > 0 \<and> pi_completed (ds_pending d) > 0"

section \<open>Scanning in batches\<close>

fun repeat_batches :: "('s \<Rightarrow> 'a list \<times> 's) \<Rightarrow> nat \<Rightarrow> 's \<Rightarrow> 'a list \<times> 's" where
  "repeat_batches batch 0 s = ([], s)"
| "repeat_batches batch (Suc r) s =
     (case batch s of (xs, s') \<Rightarrow> (case repeat_batches batch r s' of (ys, s'') \<Rightarrow> (xs @ ys, s'')))"

text \<open>
  What a scan relies on: a batch returns the next items of those that are left, and the one that
  reaches the end counts a completed round.
\<close>

locale batch_scan =
  fixes ok :: "'s \<Rightarrow> bool"
    and len :: nat
    and rest :: "'s \<Rightarrow> 'a list"
    and rounds :: "'s \<Rightarrow> nat"
    and batch :: "'s \<Rightarrow> 'a list \<times> 's"
  assumes len_pos: "0 < len"
    and last_batch: "ok s \<Longrightarrow> length (rest s) \<le> len \<Longrightarrow>
      \<exists>s'. batch s = (rest s, s') \<and> ok s' \<and> rounds s' = rounds s + 1"
    and inner_batch: "ok s \<Longrightarrow> len < length (rest s) \<Longrightarrow>
      \<exists>s'. batch s = (take len (rest s), s') \<and> ok s' \<and> rounds s' = rounds s \<and> rest s' = drop len (rest s)"
begin

lemma scan_round:
  "ok s \<Longrightarrow> \<exists>r s'. repeat_batches batch r s = (rest s, s') \<and> ok s' \<and> rounds s' = rounds s + 1 \<and>
     r \<le> length (rest s) div len + 1"
proof (induction "length (rest s)" arbitrary: s rule: less_induct)
  case less
  show ?case
  proof (cases "length (rest s) \<le> len")
    case True
    with last_batch [OF less.prems] obtain s' where "batch s = (rest s, s')" "ok s'" "rounds s' = rounds s + 1"
      by blast
    then show ?thesis
      by (intro exI [of _ 1] exI [of _ s']) simp
  next
    case False
    then obtain s1 where
      s1: "batch s = (take len (rest s), s1)" "ok s1" "rounds s1 = rounds s" "rest s1 = drop len (rest s)"
      using inner_batch [OF less.prems] by auto
    have "length (rest s1) < length (rest s)"
      using False len_pos by (simp add: s1(4))
    from less.hyps [OF this s1(2)] obtain r s' where
      r: "repeat_batches batch r s1 = (rest s1, s')" "ok s'" "rounds s' = rounds s1 + 1"
        "r \<le> length (rest s1) div len + 1"
      by blast
    have "length (rest s1) div len + 1 = length (rest s) div len"
      using False len_pos by (simp add: s1(4) le_div_geq)
    then show ?thesis
      using s1 r by (intro exI [of _ "Suc r"] exI [of _ s']) auto
  qed
qed

end

section \<open>The account table\<close>

lemma inc_or_zero_iff: "(a::account) \<noteq> - 1 \<Longrightarrow> inc_or_zero a \<le> b \<longleftrightarrow> a < b"
  by (simp add: inc_or_zero_def inc_def inc_less_eq_iff)

lemma entries_from_inc:
  assumes "entries_from k t = (a, v) # rest" "a \<noteq> - 1"
  shows "entries_from (inc_or_zero a) t = rest"
  unfolding entries_from_rest [OF assms(1)] entries_from_filter
  using inc_or_zero_iff [OF assms(2)] by simp

lemma account_batch_spec:
  "account_batch n (entries_from k t) k = (as, nxt, ended) \<Longrightarrow>
   as = map fst (take n (entries_from k t)) \<and> (ended \<longleftrightarrow> length (entries_from k t) \<le> n) \<and>
   (\<not> ended \<longrightarrow> entries_from nxt t = drop n (entries_from k t))"
proof (induction n arbitrary: k "as")
  case 0
  then show ?case
    by (cases "entries_from k t") auto
next
  case (Suc n)
  show ?case
  proof (cases "entries_from k t")
    case Nil
    then show ?thesis
      using Suc.prems by auto
  next
    case (Cons x rest)
    then obtain a v where x: "entries_from k t = (a, v) # rest"
      by (cases x) auto
    obtain bs where b: "account_batch n rest (inc_or_zero a) = (bs, nxt, ended)" "as = a # bs"
      using Suc.prems x by (auto split: prod.splits)
    show ?thesis
    proof (cases "a = - 1")
      case True
      then have "rest = []"
        using entries_from_rest [OF x] by (simp add: word_order.extremum_strict)
      then show ?thesis
        using b x by auto
    next
      case False
      note e = entries_from_inc [OF x False]
      show ?thesis
        using Suc.IH [of "inc_or_zero a", unfolded e, OF b(1)] b(2) x by auto
    qed
  qed
qed

definition account_batch_step ::
  "(account, 'v) fmap \<times> account_iterator \<Rightarrow> account list \<times> (account, 'v) fmap \<times> account_iterator" where
  "account_batch_step s =
     (case account_next_batch (fst s) BATCH_SIZE (snd s) of (as, it) \<Rightarrow> (as, fst s, it))"

interpretation account_scan: batch_scan "\<lambda>_. True" BATCH_SIZE
  "\<lambda>s. map fst (entries_from (ai_next (snd s)) (fst s))" "\<lambda>s. ai_completed (snd s)" account_batch_step
proof
  show "0 < BATCH_SIZE"
    by (simp add: BATCH_SIZE_def)
  fix s :: "(account, 'a) fmap \<times> account_iterator"
  obtain as nxt ended where
    b: "account_batch BATCH_SIZE (entries_from (ai_next (snd s)) (fst s)) (ai_next (snd s)) = (as, nxt, ended)"
    by (metis prod.exhaust)
  note spec = account_batch_spec [OF b]
  show "\<exists>s'. account_batch_step s = (map fst (entries_from (ai_next (snd s)) (fst s)), s') \<and> True \<and>
      ai_completed (snd s') = ai_completed (snd s) + 1"
    if "length (map fst (entries_from (ai_next (snd s)) (fst s))) \<le> BATCH_SIZE"
    using spec that by (simp add: account_batch_step_def account_next_batch_def b)
  show "\<exists>s'. account_batch_step s = (take BATCH_SIZE (map fst (entries_from (ai_next (snd s)) (fst s))), s') \<and> True \<and>
      ai_completed (snd s') = ai_completed (snd s) \<and>
      map fst (entries_from (ai_next (snd s')) (fst s')) =
        drop BATCH_SIZE (map fst (entries_from (ai_next (snd s)) (fst s)))"
    if "BATCH_SIZE < length (map fst (entries_from (ai_next (snd s)) (fst s)))"
    using spec that by (simp add: account_batch_step_def account_next_batch_def b take_map drop_map)
qed


section \<open>The accounts with receivable amounts\<close>

definition recv :: "pending_key \<times> 'v \<Rightarrow> account" where
  "recv e = receiving_account (fst e)"

lemma skip_account_drop:
  "skip_account n a es = drop (min n (length (takeWhile (\<lambda>e. recv e = a) es))) es"
  by (induction n a es rule: skip_account.induct) (auto simp: recv_def)

lemma advance_account_recv:
  "advance_account t a es =
     (case skip_account SEQUENTIAL_ATTEMPTS a es of
        [] \<Rightarrow> []
      | e # rest \<Rightarrow> if recv e = a then entries_from (PendingKey (inc_or_zero a) 0) t else e # rest)"
  by (auto simp: advance_account_def recv_def split: list.splits)

lemma pending_le_iff: "PendingKey a 0 \<le> k \<longleftrightarrow> a \<le> receiving_account k"
  by (cases k) auto

lemma sorted_recv: "sorted (map recv (entries_from k t))"
proof -
  have "mono_on A receiving_account" for A
  proof (rule mono_onI)
    show "receiving_account x \<le> receiving_account y" if "x \<le> y" for x y
      using that by (cases x; cases y) (auto split: if_splits)
  qed
  then have "sorted (map receiving_account (map fst (entries_from k t)))"
    by (intro sorted_map_mono sorted_entries_from)
  then show ?thesis
    by (simp add: recv_def [abs_def] comp_def)
qed

lemma entries_from_recv: "entries_from (PendingKey b 0) t = filter (\<lambda>x. b \<le> recv x) (sorted_list_of_fmap t)"
  by (simp add: entries_from_filter pending_le_iff recv_def case_prod_unfold)

lemma recv_from: "e \<in> set (entries_from (PendingKey b 0) t) \<Longrightarrow> b \<le> recv e"
  by (simp add: entries_from_recv)

lemma entries_after:
  assumes "b \<le> a" "a \<noteq> - 1"
  shows "entries_from (PendingKey (inc_or_zero a) 0) t = filter (\<lambda>x. a < recv x) (entries_from (PendingKey b 0) t)"
  unfolding entries_from_recv filter_filter inc_or_zero_iff [OF assms(2)]
  using assms(1) by (intro filter_cong) auto

lemma length_takeWhile_filter: "length (takeWhile P xs) \<le> length (filter P xs)"
  by (induction xs) auto

text \<open>The bound on the entries of the largest account under which the cursor moves on past it.\<close>

definition last_account_ok :: "(pending_key, 'v) fmap \<Rightarrow> bool" where
  "last_account_ok t \<longleftrightarrow> length (filter (\<lambda>e. recv e = - 1) (sorted_list_of_fmap t)) \<le> SEQUENTIAL_ATTEMPTS"

lemma advance_account_spec:
  assumes "entries_from (PendingKey b 0) t = e # rest" "recv e = a" "a = - 1 \<longrightarrow> last_account_ok t"
  shows "advance_account t a (e # rest) = filter (\<lambda>x. a < recv x) (e # rest)"
proof -
  let ?es = "e # rest" and ?P = "\<lambda>x. recv x = a"
  have s: "sorted (map recv ?es)"
    using sorted_recv [of "PendingKey b 0" t] by (simp only: assms(1))
  have d: "dropWhile ?P ?es = filter (\<lambda>x. a < recv x) ?es"
    by (rule dropWhile_eq_filter [OF s]) (use s assms(2) in auto)
  let ?n = "length (takeWhile ?P ?es)"
  show ?thesis
  proof (cases "?n \<le> SEQUENTIAL_ATTEMPTS")
    case True
    then have "skip_account SEQUENTIAL_ATTEMPTS a ?es = dropWhile ?P ?es"
      by (simp add: skip_account_drop dropWhile_eq_drop)
    moreover have "\<not> ?P (hd (dropWhile ?P ?es))" if "dropWhile ?P ?es \<noteq> []"
      using hd_dropWhile [OF that] .
    ultimately have "advance_account t a ?es = dropWhile ?P ?es"
      unfolding advance_account_recv by (cases "dropWhile ?P ?es") simp_all
    then show ?thesis
      by (simp only: d)
  next
    case False
    let ?m = SEQUENTIAL_ATTEMPTS
    have l: "?m < length ?es"
      using False length_takeWhile_le [of ?P ?es] by linarith
    have n: "?m < ?n"
      using False by (simp only: not_le)
    have h: "recv (?es ! ?m) = a"
      using nth_mem [OF n] takeWhile_nth [OF n] set_takeWhileD by metis
    have "min ?m ?n = ?m"
      using n by (rule min_absorb1 [OF less_imp_le])
    then have k: "skip_account ?m a ?es = ?es ! ?m # drop (Suc ?m) ?es"
      unfolding skip_account_drop Cons_nth_drop_Suc [OF l] by (simp only:)
    have "a \<noteq> - 1"
    proof
      assume a: "a = - 1"
      have "?n \<le> length (filter ?P ?es)"
        by (rule length_takeWhile_filter)
      also have "\<dots> \<le> length (filter ?P (sorted_list_of_fmap t))"
        unfolding assms(1) [symmetric] entries_from_recv
        using length_filter_le [of "\<lambda>x. b \<le> recv x" "filter ?P (sorted_list_of_fmap t)"]
        by (simp add: conj_commute)
      finally show False
        using assms(3) False a by (simp add: last_account_ok_def)
    qed
    moreover have "b \<le> a"
      using recv_from [of e b t] assms(1,2) by simp
    ultimately have "entries_from (PendingKey (inc_or_zero a) 0) t = filter (\<lambda>x. a < recv x) ?es"
      using entries_after [of b a t] assms(1) by simp
    then show ?thesis
      unfolding advance_account_recv k by (simp only: list.case h refl if_True)
  qed
qed


definition pending_accounts :: "(pending_key \<times> 'v) list \<Rightarrow> account list" where
  "pending_accounts es = remdups_adj (map recv es)"

lemma pending_accounts_Cons:
  assumes "entries_from (PendingKey b 0) t = e # rest"
  shows "pending_accounts (e # rest) = recv e # pending_accounts (filter (\<lambda>x. recv e < recv x) (e # rest))"
proof -
  have s: "sorted (map recv (e # rest))"
    using sorted_recv [of "PendingKey b 0" t] by (simp only: assms)
  have "dropWhile (\<lambda>x. recv x = recv e) rest = filter (\<lambda>x. recv e < recv x) rest"
    by (rule dropWhile_eq_filter) (use s in auto)
  then show ?thesis
    by (simp add: pending_accounts_def remdups_adj_Cons' dropWhile_map comp_def)
qed

lemma pending_batch_spec:
  "last_account_ok t \<Longrightarrow>
   pending_batch t n (entries_from (PendingKey b 0) t) (PendingKey b 0) = (as, nxt, ended) \<Longrightarrow>
   as = take n (pending_accounts (entries_from (PendingKey b 0) t)) \<and>
   (ended \<longleftrightarrow> length (pending_accounts (entries_from (PendingKey b 0) t)) \<le> n) \<and>
   (\<not> ended \<longrightarrow> (\<exists>c. nxt = PendingKey c 0 \<and>
      pending_accounts (entries_from nxt t) = drop n (pending_accounts (entries_from (PendingKey b 0) t))))"
proof (induction n arbitrary: b "as")
  case 0
  then show ?case
    by (cases "entries_from (PendingKey b 0) t") (auto simp: pending_accounts_def)
next
  case (Suc n)
  show ?case
  proof (cases "entries_from (PendingKey b 0) t")
    case Nil
    then show ?thesis
      using Suc.prems by (simp add: pending_accounts_def)
  next
    case (Cons e rest)
    let ?after = "filter (\<lambda>x. recv e < recv x) (e # rest)" and ?k = "PendingKey (inc_or_zero (recv e)) 0"
    note adv = advance_account_spec [OF Cons refl impI, OF Suc.prems(1)]
    note acc = pending_accounts_Cons [OF Cons]
    obtain k v where e: "e = (k, v)"
      by (cases e)
    have r: "receiving_account k = recv e"
      by (simp add: recv_def e)
    obtain bs where b: "pending_batch t n ?after ?k = (bs, nxt, ended)" "as = recv e # bs"
      using Suc.prems(2) unfolding Cons e pending_batch.simps r Let_def
      using adv unfolding e by (auto split: prod.splits)
    show ?thesis
    proof (cases "recv e = - 1")
      case True
      then have "?after = []"
        by (simp add: word_order.extremum_strict)
      then have "bs = []" "ended"
        using b(1) by simp_all
      then show ?thesis
        using b(2) acc \<open>?after = []\<close> unfolding Cons by (simp add: pending_accounts_def)
    next
      case False
      have "b \<le> recv e"
        using recv_from [of e b t] Cons by simp
      note after = entries_after [OF this False, of t, unfolded Cons, symmetric]
      show ?thesis
        using Suc.IH [OF Suc.prems(1) b(1) [unfolded after]] b(2) acc unfolding Cons after by auto
    qed
  qed
qed

definition pending_batch_step ::
  "(pending_key, 'v) fmap \<times> pending_iterator \<Rightarrow> account list \<times> (pending_key, 'v) fmap \<times> pending_iterator" where
  "pending_batch_step s =
     (case pending_next_batch (fst s) BATCH_SIZE (snd s) of (as, it) \<Rightarrow> (as, fst s, it))"

definition pending_iterator_ok :: "(pending_key, 'v) fmap \<times> pending_iterator \<Rightarrow> bool" where
  "pending_iterator_ok s \<longleftrightarrow> last_account_ok (fst s) \<and> send_block_hash (pi_next (snd s)) = 0"

interpretation pending_scan: batch_scan pending_iterator_ok BATCH_SIZE
  "\<lambda>s. pending_accounts (entries_from (pi_next (snd s)) (fst s))" "\<lambda>s. pi_completed (snd s)" pending_batch_step
proof
  show "0 < BATCH_SIZE"
    by (simp add: BATCH_SIZE_def)
  fix s :: "(pending_key, 'a) fmap \<times> pending_iterator"
  assume ok: "pending_iterator_ok s"
  then obtain b where k: "pi_next (snd s) = PendingKey b 0"
    by (cases "pi_next (snd s)") (simp add: pending_iterator_ok_def)
  obtain as nxt ended where
    b: "pending_batch (fst s) BATCH_SIZE (entries_from (PendingKey b 0) (fst s)) (PendingKey b 0) = (as, nxt, ended)"
    by (metis prod.exhaust)
  have l: "last_account_ok (fst s)"
    using ok by (simp add: pending_iterator_ok_def)
  note spec = pending_batch_spec [OF l b]
  show "\<exists>s'. pending_batch_step s = (pending_accounts (entries_from (pi_next (snd s)) (fst s)), s') \<and>
      pending_iterator_ok s' \<and> pi_completed (snd s') = pi_completed (snd s) + 1"
    if "length (pending_accounts (entries_from (pi_next (snd s)) (fst s))) \<le> BATCH_SIZE"
    using spec that l by (simp add: pending_batch_step_def pending_next_batch_def b k pending_iterator_ok_def)
  show "\<exists>s'. pending_batch_step s = (take BATCH_SIZE (pending_accounts (entries_from (pi_next (snd s)) (fst s))), s') \<and>
      pending_iterator_ok s' \<and> pi_completed (snd s') = pi_completed (snd s) \<and>
      pending_accounts (entries_from (pi_next (snd s')) (fst s')) =
        drop BATCH_SIZE (pending_accounts (entries_from (pi_next (snd s)) (fst s)))"
    if "BATCH_SIZE < length (pending_accounts (entries_from (pi_next (snd s)) (fst s)))"
    using spec that l by (auto simp: pending_batch_step_def pending_next_batch_def b k pending_iterator_ok_def)
qed


text \<open>
  With more receivable entries for the largest account than there are sequential attempts, the
  fresh lookup after that account starts at the beginning of the table: the scan never reaches
  its end and no round is ever completed.
\<close>

lemma advance_last_account:
  assumes "\<not> last_account_ok t" "entries_from (PendingKey b 0) t = e # rest" "recv e = - 1"
  shows "advance_account t (- 1) (e # rest) = entries_from (PendingKey 0 0) t"
proof -
  let ?m = SEQUENTIAL_ATTEMPTS and ?es = "e # rest"
  have all: "recv x = - 1" if "x \<in> set ?es" for x
    using sorted_recv [of "PendingKey b 0" t] that
    by (auto simp: assms(2,3) word_order.extremum_unique)
  have "filter (\<lambda>e. recv e = - 1) (sorted_list_of_fmap t) = filter (\<lambda>e. recv e = - 1) ?es"
    unfolding assms(2) [symmetric] entries_from_recv filter_filter by (intro filter_cong) auto
  also have "\<dots> = ?es"
    using all unfolding filter_id_conv by blast
  finally have l: "?m < length ?es"
    using assms(1) by (simp add: last_account_ok_def)
  have "takeWhile (\<lambda>e. recv e = - 1) ?es = ?es"
    using all unfolding takeWhile_eq_all_conv by blast
  then have "skip_account ?m (- 1) ?es = drop ?m ?es"
    unfolding skip_account_drop using l by (simp only: min_absorb1 [OF less_imp_le])
  also have "\<dots> = ?es ! ?m # drop (Suc ?m) ?es"
    by (rule Cons_nth_drop_Suc [OF l, symmetric])
  finally have k: "skip_account ?m (- 1) ?es = ?es ! ?m # drop (Suc ?m) ?es" .
  have "recv (?es ! ?m) = - 1"
    by (rule all [OF nth_mem [OF l]])
  then show ?thesis
    unfolding advance_account_recv k by (simp only: list.case refl if_True inc_or_zero_def inc_def unwrap_or_simps)
qed

lemma entries_from_nonempty:
  assumes "\<not> last_account_ok t"
  shows "entries_from (PendingKey b 0) t \<noteq> []"
proof -
  have "filter (\<lambda>e. recv e = - 1) (sorted_list_of_fmap t) \<noteq> []"
    using assms by (auto simp: last_account_ok_def)
  then obtain x where "x \<in> set (sorted_list_of_fmap t)" "recv x = - 1"
    by (auto simp: filter_empty_conv)
  then show ?thesis
    by (auto simp: entries_from_recv filter_empty_conv intro!: bexI [of _ x])
qed

lemma pending_batch_endless:
  "\<not> last_account_ok t \<Longrightarrow> pending_batch t n (entries_from (PendingKey b 0) t) nxt = (as, nxt', ended) \<Longrightarrow>
   \<not> ended \<and> length as = n \<and> (send_block_hash nxt = 0 \<longrightarrow> send_block_hash nxt' = 0)"
proof (induction n arbitrary: b nxt "as")
  case (0 b nxt "as")
  show ?case
    using 0(2) entries_from_nonempty [OF 0(1), of b] by (cases "entries_from (PendingKey b 0) t") auto
next
  case (Suc n)
  obtain e rest where Cons: "entries_from (PendingKey b 0) t = e # rest"
    using entries_from_nonempty [OF Suc.prems(1), of b] by (cases "entries_from (PendingKey b 0) t") auto
  let ?k = "PendingKey (inc_or_zero (recv e)) 0"
  obtain k v where e: "e = (k, v)"
    by (cases e)
  have r: "receiving_account k = recv e"
    by (simp add: recv_def e)
  obtain c where adv: "advance_account t (recv e) (e # rest) = entries_from (PendingKey c 0) t"
  proof (cases "recv e = - 1")
    case True
    then show ?thesis
      using that advance_last_account [OF Suc.prems(1) Cons] by metis
  next
    case False
    have "b \<le> recv e"
      using recv_from [of e b t] Cons by simp
    then show ?thesis
      using that advance_account_spec [OF Cons refl] False entries_after [of b "recv e" t] Cons by metis
  qed
  obtain bs where b: "pending_batch t n (entries_from (PendingKey c 0) t) ?k = (bs, nxt', ended)" "as = recv e # bs"
    using Suc.prems(2) unfolding Cons e pending_batch.simps r Let_def
    using adv unfolding e by (auto split: prod.splits)
  show ?case
    using Suc.IH [OF Suc.prems(1) b(1)] b(2) by simp
qed

lemma pending_scan_endless:
  "\<not> last_account_ok t \<Longrightarrow> send_block_hash (pi_next it) = 0 \<Longrightarrow>
   repeat_batches pending_batch_step r (t, it) = (xs, s') \<Longrightarrow>
   length xs = r * BATCH_SIZE \<and> pi_completed (snd s') = pi_completed it"
proof (induction r arbitrary: it xs)
  case (Suc r)
  from Suc.prems(2) obtain b where k: "pi_next it = PendingKey b 0"
    by (cases "pi_next it") simp
  obtain as nxt ended where
    b: "pending_batch t BATCH_SIZE (entries_from (PendingKey b 0) t) (PendingKey b 0) = (as, nxt, ended)"
    by (metis prod.exhaust)
  from pending_batch_endless [OF Suc.prems(1) b]
  have e: "\<not> ended" "length as = BATCH_SIZE" "send_block_hash nxt = 0"
    by simp_all
  then have s: "pending_batch_step (t, it) = (as, t, it\<lparr>pi_next := nxt\<rparr>)"
    using b by (simp add: pending_batch_step_def pending_next_batch_def k)
  obtain ys where ys: "repeat_batches pending_batch_step r (t, it\<lparr>pi_next := nxt\<rparr>) = (ys, s')" "xs = as @ ys"
    using Suc.prems(3) by (auto simp: s split: prod.splits)
  show ?case
    using Suc.IH [OF Suc.prems(1) _ ys(1)] e(2,3) ys(2) by simp
qed auto

text \<open>Each call of \<open>next\<close> gives an account that passes the filter, or zero when the queue ran out.\<close>

lemma pop_until_spec:
  "pop_until flt xs = (r, ys) \<Longrightarrow>
   (case r of None \<Rightarrow> ys = [] \<and> (\<forall>x\<in>set xs. \<not> flt x)
    | Some x \<Rightarrow> flt x \<and> (\<exists>us. xs = us @ x # ys \<and> (\<forall>u\<in>set us. \<not> flt u)))"
proof (induction xs)
  case (Cons x xs)
  show ?case
  proof (cases "flt x")
    case True
    then show ?thesis
      using Cons.prems by (auto intro!: exI [of _ "[]"])
  next
    case False
    have "\<exists>us. x # xs = us @ z # ys \<and> (\<forall>u\<in>set us. \<not> flt u)"
      if "xs = vs @ z # ys" "\<forall>u\<in>set vs. \<not> flt u" for z vs
      using that False by (intro exI [of _ "x # vs"]) simp
    then show ?thesis
      using Cons False by (auto split: option.splits)
  qed
qed auto

section \<open>Properties\<close>

lemma entries_from_zero: "entries_from (0::account) t = sorted_list_of_fmap t"
  by (simp add: entries_from_filter case_prod_unfold)

lemma pending_from_zero: "entries_from (PendingKey 0 0) t = sorted_list_of_fmap t"
  by (simp add: entries_from_recv)

lemma sorted_list_of_fmap_concrete:
  assumes "sorted (map fst xs)" "distinct (map fst xs)"
  shows "sorted_list_of_fmap (fmap_of_list xs) = xs"
  by (rule sorted_list_of_fmap_unique [OF assms]) (simp add: fmlookup_of_list map_of_eq_Some_iff assms(2))

lemma distinct_remdups_adj_sorted: "sorted (xs :: 'k::linorder list) \<Longrightarrow> distinct (remdups_adj xs)"
  by (induction xs rule: remdups_adj.induct) auto

lemma repeat_account_table: "fst (snd (repeat_batches account_batch_step r s)) = fst s"
  by (induction r arbitrary: s) (simp_all add: account_batch_step_def case_prod_unfold)

lemma set_pending_accounts: "set (pending_accounts (sorted_list_of_fmap t)) = {a. \<exists>h. fmlookup t (PendingKey a h) \<noteq> None}"
proof -
  have "a \<in> recv ` set (sorted_list_of_fmap t) \<longleftrightarrow> (\<exists>h. fmlookup t (PendingKey a h) \<noteq> None)" for a
  proof
    assume "a \<in> recv ` set (sorted_list_of_fmap t)"
    then obtain k v where "fmlookup t k = Some v" "receiving_account k = a"
      by (auto simp: recv_def set_sorted_list_of_fmap)
    then show "\<exists>h. fmlookup t (PendingKey a h) \<noteq> None"
      by (cases k) auto
  next
    assume "\<exists>h. fmlookup t (PendingKey a h) \<noteq> None"
    then obtain h v where "(PendingKey a h, v) \<in> set (sorted_list_of_fmap t)"
      by (auto simp: set_sorted_list_of_fmap)
    then show "a \<in> recv ` set (sorted_list_of_fmap t)"
      by (rule rev_image_eqI) (simp add: recv_def)
  qed
  then show ?thesis
    by (simp only: pending_accounts_def remdups_adj_set set_map set_eq_iff mem_Collect_eq) simp
qed

text \<open>
  C29. The scan of the account table is complete: from its start, a number of batches bounded by the
  size of the table returns every account exactly once, in order, and counts one completed round.
\<close>

theorem account_scan_visits_all:
  "\<exists>r it. repeat_batches account_batch_step r (t, \<lparr>ai_next = 0, ai_completed = 0\<rparr>)
       = (map fst (sorted_list_of_fmap t), t, it) \<and>
     ai_completed it = 1 \<and> r \<le> length (sorted_list_of_fmap t) div BATCH_SIZE + 1"
proof -
  let ?s = "(t, \<lparr>ai_next = 0, ai_completed = 0\<rparr>)"
  obtain r t' it where "repeat_batches account_batch_step r ?s = (map fst (sorted_list_of_fmap t), t', it)"
      "ai_completed it = 1" "r \<le> length (sorted_list_of_fmap t) div BATCH_SIZE + 1"
    using account_scan.scan_round [of ?s] by (auto simp: entries_from_zero)
  moreover have "t' = t"
    using repeat_account_table [of r ?s] calculation(1) by simp
  ultimately show ?thesis
    by blast
qed

text \<open>
  C30. The scan of the receivable table is complete as long as the largest account has at most as
  many receivable entries as the scan steps over one by one: from its start, a bounded number of
  batches returns every account that has something to receive exactly once and counts one round.
\<close>

theorem pending_scan_visits_all:
  assumes "last_account_ok t"
  shows "\<exists>r xs s. repeat_batches pending_batch_step r (t, \<lparr>pi_next = PendingKey 0 0, pi_completed = 0\<rparr>) = (xs, s) \<and>
    set xs = {a. \<exists>h. fmlookup t (PendingKey a h) \<noteq> None} \<and> distinct xs \<and> pi_completed (snd s) = 1 \<and>
    r \<le> length (sorted_list_of_fmap t) div BATCH_SIZE + 1"
proof -
  let ?s = "(t, \<lparr>pi_next = PendingKey 0 0, pi_completed = 0\<rparr>)" and ?as = "pending_accounts (sorted_list_of_fmap t)"
  obtain r s where r: "repeat_batches pending_batch_step r ?s = (?as, s)" "pi_completed (snd s) = 1"
      "r \<le> length ?as div BATCH_SIZE + 1"
    using pending_scan.scan_round [of ?s] assms by (auto simp: pending_from_zero pending_iterator_ok_def)
  have "length ?as \<le> length (sorted_list_of_fmap t)"
    using remdups_adj_length [of "map recv (sorted_list_of_fmap t)"] by (simp add: pending_accounts_def)
  then have "r \<le> length (sorted_list_of_fmap t) div BATCH_SIZE + 1"
    using r(3) div_le_mono [of "length ?as" _ BATCH_SIZE] by fastforce
  moreover have "distinct ?as"
    using sorted_recv [of "PendingKey 0 0" t]
    by (simp add: pending_from_zero pending_accounts_def distinct_remdups_adj_sorted)
  ultimately show ?thesis
    using r(1,2) set_pending_accounts [of t] by blast
qed

theorem pending_scan_visits_all_witness:
  "\<exists>r xs s. repeat_batches pending_batch_step r
      (fmap_of_list [(PendingKey 1 5, ()), (PendingKey 1 6, ()), (PendingKey 3 2, ())],
       \<lparr>pi_next = PendingKey 0 0, pi_completed = 0\<rparr>) = (xs, s) \<and>
     set xs = {1, 3} \<and> distinct xs \<and> pi_completed (snd s) = 1"
proof -
  let ?es = "[(PendingKey 1 5, ()), (PendingKey 1 6, ()), (PendingKey 3 2, ())]"
  have "sorted_list_of_fmap (fmap_of_list ?es) = ?es"
    by (rule sorted_list_of_fmap_concrete) simp_all
  then have ok: "last_account_ok (fmap_of_list ?es)"
    by (simp add: last_account_ok_def recv_def SEQUENTIAL_ATTEMPTS_def)
  have eq: "{a. \<exists>h. fmlookup (fmap_of_list ?es) (PendingKey a h) \<noteq> None} = {1, 3}"
    unfolding fmlookup_of_list map_of_eq_None_iff by auto
  show ?thesis
    using pending_scan_visits_all [OF ok] unfolding eq by blast
qed

text \<open>
  C39. With more receivable entries for the largest account than that, no number of batches completes
  a round: every batch is full and the counter of completed rounds stays where it was.
\<close>

theorem pending_scan_never_completes:
  assumes "\<not> last_account_ok t"
    and "repeat_batches pending_batch_step r (t, \<lparr>pi_next = PendingKey 0 0, pi_completed = 0\<rparr>) = (xs, s)"
  shows "length xs = r * BATCH_SIZE \<and> pi_completed (snd s) = 0"
  using pending_scan_endless [OF assms(1) _ assms(2)] by simp

theorem pending_scan_never_completes_witness:
  "\<exists>xs s. repeat_batches pending_batch_step 3
      (fmap_of_list (map (\<lambda>h. (PendingKey (- 1) h, ())) [1, 2, 3, 4, 5, 6, 7, 8, 9, 10, 11]),
       \<lparr>pi_next = PendingKey 0 0, pi_completed = 0\<rparr>) = (xs, s) \<and>
     length xs = 3 * BATCH_SIZE \<and> pi_completed (snd s) = 0"
proof -
  let ?es = "map (\<lambda>h. (PendingKey (- 1) h, ())) [1, 2, 3, 4, 5, 6, 7, 8, 9, 10, 11]"
  have "sorted_list_of_fmap (fmap_of_list ?es) = ?es"
    by (rule sorted_list_of_fmap_concrete) simp_all
  then have "\<not> last_account_ok (fmap_of_list ?es)"
    by (simp add: last_account_ok_def recv_def SEQUENTIAL_ATTEMPTS_def)
  from pending_scan_never_completes [OF this, of 3] show ?thesis
    by (metis prod.exhaust)
qed

end
