(* ===== verification/Peer_Scoring.thy ===== *)
theory Peer_Scoring
  imports Traces Indexes
begin

text \<open>
  The score of the peers the bootstrapper asks (\<open>node/src/bootstrap/ascending/peer_scoring.rs\<close>):
  the number of outstanding requests per channel, indexed by that number. What a channel reports
  about itself (whether it still exists and is alive, whether its queues are full, its protocol
  version) is a function of the channel identifier, given to the operations that ask for it. The
  order in which a hash map lists its keys is a parameter as well.
\<close>

section \<open>Definitions\<close>

type_synonym channel_id = nat

record peer_score =
  sc_channel_id :: channel_id
  sc_outstanding :: nat
  sc_request_count_total :: nat
  sc_response_count_total :: nat

record scoring =
  sg_by_channel :: "(channel_id, peer_score) fmap"
  sg_by_outstanding :: "(nat, channel_id) index"

definition scoring_default :: scoring where
  "scoring_default = \<lparr>sg_by_channel = fmempty, sg_by_outstanding = fmempty\<rparr>"

definition peer_score_new :: "channel_id \<Rightarrow> peer_score" where
  "peer_score_new c =
     \<lparr>sc_channel_id = c, sc_outstanding = 1, sc_request_count_total = 1, sc_response_count_total = 0\<rparr>"

definition score_decay :: "peer_score \<Rightarrow> peer_score" where
  "score_decay p = (if sc_outstanding p > 0 then p\<lparr>sc_outstanding := sc_outstanding p - 1\<rparr> else p)"

definition scoring_insert :: "peer_score \<Rightarrow> scoring \<Rightarrow> scoring option" where
  "scoring_insert p g =
     (let old = fmlookup (sg_by_channel g) (sc_channel_id p);
          by_channel = fmupd (sc_channel_id p) p (sg_by_channel g)
      in map_option
           (\<lambda>ix. \<lparr>sg_by_channel = by_channel,
                  sg_by_outstanding = idx_push (sc_outstanding p) (sc_channel_id p) ix\<rparr>)
           (case old of
              None \<Rightarrow> Some (sg_by_outstanding g)
            | Some q \<Rightarrow> idx_remove (sc_outstanding q) (sc_channel_id q) (sg_by_outstanding g)))"

definition scoring_modify :: "channel_id \<Rightarrow> (peer_score \<Rightarrow> peer_score) \<Rightarrow> scoring \<Rightarrow> scoring option" where
  "scoring_modify c f g =
     (case fmlookup (sg_by_channel g) c of
        None \<Rightarrow> Some g
      | Some p \<Rightarrow>
          (let g' = g\<lparr>sg_by_channel := fmupd c (f p) (sg_by_channel g)\<rparr>
           in if sc_outstanding (f p) \<noteq> sc_outstanding p
              then map_option (\<lambda>ix. g'\<lparr>sg_by_outstanding := idx_push (sc_outstanding (f p)) c ix\<rparr>)
                     (idx_remove (sc_outstanding p) c (sg_by_outstanding g'))
              else Some g'))"

fun scoring_modify_each :: "channel_id list \<Rightarrow> (peer_score \<Rightarrow> peer_score) \<Rightarrow> scoring \<Rightarrow> scoring option" where
  "scoring_modify_each [] f g = Some g"
| "scoring_modify_each (c # cs) f g = Option.bind (scoring_modify c f g) (scoring_modify_each cs f)"

definition scoring_remove :: "channel_id \<Rightarrow> scoring \<Rightarrow> scoring option" where
  "scoring_remove c g =
     (case fmlookup (sg_by_channel g) c of
        None \<Rightarrow> Some g
      | Some p \<Rightarrow>
          map_option (\<lambda>ix. \<lparr>sg_by_channel = fmdrop c (sg_by_channel g), sg_by_outstanding = ix\<rparr>)
            (idx_remove (sc_outstanding p) c (sg_by_outstanding g)))"

fun scoring_remove_each :: "channel_id list \<Rightarrow> scoring \<Rightarrow> scoring option" where
  "scoring_remove_each [] g = Some g"
| "scoring_remove_each (c # cs) g = Option.bind (scoring_remove c g) (scoring_remove_each cs)"

definition scoring_retain :: "channel_id list \<Rightarrow> (channel_id \<Rightarrow> bool) \<Rightarrow> scoring \<Rightarrow> scoring option" where
  "scoring_retain keys ok g = scoring_remove_each (filter (\<lambda>c. \<not> ok c) keys) g"

definition received_message :: "channel_id \<Rightarrow> scoring \<Rightarrow> scoring option" where
  "received_message c g =
     scoring_modify c
       (\<lambda>p. if sc_outstanding p > 1
            then p\<lparr>sc_outstanding := sc_outstanding p - 1,
                   sc_response_count_total := sc_response_count_total p + 1\<rparr>
            else p) g"

definition channels_by_outstanding :: "scoring \<Rightarrow> channel_id list" where
  "channels_by_outstanding g = concat (map snd (sorted_list_of_fmap (sg_by_outstanding g)))"

definition usable :: "(channel_id \<Rightarrow> bool) \<Rightarrow> nat \<Rightarrow> peer_score \<Rightarrow> bool" where
  "usable available channel_limit p \<longleftrightarrow> available (sc_channel_id p) \<and> sc_outstanding p < channel_limit"

definition next_channel :: "(channel_id \<Rightarrow> bool) \<Rightarrow> nat \<Rightarrow> scoring \<Rightarrow> (channel_id option \<times> scoring) option" where
  "next_channel available channel_limit g =
     (case find_entry (fmlookup (sg_by_channel g)) (usable available channel_limit) (channels_by_outstanding g) of
        None \<Rightarrow> None
      | Some None \<Rightarrow> Some (None, g)
      | Some (Some p) \<Rightarrow>
          map_option (\<lambda>g. (Some (sc_channel_id p), g))
            (scoring_modify (sc_channel_id p)
               (\<lambda>p. p\<lparr>sc_outstanding := sc_outstanding p + 1,
                      sc_request_count_total := sc_request_count_total p + 1\<rparr>) g))"

definition scoring_timeout :: "channel_id list \<Rightarrow> channel_id list \<Rightarrow> (channel_id \<Rightarrow> bool) \<Rightarrow> scoring \<Rightarrow> scoring option" where
  "scoring_timeout keys keys' alive g =
     Option.bind (scoring_retain keys alive g) (scoring_modify_each keys' score_decay)"

fun scoring_sync :: "(channel_id \<Rightarrow> bool) \<Rightarrow> channel_id list \<Rightarrow> scoring \<Rightarrow> scoring option" where
  "scoring_sync accepts [] g = Some g"
| "scoring_sync accepts (c # cs) g =
     (if accepts c \<and> fmlookup (sg_by_channel g) c = None
      then Option.bind (scoring_insert (peer_score_new c) g) (scoring_sync accepts cs)
      else scoring_sync accepts cs g)"

section \<open>The invariant\<close>

definition scoring_inv :: "nat \<Rightarrow> scoring \<Rightarrow> bool" where
  "scoring_inv channel_limit g \<longleftrightarrow>
     index_ok sc_outstanding (sg_by_channel g) (sg_by_outstanding g) \<and>
     (\<forall>c p. fmlookup (sg_by_channel g) c = Some p \<longrightarrow>
        sc_channel_id p = c \<and> sc_outstanding p \<le> max 1 channel_limit)"

lemma scoring_inv_default: "scoring_inv n scoring_default"
  by (simp add: scoring_inv_def scoring_default_def)

lemma scoring_modify_spec:
  assumes "scoring_inv n g"
    and "\<And>p. fmlookup (sg_by_channel g) c = Some p \<Longrightarrow> sc_channel_id (f p) = c \<and> sc_outstanding (f p) \<le> max 1 n"
  shows "\<exists>g'. scoring_modify c f g = Some g' \<and> scoring_inv n g' \<and>
    fmlookup (sg_by_channel g') = (\<lambda>d. if d = c then map_option f (fmlookup (sg_by_channel g) c)
      else fmlookup (sg_by_channel g) d)"
proof (cases "fmlookup (sg_by_channel g) c")
  case None
  then show ?thesis
    using assms(1) by (auto simp: scoring_modify_def fun_eq_iff)
next
  case (Some p)
  have ix: "index_ok sc_outstanding (sg_by_channel g) (sg_by_outstanding g)"
    using assms(1) by (simp add: scoring_inv_def)
  obtain ix' where r: "idx_remove (sc_outstanding p) c (sg_by_outstanding g) = Some ix'"
    "index_ok sc_outstanding (fmupd c (f p) (sg_by_channel g)) (idx_push (sc_outstanding (f p)) c ix')"
    using index_ok_move [OF ix Some refl] by blast
  show ?thesis
  proof (cases "sc_outstanding (f p) = sc_outstanding p")
    case True
    then have "index_ok sc_outstanding (fmupd c (f p) (sg_by_channel g)) (sg_by_outstanding g)"
      by (rule index_ok_same_key [OF ix Some])
    then show ?thesis
      using True assms Some by (simp add: scoring_modify_def scoring_inv_def Let_def fun_eq_iff)
  next
    case False
    then show ?thesis
      using r assms Some by (simp add: scoring_modify_def scoring_inv_def Let_def fun_eq_iff)
  qed
qed

lemma scoring_remove_spec:
  assumes "scoring_inv n g"
  shows "\<exists>g'. scoring_remove c g = Some g' \<and> scoring_inv n g' \<and>
    fmlookup (sg_by_channel g') = (fmlookup (sg_by_channel g))(c := None)"
proof (cases "fmlookup (sg_by_channel g) c")
  case None
  then show ?thesis
    using assms by (auto simp: scoring_remove_def fun_eq_iff)
next
  case (Some p)
  have ix: "index_ok sc_outstanding (sg_by_channel g) (sg_by_outstanding g)"
    using assms(1) by (simp add: scoring_inv_def)
  from index_ok_remove [OF ix Some refl] show ?thesis
    using assms by (auto simp: scoring_remove_def Some scoring_inv_def fun_eq_iff)
qed

lemma scoring_modify_each_spec:
  "scoring_inv n g \<Longrightarrow> \<forall>p. sc_channel_id (f p) = sc_channel_id p \<and> sc_outstanding (f p) \<le> sc_outstanding p \<Longrightarrow>
   \<exists>g'. scoring_modify_each cs f g = Some g' \<and> scoring_inv n g' \<and>
     (\<forall>c. fmlookup (sg_by_channel g') c = None \<longleftrightarrow> fmlookup (sg_by_channel g) c = None)"
proof (induction cs arbitrary: g)
  case (Cons c cs)
  have "sc_channel_id (f p) = c \<and> sc_outstanding (f p) \<le> max 1 n" if "fmlookup (sg_by_channel g) c = Some p" for p
    using Cons.prems that by (metis scoring_inv_def order_trans)
  from scoring_modify_spec [of n g c f, OF Cons.prems(1) this] obtain g1 where
    g1: "scoring_modify c f g = Some g1" "scoring_inv n g1"
      "fmlookup (sg_by_channel g1) = (\<lambda>d. if d = c then map_option f (fmlookup (sg_by_channel g) c)
         else fmlookup (sg_by_channel g) d)"
    by blast
  have "fmlookup (sg_by_channel g1) d = None \<longleftrightarrow> fmlookup (sg_by_channel g) d = None" for d
    by (simp add: g1(3))
  with Cons.IH [OF g1(2) Cons.prems(2)] show ?case
    by (simp only: scoring_modify_each.simps g1(1) Option.bind.simps)
qed simp

lemma scoring_remove_each_spec:
  "scoring_inv n g \<Longrightarrow> \<exists>g'. scoring_remove_each cs g = Some g' \<and> scoring_inv n g' \<and>
     fmlookup (sg_by_channel g') = (\<lambda>c. if c \<in> set cs then None else fmlookup (sg_by_channel g) c)"
proof (induction cs arbitrary: g)
  case (Cons c cs)
  from scoring_remove_spec [OF Cons.prems, of c] obtain g1 where
    g1: "scoring_remove c g = Some g1" "scoring_inv n g1"
      "fmlookup (sg_by_channel g1) = (fmlookup (sg_by_channel g))(c := None)"
    by blast
  from Cons.IH [OF g1(2)] show ?case
    using g1(1,3) by (auto simp: fun_eq_iff)
qed auto

lemma scoring_insert_spec:
  assumes "scoring_inv n g" "fmlookup (sg_by_channel g) (sc_channel_id p) = None" "sc_outstanding p \<le> max 1 n"
  shows "\<exists>g'. scoring_insert p g = Some g' \<and> scoring_inv n g' \<and>
    fmlookup (sg_by_channel g') = (fmlookup (sg_by_channel g))(sc_channel_id p \<mapsto> p)"
  using assms index_ok_push [OF _ assms(2), of sc_outstanding]
  by (auto simp: scoring_insert_def scoring_inv_def Let_def fun_eq_iff)

lemma scoring_sync_spec:
  "scoring_inv n g \<Longrightarrow> \<exists>g'. scoring_sync accepts cs g = Some g' \<and> scoring_inv n g' \<and>
     (\<forall>c. fmlookup (sg_by_channel g') c \<noteq> None \<longleftrightarrow>
        fmlookup (sg_by_channel g) c \<noteq> None \<or> c \<in> set cs \<and> accepts c)"
proof (induction cs arbitrary: g)
  case (Cons c cs)
  show ?case
  proof (cases "accepts c \<and> fmlookup (sg_by_channel g) c = None")
    case True
    then obtain g1 where
      g1: "scoring_insert (peer_score_new c) g = Some g1" "scoring_inv n g1"
        "fmlookup (sg_by_channel g1) = (fmlookup (sg_by_channel g))(c \<mapsto> peer_score_new c)"
      using scoring_insert_spec [OF Cons.prems, of "peer_score_new c"] by (auto simp: peer_score_new_def)
    from Cons.IH [OF g1(2)] show ?thesis
      using True g1(1,3) by auto
  next
    case False
    then show ?thesis
      using Cons.IH [OF Cons.prems] by auto
  qed
qed auto

lemma scoring_timeout_spec:
  assumes "scoring_inv n g" "set keys = {c. fmlookup (sg_by_channel g) c \<noteq> None}"
  shows "\<exists>g'. scoring_timeout keys keys' alive g = Some g' \<and> scoring_inv n g' \<and>
    (\<forall>c. fmlookup (sg_by_channel g') c \<noteq> None \<longleftrightarrow> fmlookup (sg_by_channel g) c \<noteq> None \<and> alive c)"
proof -
  from scoring_remove_each_spec [OF assms(1), of "filter (\<lambda>c. \<not> alive c) keys"] obtain g1 where
    g1: "scoring_retain keys alive g = Some g1" "scoring_inv n g1"
      "fmlookup (sg_by_channel g1) = (\<lambda>c. if c \<in> set (filter (\<lambda>c. \<not> alive c) keys) then None
         else fmlookup (sg_by_channel g) c)"
    by (auto simp: scoring_retain_def)
  have "\<forall>p. sc_channel_id (score_decay p) = sc_channel_id p \<and> sc_outstanding (score_decay p) \<le> sc_outstanding p"
    by (simp add: score_decay_def)
  from scoring_modify_each_spec [OF g1(2) this, of keys'] obtain g' where
    g': "scoring_modify_each keys' score_decay g1 = Some g'" "scoring_inv n g'"
      "\<And>c. fmlookup (sg_by_channel g') c = None \<longleftrightarrow> fmlookup (sg_by_channel g1) c = None"
    by blast
  have "fmlookup (sg_by_channel g') c \<noteq> None \<longleftrightarrow> fmlookup (sg_by_channel g) c \<noteq> None \<and> alive c" for c
    unfolding g'(3) using assms(2) by (simp add: g1(3))
  then show ?thesis
    using g1(1) g'(1,2) by (simp add: scoring_timeout_def)
qed

lemma received_message_spec:
  assumes "scoring_inv n g"
  shows "\<exists>g'. received_message c g = Some g' \<and> scoring_inv n g' \<and>
    (\<forall>d. map_option sc_outstanding (fmlookup (sg_by_channel g') d) =
       map_option (\<lambda>p. if d = c \<and> 1 < sc_outstanding p then sc_outstanding p - 1 else sc_outstanding p)
         (fmlookup (sg_by_channel g) d))"
proof -
  have "sc_channel_id (if sc_outstanding p > 1
            then p\<lparr>sc_outstanding := sc_outstanding p - 1,
                   sc_response_count_total := sc_response_count_total p + 1\<rparr> else p) = c \<and>
      sc_outstanding (if sc_outstanding p > 1
            then p\<lparr>sc_outstanding := sc_outstanding p - 1,
                   sc_response_count_total := sc_response_count_total p + 1\<rparr> else p) \<le> max 1 n"
    if "fmlookup (sg_by_channel g) c = Some p" for p
  proof -
    have "sc_channel_id p = c" "sc_outstanding p \<le> max 1 n"
      using assms that by (simp_all add: scoring_inv_def)
    then show ?thesis
      by auto
  qed
  from scoring_modify_spec [of n g c "\<lambda>p. if sc_outstanding p > 1
            then p\<lparr>sc_outstanding := sc_outstanding p - 1,
                   sc_response_count_total := sc_response_count_total p + 1\<rparr> else p", OF assms this]
  obtain g' where "received_message c g = Some g'" "scoring_inv n g'"
      "fmlookup (sg_by_channel g') = (\<lambda>d. if d = c
         then map_option (\<lambda>p. if sc_outstanding p > 1
            then p\<lparr>sc_outstanding := sc_outstanding p - 1,
                   sc_response_count_total := sc_response_count_total p + 1\<rparr> else p) (fmlookup (sg_by_channel g) c)
         else fmlookup (sg_by_channel g) d)"
    by (auto simp: received_message_def)
  then show ?thesis
    by (intro exI [of _ g']) (auto simp: option.map_comp comp_def intro!: map_option_cong)
qed

text \<open>
  A request goes to a usable channel with the fewest outstanding requests, and there is one
  whenever some channel is usable. The limit per channel is never exceeded.
\<close>

lemma next_channel_spec:
  assumes "scoring_inv n g"
  shows "\<exists>r g'. next_channel available n g = Some (r, g') \<and> scoring_inv n g' \<and>
    (case r of
       None \<Rightarrow> g' = g \<and> (\<forall>c p. fmlookup (sg_by_channel g) c = Some p \<longrightarrow> \<not> usable available n p)
     | Some c \<Rightarrow> available c \<and> (\<exists>p p'. fmlookup (sg_by_channel g) c = Some p \<and> sc_outstanding p < n \<and>
         fmlookup (sg_by_channel g') = (fmlookup (sg_by_channel g))(c \<mapsto> p') \<and> sc_outstanding p' = sc_outstanding p + 1 \<and>
         (\<forall>d q. fmlookup (sg_by_channel g) d = Some q \<longrightarrow> usable available n q \<longrightarrow>
            sc_outstanding p \<le> sc_outstanding q)))"
proof -
  let ?get = "fmlookup (sg_by_channel g)" and ?L = "sorted_list_of_fmap (sg_by_outstanding g)"
  let ?cs = "channels_by_outstanding g"
  let ?es = "map (the \<circ> ?get) ?cs"
  have ix: "index_ok sc_outstanding (sg_by_channel g) (sg_by_outstanding g)"
    and cid: "\<And>c p. ?get c = Some p \<Longrightarrow> sc_channel_id p = c"
    using assms by (auto simp: scoring_inv_def)
  have "sorted_wrt (\<lambda>x y. fst x \<le> fst y) ?L"
    using sorted_sorted_list_of_fmap [of "sg_by_outstanding g"] by (simp add: sorted_map)
  note flat = index_flat [OF ix refl this order.refl, folded channels_by_outstanding_def]
  have f: "find_entry ?get (usable available n) ?cs = Some (List.find (usable available n) ?es)"
    by (rule find_entry_Some) (use flat(1) in auto)
  have es: "?get c = Some p \<Longrightarrow> p \<in> set ?es" for c p
    using flat(1) [of c] by (force simp: image_iff)
  have sorted: "sorted_wrt (\<lambda>p q. sc_outstanding p \<le> sc_outstanding q) ?es"
    using flat(2) by (simp add: sorted_wrt_map)
  show ?thesis
  proof (cases "List.find (usable available n) ?es")
    case None
    then have "\<not> usable available n p" if "?get c = Some p" for c p
      using es [OF that] by (auto simp: find_None_iff)
    then show ?thesis
      using assms by (simp add: next_channel_def f None)
  next
    case (Some p)
    then have p: "p \<in> set ?es" "usable available n p"
      by (auto simp: find_Some_iff dest: nth_mem)
    then obtain c where c: "?get c = Some p"
      using flat(1) by auto
    have best: "sc_outstanding p \<le> sc_outstanding q" if "?get d = Some q" "usable available n q" for d q
      using find_first [OF Some sorted es [OF that(1)] that(2)] by auto
    let ?f = "\<lambda>p. p\<lparr>sc_outstanding := sc_outstanding p + 1, sc_request_count_total := sc_request_count_total p + 1\<rparr>"
    have "sc_channel_id (?f q) = c \<and> sc_outstanding (?f q) \<le> max 1 n" if "?get c = Some q" for q
      using that c p(2) cid [OF c] by (auto simp: usable_def)
    from scoring_modify_spec [of n g c ?f, OF assms this] obtain g' where
      g': "scoring_modify c ?f g = Some g'" "scoring_inv n g'" "fmlookup (sg_by_channel g') = ?get(c \<mapsto> ?f p)"
      using c by (auto simp: fun_eq_iff)
    then have "next_channel available n g = Some (Some c, g')"
      using cid [OF c] by (simp add: next_channel_def f Some)
    then show ?thesis
      using g' c p(2) best cid [OF c] by (auto simp: usable_def)
  qed
qed

section \<open>Runs\<close>

text \<open>The order in which the hash map lists its channels is the parameter \<open>keys\<close>.\<close>

datatype scoring_op =
    ScoreChannel "channel_id \<Rightarrow> bool" | ScoreReceived channel_id
  | ScoreTimeout "channel_id \<Rightarrow> bool" | ScoreSync "channel_id \<Rightarrow> bool" "channel_id list"

fun scoring_step ::
  "(scoring \<Rightarrow> channel_id list) \<Rightarrow> nat \<Rightarrow> scoring_op \<Rightarrow> scoring \<Rightarrow> (channel_id option \<times> scoring) option" where
  "scoring_step keys limit (ScoreChannel available) g = next_channel available limit g"
| "scoring_step keys limit (ScoreReceived c) g = map_option (Pair None) (received_message c g)"
| "scoring_step keys limit (ScoreTimeout alive) g =
     Option.bind (scoring_retain (keys g) alive g)
       (\<lambda>g'. map_option (Pair None) (scoring_timeout (keys g) (keys g') alive g))"
| "scoring_step keys limit (ScoreSync accepts cs) g = map_option (Pair None) (scoring_sync accepts cs g)"

definition outstanding :: "scoring \<Rightarrow> channel_id \<Rightarrow> nat option" where
  "outstanding g c = map_option sc_outstanding (fmlookup (sg_by_channel g) c)"

text \<open>
  What the run promises: a request raises the count of one channel by one, an available channel
  below the limit that has the fewest requests outstanding among those; an answer lowers the count
  of its channel by one, but not below one.
\<close>

fun scoring_spec ::
  "nat \<Rightarrow> (channel_id \<Rightarrow> nat option) \<Rightarrow> scoring_op \<Rightarrow> channel_id option \<Rightarrow> (channel_id \<Rightarrow> nat option) \<Rightarrow> bool" where
  "scoring_spec limit u (ScoreChannel available) r v \<longleftrightarrow>
     (case r of
        None \<Rightarrow> v = u \<and> (\<forall>c n. u c = Some n \<longrightarrow> available c \<longrightarrow> limit \<le> n)
      | Some c \<Rightarrow> \<exists>n. u c = Some n \<and> available c \<and> n < limit \<and> v = u(c \<mapsto> n + 1) \<and>
          (\<forall>d m. u d = Some m \<longrightarrow> available d \<longrightarrow> n \<le> m))"
| "scoring_spec limit u (ScoreReceived c) r v \<longleftrightarrow>
     r = None \<and> v = u(c := map_option (\<lambda>n. if 1 < n then n - 1 else n) (u c))"
| "scoring_spec limit u (ScoreTimeout alive) r v \<longleftrightarrow>
     r = None \<and> (\<forall>c. v c \<noteq> None \<longleftrightarrow> u c \<noteq> None \<and> alive c)"
| "scoring_spec limit u (ScoreSync accepts cs) r v \<longleftrightarrow>
     r = None \<and> (\<forall>c. v c \<noteq> None \<longleftrightarrow> u c \<noteq> None \<or> c \<in> set cs \<and> accepts c)"

definition lists_channels :: "(scoring \<Rightarrow> channel_id list) \<Rightarrow> bool" where
  "lists_channels keys \<longleftrightarrow> (\<forall>g. set (keys g) = {c. fmlookup (sg_by_channel g) c \<noteq> None})"

lemma next_channel_outstanding:
  assumes "scoring_inv n g"
  shows "\<exists>r g'. next_channel available n g = Some (r, g') \<and> scoring_inv n g' \<and>
    scoring_spec n (outstanding g) (ScoreChannel available) r (outstanding g')"
proof -
  obtain r g' where r: "next_channel available n g = Some (r, g')" "scoring_inv n g'"
    "case r of
       None \<Rightarrow> g' = g \<and> (\<forall>c p. fmlookup (sg_by_channel g) c = Some p \<longrightarrow> \<not> usable available n p)
     | Some c \<Rightarrow> available c \<and> (\<exists>p p'. fmlookup (sg_by_channel g) c = Some p \<and> sc_outstanding p < n \<and>
         fmlookup (sg_by_channel g') = (fmlookup (sg_by_channel g))(c \<mapsto> p') \<and> sc_outstanding p' = sc_outstanding p + 1 \<and>
         (\<forall>d q. fmlookup (sg_by_channel g) d = Some q \<longrightarrow> usable available n q \<longrightarrow>
            sc_outstanding p \<le> sc_outstanding q))"
    using next_channel_spec [OF assms, of available] by blast
  have id: "sc_channel_id p = c" if "fmlookup (sg_by_channel g) c = Some p" for c p
    using assms that by (simp add: scoring_inv_def)
  have "scoring_spec n (outstanding g) (ScoreChannel available) r (outstanding g')"
  proof (cases r)
    case None
    then show ?thesis
      using r(3) id by (auto simp: outstanding_def usable_def not_less)
  next
    case (Some c)
    then obtain p p' where p: "available c" "fmlookup (sg_by_channel g) c = Some p" "sc_outstanding p < n"
        "fmlookup (sg_by_channel g') = (fmlookup (sg_by_channel g))(c \<mapsto> p')" "sc_outstanding p' = sc_outstanding p + 1"
        "\<And>d q. fmlookup (sg_by_channel g) d = Some q \<Longrightarrow> usable available n q \<Longrightarrow> sc_outstanding p \<le> sc_outstanding q"
      using r(3) by auto
    have "sc_outstanding p \<le> sc_outstanding q" if "fmlookup (sg_by_channel g) d = Some q" "available d" for d q
      using p(3) p(6) [OF that(1)] id [OF that(1)] that(2) by (cases "sc_outstanding q < n") (simp_all add: usable_def)
    then show ?thesis
      using Some p(1-5) by (auto simp: outstanding_def fun_eq_iff)
  qed
  then show ?thesis
    using r(1,2) by blast
qed

interpretation scoring_trace: simulation "\<lambda>g. lists_channels keys \<and> scoring_inv limit g" outstanding "\<lambda>_. True"
  "scoring_step keys limit" "scoring_spec limit" for keys limit
proof
  fix g op
  assume g: "lists_channels keys \<and> scoring_inv limit g"
  show "\<exists>out g'. scoring_step keys limit op g = Some (out, g') \<and> (lists_channels keys \<and> scoring_inv limit g') \<and>
    scoring_spec limit (outstanding g) op out (outstanding g')"
  proof (cases op)
    case (ScoreChannel available)
    then show ?thesis
      using g next_channel_outstanding [of limit g available] by auto
  next
    case (ScoreReceived c)
    then show ?thesis
      using g received_message_spec [of limit g c]
      by (fastforce simp: outstanding_def fun_eq_iff option.map_comp comp_def intro!: map_option_cong)
  next
    case (ScoreTimeout alive)
    obtain g1 where g1: "scoring_retain (keys g) alive g = Some g1"
      using g scoring_remove_each_spec [of limit g] by (auto simp: scoring_retain_def)
    have "set (keys g) = {c. fmlookup (sg_by_channel g) c \<noteq> None}"
      using g by (simp add: lists_channels_def)
    from scoring_timeout_spec [OF _ this, of limit "keys g1" alive] show ?thesis
      using ScoreTimeout g g1 by (auto simp: outstanding_def)
  next
    case (ScoreSync accepts cs)
    then show ?thesis
      using g scoring_sync_spec [of limit g accepts cs] by (auto simp: outstanding_def)
  qed
qed

section \<open>Properties\<close>

text \<open>
  C24. Whatever channels are requested, answered, timed out and added, no operation panics, a request
  goes to an available channel with the fewest outstanding requests and only below the limit, and
  no channel ever has more than the limit outstanding (or one, the count a new channel starts with).
\<close>

theorem outstanding_requests_bounded:
  assumes "lists_channels keys"
  shows "\<exists>outs g. run_ops (scoring_step keys limit) ops scoring_default = Some (outs, g) \<and>
    spec_run (scoring_spec limit) ops outs (\<lambda>_. None) (outstanding g) \<and>
    (\<forall>c n. outstanding g c = Some n \<longrightarrow> n \<le> max 1 limit)"
proof -
  have "outstanding scoring_default = (\<lambda>_. None)"
    by (simp add: outstanding_def scoring_default_def fun_eq_iff)
  then obtain outs g where g: "run_ops (scoring_step keys limit) ops scoring_default = Some (outs, g)"
      "spec_run (scoring_spec limit) ops outs (\<lambda>_. None) (outstanding g)" "scoring_inv limit g"
    using scoring_trace.run_simulates [of keys limit scoring_default ops] assms scoring_inv_default by auto
  have "n \<le> max 1 limit" if "outstanding g c = Some n" for c n
    using g(3) that by (auto simp: scoring_inv_def outstanding_def)
  then show ?thesis
    using g(1,2) by blast
qed

theorem outstanding_requests_bounded_witness:
  "\<exists>outs g. run_ops (scoring_step (\<lambda>g. sorted_list_of_fset (fmdom (sg_by_channel g))) 2)
      [ScoreSync (\<lambda>_. True) [4, 5], ScoreChannel (\<lambda>_. True), ScoreTimeout (\<lambda>c. c = 4)]
      scoring_default = Some (outs, g) \<and> (\<exists>n. outstanding g 4 = Some n \<and> n \<le> 2) \<and> outstanding g 5 = None"
proof -
  let ?keys = "\<lambda>g. sorted_list_of_fset (fmdom (sg_by_channel g))"
    and ?ops = "[ScoreSync (\<lambda>_. True) [4, 5], ScoreChannel (\<lambda>_. True), ScoreTimeout (\<lambda>c. c = 4)]"
  have "lists_channels ?keys"
    by (auto simp: lists_channels_def fmlookup_dom_iff)
  from outstanding_requests_bounded [OF this, of 2 ?ops] obtain outs g where
    run: "run_ops (scoring_step ?keys 2) ?ops scoring_default = Some (outs, g)"
      and spec: "spec_run (scoring_spec 2) ?ops outs (\<lambda>_. None) (outstanding g)"
      and bound: "\<forall>c n. outstanding g c = Some n \<longrightarrow> n \<le> max 1 2"
    by blast
  obtain a r c where outs: "outs = [a, r, c]"
    using spec by (auto elim!: spec_run.elims)
  obtain u v where uv: "\<forall>c. u c \<noteq> None \<longleftrightarrow> c = 4 \<or> c = 5" "scoring_spec 2 u (ScoreChannel (\<lambda>_. True)) r v"
      "\<forall>c. outstanding g c \<noteq> None \<longleftrightarrow> v c \<noteq> None \<and> c = 4"
    using spec unfolding outs by auto
  have "v 4 \<noteq> None"
    using uv(1) [rule_format, of 4] uv(2) by (cases r) auto
  then have "outstanding g 4 \<noteq> None \<and> outstanding g 5 = None"
    using uv(3) [rule_format, of 4] uv(3) [rule_format, of 5] by simp
  then show ?thesis
    using run bound by force
qed

end
