(* ===== verification/Unchecked_Map.thy ===== *)
theory Unchecked_Map
  imports Indexes Blocks "HOL-Library.Product_Lexorder"
begin

text \<open>
  The blocks that wait for another block (\<open>node/src/block_processing/unchecked_map.rs\<close>): a bounded
  container keyed by the missing dependency and the hash of the block, and the queue of
  dependencies that have arrived, which a thread works off. The key \<open>UncheckedKey\<close> is the pair of
  the dependency and the hash, in lexicographic order. \<open>None\<close> is the \<open>unwrap\<close> of a missing entry.
\<close>

section \<open>Definitions\<close>

type_synonym unchecked_key = "block_hash \<times> block_hash"

record unchecked_info =
  ui_block :: block
  ui_modified :: u64

record unchecked_entry =
  ue_key :: unchecked_key
  ue_info :: unchecked_info

record entries_container =
  ec_next_id :: u64
  ec_by_key :: "(unchecked_key, u64) fmap"
  ec_by_id :: "(u64, unchecked_entry) fmap"

definition entries_new :: entries_container where
  "entries_new = \<lparr>ec_next_id = 0, ec_by_key = fmempty, ec_by_id = fmempty\<rparr>"

definition entries_insert :: "unchecked_entry \<Rightarrow> entries_container \<Rightarrow> bool \<times> entries_container" where
  "entries_insert e c =
     (case fmlookup (ec_by_key c) (ue_key e) of
        Some _ \<Rightarrow> (False, c)
      | None \<Rightarrow>
          (True, \<lparr>ec_next_id = ec_next_id c + 1, ec_by_key = fmupd (ue_key e) (ec_next_id c) (ec_by_key c),
                  ec_by_id = fmupd (ec_next_id c) e (ec_by_id c)\<rparr>))"

definition entries_remove :: "unchecked_key \<Rightarrow> entries_container \<Rightarrow> unchecked_entry option \<times> entries_container" where
  "entries_remove k c =
     (case fmlookup (ec_by_key c) k of
        None \<Rightarrow> (None, c)
      | Some i \<Rightarrow>
          (fmlookup (ec_by_id c) i,
           c\<lparr>ec_by_key := fmdrop k (ec_by_key c), ec_by_id := fmdrop i (ec_by_id c)\<rparr>))"

definition entries_len :: "entries_container \<Rightarrow> nat" where
  "entries_len c = fcard (fmdom (ec_by_id c))"

definition entries_pop_front :: "entries_container \<Rightarrow> unchecked_entry option \<times> entries_container" where
  "entries_pop_front c =
     (case sorted_list_of_fmap (ec_by_id c) of
        [] \<Rightarrow> (None, c)
      | (i, e) # _ \<Rightarrow>
          (Some e, c\<lparr>ec_by_id := fmdrop i (ec_by_id c), ec_by_key := fmdrop (ue_key e) (ec_by_key c)\<rparr>))"

definition entries_exists :: "unchecked_key \<Rightarrow> entries_container \<Rightarrow> bool" where
  "entries_exists k c = (fmlookup (ec_by_key c) k \<noteq> None)"

definition for_each_with_dependency :: "u256 \<Rightarrow> entries_container \<Rightarrow> unchecked_entry list option" where
  "for_each_with_dependency d c =
     those (map (\<lambda>(_, i). fmlookup (ec_by_id c) i)
       (takeWhile (\<lambda>(k, _). fst k = d) (entries_from (d, 0) (ec_by_key c))))"

record unchecked_map =
  um_max_unchecked_blocks :: nat
  um_disable_delete :: bool
  um_buffer :: "u256 list"
  um_entries :: entries_container

definition unchecked_new :: "nat \<Rightarrow> bool \<Rightarrow> unchecked_map" where
  "unchecked_new n disable_delete =
     \<lparr>um_max_unchecked_blocks = n, um_disable_delete = disable_delete, um_buffer = [], um_entries = entries_new\<rparr>"

definition unchecked_put :: "u256 \<Rightarrow> unchecked_info \<Rightarrow> unchecked_map \<Rightarrow> unchecked_map" where
  "unchecked_put d info m =
     (let c = snd (entries_insert \<lparr>ue_key = (d, hash (ui_block info)), ue_info = info\<rparr> (um_entries m))
      in m\<lparr>um_entries := (if entries_len c > um_max_unchecked_blocks m then snd (entries_pop_front c) else c)\<rparr>)"

definition unchecked_get :: "u256 \<Rightarrow> unchecked_map \<Rightarrow> unchecked_info list option" where
  "unchecked_get d m = map_option (map ue_info) (for_each_with_dependency d (um_entries m))"

definition unchecked_trigger :: "u256 \<Rightarrow> unchecked_map \<Rightarrow> unchecked_map" where
  "unchecked_trigger d m = m\<lparr>um_buffer := um_buffer m @ [d]\<rparr>"

definition unchecked_remove :: "unchecked_key \<Rightarrow> unchecked_map \<Rightarrow> unchecked_map" where
  "unchecked_remove k m = m\<lparr>um_entries := snd (entries_remove k (um_entries m))\<rparr>"

definition unchecked_clear :: "unchecked_map \<Rightarrow> unchecked_map" where
  "unchecked_clear m = m\<lparr>um_entries := entries_new\<rparr>"

text \<open>The blocks for which the dependency is satisfied, in the order the callback gets them.\<close>

definition query_impl :: "u256 \<Rightarrow> unchecked_map \<Rightarrow> (unchecked_info list \<times> unchecked_map) option" where
  "query_impl d m =
     map_option
       (\<lambda>es. (map ue_info es,
              if um_disable_delete m then m
              else m\<lparr>um_entries := fold (\<lambda>e c. snd (entries_remove (ue_key e) c)) es (um_entries m)\<rparr>))
       (for_each_with_dependency d (um_entries m))"

fun process_queries :: "u256 list \<Rightarrow> unchecked_map \<Rightarrow> (unchecked_info list \<times> unchecked_map) option" where
  "process_queries [] m = Some ([], m)"
| "process_queries (d # ds) m =
     do {
       (infos, m) \<leftarrow> query_impl d m;
       (rest, m) \<leftarrow> process_queries ds m;
       Some (infos @ rest, m)
     }"

text \<open>One round of the thread: it takes the whole buffer and answers it.\<close>

definition unchecked_run :: "unchecked_map \<Rightarrow> (unchecked_info list \<times> unchecked_map) option" where
  "unchecked_run m = process_queries (um_buffer m) (m\<lparr>um_buffer := []\<rparr>)"

section \<open>The invariant of the container\<close>

text \<open>The two maps are inverse to each other, and the identifiers given out are below the next one.\<close>

definition entries_inv :: "entries_container \<Rightarrow> bool" where
  "entries_inv c \<longleftrightarrow>
     (\<forall>k i. fmlookup (ec_by_key c) k = Some i \<longleftrightarrow> (\<exists>e. fmlookup (ec_by_id c) i = Some e \<and> ue_key e = k)) \<and>
     (\<forall>i. fmlookup (ec_by_id c) i \<noteq> None \<longrightarrow> i < ec_next_id c)"

definition entries_find :: "entries_container \<Rightarrow> unchecked_key \<Rightarrow> unchecked_info option" where
  "entries_find c k =
     Option.bind (fmlookup (ec_by_key c) k) (\<lambda>i. map_option ue_info (fmlookup (ec_by_id c) i))"

definition entries_keys :: "entries_container \<Rightarrow> unchecked_key list" where
  "entries_keys c = map (\<lambda>(_, e). ue_key e) (sorted_list_of_fmap (ec_by_id c))"

lemma entries_inv_new: "entries_inv entries_new"
  by (simp add: entries_inv_def entries_new_def)

lemma entries_invD:
  assumes "entries_inv c" "fmlookup (ec_by_id c) i = Some e"
  shows "fmlookup (ec_by_key c) (ue_key e) = Some i" "entries_find c (ue_key e) = Some (ue_info e)" "i < ec_next_id c"
proof -
  show k: "fmlookup (ec_by_key c) (ue_key e) = Some i" and "i < ec_next_id c"
    using assms unfolding entries_inv_def by blast+
  show "entries_find c (ue_key e) = Some (ue_info e)"
    by (simp add: entries_find_def k assms(2))
qed

lemma entries_inv_key:
  "entries_inv c \<Longrightarrow> fmlookup (ec_by_key c) k = Some i \<Longrightarrow> \<exists>e. fmlookup (ec_by_id c) i = Some e \<and> ue_key e = k"
  unfolding entries_inv_def by blast

lemma entries_find_Some:
  "entries_inv c \<Longrightarrow> entries_find c k = Some x \<Longrightarrow>
   \<exists>i e. fmlookup (ec_by_id c) i = Some e \<and> ue_key e = k \<and> ue_info e = x"
  using entries_inv_key [of c k] by (fastforce simp: entries_find_def Option.bind_eq_Some_conv)

lemma entries_find_None: "entries_inv c \<Longrightarrow> entries_find c k = None \<longleftrightarrow> fmlookup (ec_by_key c) k = None"
  using entries_inv_key [of c k] by (cases "fmlookup (ec_by_key c) k") (auto simp: entries_find_def)

lemma entries_len_keys: "entries_len c = length (entries_keys c)"
  by (simp add: entries_len_def entries_keys_def sorted_list_of_fmap_def fcard.rep_eq sorted_list_of_fset.rep_eq)


lemma entries_invI:
  assumes "\<And>i e. fmlookup (ec_by_id c) i = Some e \<Longrightarrow> fmlookup (ec_by_key c) (ue_key e) = Some i \<and> i < ec_next_id c"
    and "\<And>k i. fmlookup (ec_by_key c) k = Some i \<Longrightarrow> \<exists>e. fmlookup (ec_by_id c) i = Some e \<and> ue_key e = k"
  shows "entries_inv c"
  unfolding entries_inv_def using assms by blast

text \<open>The number of blocks ever stored stays below the range of the identifiers.\<close>

lemma entries_insert_new:
  assumes "entries_inv c" "fmlookup (ec_by_key c) (ue_key e) = None" "ec_next_id c \<noteq> - 1"
  shows "\<exists>c'. entries_insert e c = (True, c') \<and> entries_inv c' \<and>
    entries_find c' = (entries_find c)(ue_key e \<mapsto> ue_info e) \<and> entries_keys c' = entries_keys c @ [ue_key e] \<and>
    ec_next_id c' = ec_next_id c + 1"
proof -
  let ?c = "\<lparr>ec_next_id = ec_next_id c + 1, ec_by_key = fmupd (ue_key e) (ec_next_id c) (ec_by_key c),
     ec_by_id = fmupd (ec_next_id c) e (ec_by_id c)\<rparr>"
  have lt: "i < ec_next_id c" if "fmlookup (ec_by_id c) i = Some x" for i x
    using entries_invD(3) [OF assms(1) that] .
  have inc: "ec_next_id c < ec_next_id c + 1"
    using assms(3) inc_less_eq_self_iff_eq [of "ec_next_id c"] by (simp add: not_le [symmetric])
  have key: "ue_key x \<noteq> ue_key e" if "fmlookup (ec_by_id c) i = Some x" for i x
    using entries_invD(1) [OF assms(1) that] assms(2) by auto
  have inv: "entries_inv ?c"
  proof (rule entries_invI)
    show "fmlookup (ec_by_key ?c) (ue_key x) = Some i \<and> i < ec_next_id ?c" if "fmlookup (ec_by_id ?c) i = Some x" for i x
      using that inc lt [of i x] key [of i x] entries_invD(1) [OF assms(1), of i x]
      by (auto split: if_splits)
    show "\<exists>x. fmlookup (ec_by_id ?c) i = Some x \<and> ue_key x = k" if "fmlookup (ec_by_key ?c) k = Some i" for k i
      using that entries_inv_key [OF assms(1), of k i] lt by (auto split: if_splits)
  qed
  have "entries_find ?c k = ((entries_find c)(ue_key e \<mapsto> ue_info e)) k" for k
    using entries_inv_key [OF assms(1), of k] lt
    by (cases "fmlookup (ec_by_key c) k") (auto simp: entries_find_def)
  moreover have "entries_keys ?c = entries_keys c @ [ue_key e]"
  proof -
    have "sorted_list_of_fmap (fmupd (ec_next_id c) e (ec_by_id c)) =
        sorted_list_of_fmap (ec_by_id c) @ [(ec_next_id c, e)]"
      by (rule sorted_list_of_fmap_snoc) (use lt in blast)
    then show ?thesis
      by (simp add: entries_keys_def)
  qed
  ultimately show ?thesis
    using inv assms(2) by (auto simp: entries_insert_def)
qed

lemma entries_remove_spec:
  assumes "entries_inv c" "fmlookup (ec_by_id c) i = Some e"
  shows "\<exists>c'. entries_remove (ue_key e) c = (Some e, c') \<and> entries_inv c' \<and>
    entries_find c' = (entries_find c)(ue_key e := None) \<and>
    entries_keys c' = filter (\<lambda>k. k \<noteq> ue_key e) (entries_keys c) \<and> ec_next_id c' = ec_next_id c"
proof -
  note k = entries_invD(1) [OF assms]
  let ?c = "c\<lparr>ec_by_key := fmdrop (ue_key e) (ec_by_key c), ec_by_id := fmdrop i (ec_by_id c)\<rparr>"
  have key: "ue_key x \<noteq> ue_key e" if "fmlookup (ec_by_id c) j = Some x" "j \<noteq> i" for j x
    using entries_invD(1) [OF assms(1) that(1)] k that(2) by auto
  have inv: "entries_inv ?c"
  proof (rule entries_invI)
    show "fmlookup (ec_by_key ?c) (ue_key x) = Some j \<and> j < ec_next_id ?c" if "fmlookup (ec_by_id ?c) j = Some x" for j x
      using that key [of j x] entries_invD [OF assms(1), of j x] by (auto split: if_splits)
    show "\<exists>x. fmlookup (ec_by_id ?c) j = Some x \<and> ue_key x = k'" if "fmlookup (ec_by_key ?c) k' = Some j" for k' j
      using that entries_inv_key [OF assms(1), of k' j] assms(2) by (auto split: if_splits)
  qed
  have "entries_find ?c k' = ((entries_find c)(ue_key e := None)) k'" for k'
    using entries_inv_key [OF assms(1), of k'] assms(2)
    by (cases "fmlookup (ec_by_key c) k'") (auto simp: entries_find_def)
  moreover have "entries_keys ?c = filter (\<lambda>k. k \<noteq> ue_key e) (entries_keys c)"
  proof -
    have "fst x \<noteq> i \<longleftrightarrow> ue_key (snd x) \<noteq> ue_key e" if "x \<in> set (sorted_list_of_fmap (ec_by_id c))" for x
    proof -
      have "fmlookup (ec_by_id c) (fst x) = Some (snd x)"
        using that by (simp add: set_sorted_list_of_fmap [symmetric])
      then show ?thesis
        using key [of "fst x" "snd x"] assms(2) by auto
    qed
    then have "filter (\<lambda>x. fst x \<noteq> i) (sorted_list_of_fmap (ec_by_id c)) =
        filter (\<lambda>x. ue_key (snd x) \<noteq> ue_key e) (sorted_list_of_fmap (ec_by_id c))"
      by (intro filter_cong) auto
    then show ?thesis
      by (simp add: entries_keys_def sorted_list_of_fmap_drop filter_map comp_def case_prod_unfold)
  qed
  ultimately show ?thesis
    using inv k assms(2) by (auto simp: entries_remove_def)
qed

lemma entries_pop_front_spec:
  assumes "entries_inv c" "entries_keys c = k # ks"
  shows "\<exists>e c'. entries_pop_front c = (Some e, c') \<and> ue_key e = k \<and> entries_inv c' \<and> entries_keys c' = ks \<and>
    entries_find c' = (entries_find c)(k := None) \<and> ec_next_id c' = ec_next_id c"
proof -
  from assms(2) obtain i e rest where s: "sorted_list_of_fmap (ec_by_id c) = (i, e) # rest" "ue_key e = k"
    "ks = map (\<lambda>(_, e). ue_key e) rest"
    by (auto simp: entries_keys_def)
  have l: "fmlookup (ec_by_id c) i = Some e"
    using set_sorted_list_of_fmap [of i e "ec_by_id c"] s(1) by simp
  from entries_remove_spec [OF assms(1) l] obtain c' where
    c': "entries_remove (ue_key e) c = (Some e, c')" "entries_inv c'" "entries_find c' = (entries_find c)(ue_key e := None)"
      "ec_next_id c' = ec_next_id c"
    by blast
  have "entries_pop_front c = (Some e, c')"
    using c'(1) entries_invD(1) [OF assms(1) l] by (auto simp: entries_pop_front_def entries_remove_def s(1))
  moreover have "entries_keys c' = ks"
  proof -
    have "ec_by_id c' = fmdrop i (ec_by_id c)"
      using c'(1) entries_invD(1) [OF assms(1) l] by (auto simp: entries_remove_def)
    moreover have "filter (\<lambda>x. fst x \<noteq> i) rest = rest"
      using distinct_sorted_list_of_fmap [of "ec_by_id c"] s(1) by (force simp: filter_id_conv)
    ultimately show ?thesis
      by (simp add: entries_keys_def sorted_list_of_fmap_drop s(1,3))
  qed
  ultimately show ?thesis
    using c' s(2) by blast
qed

interpretation entries: sequenced_map entries_inv entries_keys entries_find "\<lambda>c. Some (snd (entries_pop_front c))"
proof
  fix c
  assume inv: "entries_inv c"
  show "distinct (entries_keys c)"
    unfolding entries_keys_def distinct_map
  proof (intro conjI inj_onI)
    show "distinct (sorted_list_of_fmap (ec_by_id c))"
      using distinct_sorted_list_of_fmap [of "ec_by_id c"] by (simp add: distinct_map)
    show "x = y" if "x \<in> set (sorted_list_of_fmap (ec_by_id c))" "y \<in> set (sorted_list_of_fmap (ec_by_id c))"
      "(case x of (_, e) \<Rightarrow> ue_key e) = (case y of (_, e) \<Rightarrow> ue_key e)" for x y
    proof -
      have "fmlookup (ec_by_id c) (fst x) = Some (snd x)" "fmlookup (ec_by_id c) (fst y) = Some (snd y)"
        "ue_key (snd x) = ue_key (snd y)"
        using that by (simp_all add: set_sorted_list_of_fmap [symmetric] case_prod_unfold)
      then show ?thesis
        using entries_invD(1) [OF inv] by (metis option.inject prod.expand)
    qed
  qed
  show "x \<in> set (entries_keys c) \<longleftrightarrow> entries_find c x \<noteq> None" for x
  proof
    assume "x \<in> set (entries_keys c)"
    then obtain i e where "fmlookup (ec_by_id c) i = Some e" "ue_key e = x"
      by (auto simp: entries_keys_def set_sorted_list_of_fmap)
    then show "entries_find c x \<noteq> None"
      using entries_invD(2) [OF inv] by auto
  next
    assume "entries_find c x \<noteq> None"
    then obtain i e where "fmlookup (ec_by_id c) i = Some e" "ue_key e = x"
      using entries_find_Some [OF inv] by blast
    then show "x \<in> set (entries_keys c)"
      by (auto simp: entries_keys_def set_sorted_list_of_fmap [symmetric] intro!: image_eqI [of _ _ "(i, e)"])
  qed
  show "\<exists>c'. Some (snd (entries_pop_front c)) = Some c' \<and> entries_inv c' \<and> entries_keys c' = xs \<and>
      entries_find c' = (entries_find c)(x := None)" if "entries_keys c = x # xs" for x xs
    using entries_pop_front_spec [OF inv that] by auto
qed


lemma entries_remove_key:
  assumes "entries_inv c"
  shows "entries_inv (snd (entries_remove k c))" "entries_find (snd (entries_remove k c)) = (entries_find c)(k := None)"
    "entries_keys (snd (entries_remove k c)) = filter (\<lambda>k'. k' \<noteq> k) (entries_keys c)"
    "ec_next_id (snd (entries_remove k c)) = ec_next_id c"
proof -
  have "entries_inv (snd (entries_remove k c)) \<and> entries_find (snd (entries_remove k c)) = (entries_find c)(k := None) \<and>
    entries_keys (snd (entries_remove k c)) = filter (\<lambda>k'. k' \<noteq> k) (entries_keys c) \<and>
    ec_next_id (snd (entries_remove k c)) = ec_next_id c"
  proof (cases "fmlookup (ec_by_key c) k")
    case None
    then have n: "entries_find c k = None"
      using entries_find_None [OF assms] by simp
    then have "k \<notin> set (entries_keys c)"
      using entries.ids_find [OF assms] by simp
    then show ?thesis
      using assms None n by (simp add: entries_remove_def filter_absent fun_eq_iff)
  next
    case (Some i)
    then obtain e where "fmlookup (ec_by_id c) i = Some e" "ue_key e = k"
      using entries_inv_key [OF assms] by blast
    then show ?thesis
      using entries_remove_spec [OF assms, of i e] by auto
  qed
  then show "entries_inv (snd (entries_remove k c))" "entries_find (snd (entries_remove k c)) = (entries_find c)(k := None)"
    "entries_keys (snd (entries_remove k c)) = filter (\<lambda>k'. k' \<noteq> k) (entries_keys c)"
    "ec_next_id (snd (entries_remove k c)) = ec_next_id c"
    by blast+
qed

lemma entries_remove_all:
  "entries_inv c \<Longrightarrow>
   entries_inv (fold (\<lambda>e c. snd (entries_remove (ue_key e) c)) es c) \<and>
   entries_find (fold (\<lambda>e c. snd (entries_remove (ue_key e) c)) es c) =
     (\<lambda>k. if k \<in> ue_key ` set es then None else entries_find c k) \<and>
   entries_len (fold (\<lambda>e c. snd (entries_remove (ue_key e) c)) es c) \<le> entries_len c \<and>
   ec_next_id (fold (\<lambda>e c. snd (entries_remove (ue_key e) c)) es c) = ec_next_id c"
proof (induction es arbitrary: c)
  case (Cons e es)
  note r = entries_remove_key [OF Cons.prems, of "ue_key e"]
  have "entries_len (snd (entries_remove (ue_key e) c)) \<le> entries_len c"
    by (simp add: entries_len_keys r(3))
  then show ?case
    using Cons.IH [OF r(1)] by (auto simp: r(2,4) fun_eq_iff simp del: split_paired_All intro: order_trans)
qed simp

section \<open>Dependencies\<close>

lemma for_each_with_dependency_spec:
  assumes "entries_inv c"
  shows "\<exists>es. for_each_with_dependency d c = Some es \<and> distinct es \<and>
    (\<forall>e. e \<in> set es \<longleftrightarrow> fst (ue_key e) = d \<and> entries_find c (ue_key e) = Some (ue_info e))"
proof -
  let ?L = "entries_from (d, 0) (ec_by_key c)" and ?f = "\<lambda>x. fst (fst x)"
  let ?g = "\<lambda>x. fmlookup (ec_by_id c) (snd x)"
  have "sorted (map ?f ?L)"
    using sorted_entries_from [of "(d, 0)" "ec_by_key c"]
    by (auto simp: sorted_wrt_map less_eq_prod_def intro: sorted_wrt_mono_rel [rotated])
  moreover have "\<forall>x\<in>set ?L. d \<le> ?f x"
    by (auto simp: set_entries_from less_eq_prod_def)
  ultimately have t: "takeWhile (\<lambda>x. ?f x = d) ?L = filter (\<lambda>x. ?f x = d) ?L"
    by (rule takeWhile_eq_filter)
  let ?xs = "filter (\<lambda>x. ?f x = d) ?L"
  have xs: "(k, i) \<in> set ?xs \<longleftrightarrow> fst k = d \<and> fmlookup (ec_by_key c) k = Some i" for k i
    by (auto simp: set_entries_from less_eq_prod_def)
  have g: "\<exists>e. ?g x = Some e \<and> ue_key e = fst x" if "x \<in> set ?xs" for x
    using xs [of "fst x" "snd x"] that entries_inv_key [OF assms] by auto
  have eq: "for_each_with_dependency d c = Some (map (the \<circ> ?g) ?xs)"
    unfolding for_each_with_dependency_def case_prod_unfold t
    by (rule those_map_Some) (use g in blast)
  have "distinct ?xs"
    using distinct_entries_from [of "(d, 0)" "ec_by_key c"] by (simp add: distinct_map)
  moreover have "inj_on (the \<circ> ?g) (set ?xs)"
  proof (rule inj_onI)
    fix x y
    assume m: "x \<in> set ?xs" "y \<in> set ?xs" "(the \<circ> ?g) x = (the \<circ> ?g) y"
    then have "fst x = fst y"
      using g [OF m(1)] g [OF m(2)] by auto
    moreover have "fmlookup (ec_by_key c) (fst x) = Some (snd x)" "fmlookup (ec_by_key c) (fst y) = Some (snd y)"
      using xs [of "fst x" "snd x"] xs [of "fst y" "snd y"] m(1,2) by auto
    ultimately show "x = y"
      by (intro prod_eqI) auto
  qed
  ultimately have "distinct (map (the \<circ> ?g) ?xs)"
    by (simp add: distinct_map)
  moreover have "e \<in> set (map (the \<circ> ?g) ?xs) \<longleftrightarrow>
      fst (ue_key e) = d \<and> entries_find c (ue_key e) = Some (ue_info e)" for e
  proof
    assume "e \<in> set (map (the \<circ> ?g) ?xs)"
    then obtain x where x: "x \<in> set ?xs" "e = the (?g x)"
      by auto
    then have "?g x = Some e" "ue_key e = fst x"
      using g [OF x(1)] by auto
    then show "fst (ue_key e) = d \<and> entries_find c (ue_key e) = Some (ue_info e)"
      using x(1) entries_invD(2) [OF assms, of "snd x" e] by auto
  next
    assume e: "fst (ue_key e) = d \<and> entries_find c (ue_key e) = Some (ue_info e)"
    then obtain i e' where i: "fmlookup (ec_by_id c) i = Some e'" "ue_key e' = ue_key e" "ue_info e' = ue_info e"
      using entries_find_Some [OF assms] by blast
    then have "e' = e"
      by simp
    have "(ue_key e, i) \<in> set ?xs"
      unfolding xs using e entries_invD(1) [OF assms i(1)] i(2) by simp
    moreover have "e = (the \<circ> ?g) (ue_key e, i)"
      using i(1) \<open>e' = e\<close> by simp
    ultimately show "e \<in> set (map (the \<circ> ?g) ?xs)"
      unfolding set_map by (rule image_eqI [rotated])
  qed
  ultimately show ?thesis
    using eq by blast
qed


section \<open>The map\<close>

definition unchecked_inv :: "unchecked_map \<Rightarrow> bool" where
  "unchecked_inv m \<longleftrightarrow> entries_inv (um_entries m) \<and> entries_len (um_entries m) \<le> um_max_unchecked_blocks m"

definition unchecked_find :: "unchecked_map \<Rightarrow> unchecked_key \<Rightarrow> unchecked_info option" where
  "unchecked_find m = entries_find (um_entries m)"

lemma unchecked_inv_new: "unchecked_inv (unchecked_new n disable_delete)"
  by (simp add: unchecked_inv_def unchecked_new_def entries_inv_new)
    (simp add: entries_new_def entries_len_def fcard.rep_eq)

text \<open>
  A block that is put is found afterwards, unless there is no room at all; to make room the oldest
  block is dropped and no other.
\<close>

lemma unchecked_put_spec:
  assumes "unchecked_inv m" "ec_next_id (um_entries m) \<noteq> - 1"
  shows "unchecked_inv (unchecked_put d info m)"
    "unchecked_find m (d, hash (ui_block info)) = None \<Longrightarrow> 0 < um_max_unchecked_blocks m \<Longrightarrow>
     unchecked_find (unchecked_put d info m) (d, hash (ui_block info)) = Some info"
    "unchecked_find (unchecked_put d info m) k = Some x \<Longrightarrow>
     unchecked_find m k = Some x \<or> k = (d, hash (ui_block info)) \<and> x = info"
proof -
  let ?k = "(d, hash (ui_block info))" and ?c = "um_entries m" and ?n = "um_max_unchecked_blocks m"
  let ?e = "\<lparr>ue_key = ?k, ue_info = info\<rparr>"
  have inv: "entries_inv ?c" "length (entries_keys ?c) \<le> ?n"
    using assms(1) by (simp_all add: unchecked_inv_def entries_len_keys)
  have "unchecked_inv (unchecked_put d info m) \<and>
    (unchecked_find m ?k = None \<longrightarrow> 0 < ?n \<longrightarrow> unchecked_find (unchecked_put d info m) ?k = Some info) \<and>
    (unchecked_find (unchecked_put d info m) k = Some x \<longrightarrow> unchecked_find m k = Some x \<or> k = ?k \<and> x = info)"
  proof (cases "fmlookup (ec_by_key ?c) ?k")
    case (Some i)
    then show ?thesis
      using assms(1) entries_find_None [OF inv(1), of ?k]
      by (auto simp: unchecked_put_def entries_insert_def unchecked_inv_def unchecked_find_def Let_def)
  next
    case None
    from entries_insert_new [OF inv(1), of ?e] None assms(2) obtain c where
      c: "entries_insert ?e ?c = (True, c)" "entries_inv c" "entries_find c = (entries_find ?c)(?k \<mapsto> info)"
        "entries_keys c = entries_keys ?c @ [?k]"
      by auto
    show ?thesis
    proof (cases "entries_len c > ?n")
      case False
      then show ?thesis
        using c by (auto simp: unchecked_put_def unchecked_inv_def unchecked_find_def Let_def split: if_splits)
    next
      case True
      then have len: "length (entries_keys ?c) = ?n"
        using inv(2) by (simp add: entries_len_keys c(4))
      obtain q qs where q: "entries_keys c = q # qs"
        by (cases "entries_keys c") (simp_all add: c(4))
      from entries_pop_front_spec [OF c(2) q] obtain c' where
        c': "snd (entries_pop_front c) = c'" "entries_inv c'" "entries_keys c' = qs" "entries_find c' = (entries_find c)(q := None)"
        by auto
      have "entries_len c' = ?n"
        using arg_cong [OF q, of length] len by (simp add: entries_len_keys c'(3) c(4))
      moreover have "q \<noteq> ?k" if "0 < ?n"
        using q len that entries.ids_distinct [OF c(2)] by (cases "entries_keys ?c") (auto simp: c(4))
      moreover have "unchecked_put d info m = m\<lparr>um_entries := c'\<rparr>"
        using True c(1) c'(1) by (simp add: unchecked_put_def Let_def)
      ultimately show ?thesis
        using c'(2) by (auto simp: unchecked_inv_def unchecked_find_def c'(4) c(3) split: if_splits)
    qed
  qed
  then show "unchecked_inv (unchecked_put d info m)"
    "unchecked_find m ?k = None \<Longrightarrow> 0 < ?n \<Longrightarrow> unchecked_find (unchecked_put d info m) ?k = Some info"
    "unchecked_find (unchecked_put d info m) k = Some x \<Longrightarrow> unchecked_find m k = Some x \<or> k = ?k \<and> x = info"
    by blast+
qed

lemma query_impl_spec:
  assumes "unchecked_inv m"
  shows "\<exists>infos m'. query_impl d m = Some (infos, m') \<and> unchecked_inv m' \<and> um_buffer m' = um_buffer m \<and>
    um_disable_delete m' = um_disable_delete m \<and>
    set infos = {x. \<exists>k. fst k = d \<and> unchecked_find m k = Some x} \<and>
    unchecked_find m' = (\<lambda>k. if \<not> um_disable_delete m \<and> fst k = d then None else unchecked_find m k)"
proof -
  let ?c = "um_entries m"
  have inv: "entries_inv ?c"
    using assms by (simp add: unchecked_inv_def)
  from for_each_with_dependency_spec [OF inv, of d] obtain es where
    es: "for_each_with_dependency d ?c = Some es"
      "\<And>e. e \<in> set es \<longleftrightarrow> fst (ue_key e) = d \<and> entries_find ?c (ue_key e) = Some (ue_info e)"
    by blast
  have infos: "set (map ue_info es) = {x. \<exists>k. fst k = d \<and> unchecked_find m k = Some x}"
  proof (intro set_eqI iffI)
    fix x
    assume "x \<in> set (map ue_info es)"
    then show "x \<in> {x. \<exists>k. fst k = d \<and> unchecked_find m k = Some x}"
      using es(2) unfolding unchecked_find_def by auto (metis prod.collapse)
  next
    fix x
    assume "x \<in> {x. \<exists>k. fst k = d \<and> unchecked_find m k = Some x}"
    then obtain k where "fst k = d" "entries_find ?c k = Some x"
      by (auto simp: unchecked_find_def)
    then have "\<lparr>ue_key = k, ue_info = x\<rparr> \<in> set es"
      by (simp add: es(2))
    then show "x \<in> set (map ue_info es)"
      by (force simp: image_iff)
  qed
  have keys: "k \<in> ue_key ` set es \<longleftrightarrow> fst k = d \<and> entries_find ?c k \<noteq> None" for k
  proof
    assume "k \<in> ue_key ` set es"
    then show "fst k = d \<and> entries_find ?c k \<noteq> None"
      using es(2) by auto
  next
    assume "fst k = d \<and> entries_find ?c k \<noteq> None"
    then obtain x where "fst k = d" "entries_find ?c k = Some x"
      by auto
    then have "\<lparr>ue_key = k, ue_info = x\<rparr> \<in> set es"
      by (simp add: es(2))
    then show "k \<in> ue_key ` set es"
      by (force simp: image_iff)
  qed
  note r = entries_remove_all [OF inv, of es]
  let ?m = "m\<lparr>um_entries := fold (\<lambda>e c. snd (entries_remove (ue_key e) c)) es ?c\<rparr>"
  have "unchecked_inv ?m" "unchecked_find ?m = (\<lambda>k. if fst k = d then None else unchecked_find m k)"
    using r assms by (auto simp: unchecked_inv_def unchecked_find_def keys fun_eq_iff simp del: split_paired_All)
  then show ?thesis
    using es(1) infos assms by (auto simp: query_impl_def simp del: set_map)
qed

lemma process_queries_spec:
  "unchecked_inv m \<Longrightarrow> \<not> um_disable_delete m \<Longrightarrow>
   \<exists>infos m'. process_queries ds m = Some (infos, m') \<and> unchecked_inv m' \<and> um_buffer m' = um_buffer m \<and>
    set infos = {x. \<exists>k. fst k \<in> set ds \<and> unchecked_find m k = Some x} \<and>
    unchecked_find m' = (\<lambda>k. if fst k \<in> set ds then None else unchecked_find m k)"
proof (induction ds arbitrary: m)
  case (Cons d ds)
  from query_impl_spec [OF Cons.prems(1), of d] Cons.prems(2) obtain xs m1 where
    q: "query_impl d m = Some (xs, m1)" "unchecked_inv m1" "um_buffer m1 = um_buffer m" "\<not> um_disable_delete m1"
      "set xs = {x. \<exists>k. fst k = d \<and> unchecked_find m k = Some x}"
      "unchecked_find m1 = (\<lambda>k. if fst k = d then None else unchecked_find m k)"
    by auto
  from Cons.IH [OF q(2,4)] obtain ys m' where
    p: "process_queries ds m1 = Some (ys, m')" "unchecked_inv m'" "um_buffer m' = um_buffer m1"
      "set ys = {x. \<exists>k. fst k \<in> set ds \<and> unchecked_find m1 k = Some x}"
      "unchecked_find m' = (\<lambda>k. if fst k \<in> set ds then None else unchecked_find m1 k)"
    by blast
  have "set (xs @ ys) = {x. \<exists>k. fst k \<in> set (d # ds) \<and> unchecked_find m k = Some x}"
    unfolding set_append q(5) p(4) q(6) by (auto split: if_splits simp del: split_paired_Ex)
  moreover have "unchecked_find m' = (\<lambda>k. if fst k \<in> set (d # ds) then None else unchecked_find m k)"
    unfolding p(5) q(6) by (auto simp: fun_eq_iff)
  ultimately show ?case
    using q(1,3) p(1,2,3) by simp
qed simp

text \<open>Every block that is handed on leaves the map, so no round hands on more than the map holds.\<close>

lemma unchecked_len_card:
  assumes "unchecked_inv m"
  shows "entries_len (um_entries m) = card {k. unchecked_find m k \<noteq> None}" "finite {k. unchecked_find m k \<noteq> None}"
proof -
  have inv: "entries_inv (um_entries m)"
    using assms by (simp add: unchecked_inv_def)
  have "{k. unchecked_find m k \<noteq> None} = set (entries_keys (um_entries m))"
    using entries.ids_find [OF inv] unfolding unchecked_find_def by blast
  then show "entries_len (um_entries m) = card {k. unchecked_find m k \<noteq> None}" "finite {k. unchecked_find m k \<noteq> None}"
    using distinct_card [OF entries.ids_distinct [OF inv]] by (simp_all add: entries_len_keys)
qed

lemma unchecked_put_length:
  assumes "unchecked_inv m" "ec_next_id (um_entries m) \<noteq> - 1"
  shows "entries_len (um_entries (unchecked_put d info m)) \<le> Suc (entries_len (um_entries m))"
proof -
  let ?k = "(d, hash (ui_block info))"
  have "{k. unchecked_find (unchecked_put d info m) k \<noteq> None} \<subseteq> insert ?k {k. unchecked_find m k \<noteq> None}"
    using unchecked_put_spec(3) [OF assms, of d info] by (auto simp del: split_paired_All split_paired_Ex)
  then have "card {k. unchecked_find (unchecked_put d info m) k \<noteq> None} \<le> card (insert ?k {k. unchecked_find m k \<noteq> None})"
    by (rule card_mono [rotated]) (simp add: unchecked_len_card(2) [OF assms(1)])
  also have "\<dots> \<le> Suc (card {k. unchecked_find m k \<noteq> None})"
    by (rule card_insert_le_m1) simp_all
  finally show ?thesis
    using unchecked_len_card(1) [OF assms(1)] unchecked_len_card(1) [OF unchecked_put_spec(1) [OF assms]] by simp
qed

lemma query_impl_length:
  assumes "unchecked_inv m" "query_impl d m = Some (infos, m')"
  shows "length infos = card {k. fst k = d \<and> unchecked_find m k \<noteq> None}"
proof -
  have inv: "entries_inv (um_entries m)"
    using assms(1) by (simp add: unchecked_inv_def)
  from for_each_with_dependency_spec [OF inv, of d] obtain es where
    es: "for_each_with_dependency d (um_entries m) = Some es" "distinct es"
      "\<And>e. e \<in> set es \<longleftrightarrow> fst (ue_key e) = d \<and> entries_find (um_entries m) (ue_key e) = Some (ue_info e)"
    by blast
  have "inj_on ue_key (set es)"
    by (rule inj_onI) (simp add: es(3))
  then have "length infos = card (ue_key ` set es)"
    using assms(2) es(1,2) by (auto simp: query_impl_def card_image distinct_card)
  also have "ue_key ` set es = {k. fst k = d \<and> unchecked_find m k \<noteq> None}"
  proof (intro set_eqI iffI)
    fix k
    assume "k \<in> {k. fst k = d \<and> unchecked_find m k \<noteq> None}"
    then obtain x where "fst k = d" "entries_find (um_entries m) k = Some x"
      by (auto simp: unchecked_find_def simp del: split_paired_All split_paired_Ex)
    then have "\<lparr>ue_key = k, ue_info = x\<rparr> \<in> set es"
      by (simp add: es(3))
    then show "k \<in> ue_key ` set es"
      by (force simp: image_iff)
  qed (auto simp: es(3) unchecked_find_def)
  finally show ?thesis .
qed

lemma process_queries_length:
  "unchecked_inv m \<Longrightarrow> \<not> um_disable_delete m \<Longrightarrow> process_queries ds m = Some (infos, m') \<Longrightarrow>
   length infos \<le> entries_len (um_entries m)"
proof (induction ds arbitrary: m infos)
  case (Cons d ds)
  from query_impl_spec [OF Cons.prems(1), of d] Cons.prems(2) obtain xs m1 where
    q: "query_impl d m = Some (xs, m1)" "unchecked_inv m1" "\<not> um_disable_delete m1"
      "unchecked_find m1 = (\<lambda>k. if fst k = d then None else unchecked_find m k)"
    by auto
  obtain ys where ys: "process_queries ds m1 = Some (ys, m')" "infos = xs @ ys"
    using Cons.prems(3) q(1) by (auto simp: bind_eq_Some_conv)
  let ?D = "{k. unchecked_find m k \<noteq> None}"
  have "length ys \<le> card {k. unchecked_find m1 k \<noteq> None}"
    using Cons.IH [OF q(2,3) ys(1)] unchecked_len_card(1) [OF q(2)] by simp
  also have "{k. unchecked_find m1 k \<noteq> None} = ?D - {k. fst k = d \<and> unchecked_find m k \<noteq> None}"
    by (auto simp: q(4) simp del: split_paired_All split_paired_Ex)
  also have "card \<dots> = card ?D - length xs"
    using unchecked_len_card(2) [OF Cons.prems(1)]
    by (subst card_Diff_subset) (auto simp: query_impl_length [OF Cons.prems(1) q(1)] simp del: split_paired_All
        split_paired_Ex elim: rev_finite_subset)
  finally have "length ys \<le> card ?D - length xs" .
  moreover have "length xs \<le> card ?D"
    unfolding query_impl_length [OF Cons.prems(1) q(1)]
    by (rule card_mono [OF unchecked_len_card(2) [OF Cons.prems(1)]]) auto
  ultimately show ?case
    using ys(2) unchecked_len_card(1) [OF Cons.prems(1)] by simp
qed simp

section \<open>Properties\<close>

text \<open>
  C26. A block that waits for a missing block is handed on when that block arrives: with room in the
  map, a block put under a dependency is among the blocks the next round of the thread gives back
  once the dependency is triggered, together with all others that wait for it, and none of them
  stays in the map.
\<close>

theorem triggered_block_is_delivered:
  assumes "unchecked_inv m" and "\<not> um_disable_delete m" and "um_buffer m = []"
    and "ec_next_id (um_entries m) \<noteq> - 1" and "0 < um_max_unchecked_blocks m"
    and "unchecked_find m (d, hash (ui_block info)) = None"
  shows "\<exists>infos m'. unchecked_run (unchecked_trigger d (unchecked_put d info m)) = Some (infos, m') \<and>
    info \<in> set infos \<and>
    set infos = {x. \<exists>h. unchecked_find (unchecked_put d info m) (d, h) = Some x} \<and>
    (\<forall>h. unchecked_find m' (d, h) = None) \<and>
    (\<forall>k. fst k \<noteq> d \<longrightarrow> unchecked_find m' k = unchecked_find (unchecked_put d info m) k) \<and> unchecked_inv m'"
proof -
  let ?p = "unchecked_put d info m"
  have p: "unchecked_inv (?p\<lparr>um_buffer := []\<rparr>)" "unchecked_find ?p (d, hash (ui_block info)) = Some info"
      "\<not> um_disable_delete (?p\<lparr>um_buffer := []\<rparr>)" "um_buffer ?p = []"
    using unchecked_put_spec(1,2) [OF assms(1,4), of d info] assms(2,3,5,6)
    by (simp_all add: unchecked_inv_def unchecked_put_def Let_def)
  have same: "unchecked_find (?p\<lparr>um_buffer := []\<rparr>) = unchecked_find ?p"
    by (simp add: unchecked_find_def)
  obtain infos m' where "process_queries [d] (?p\<lparr>um_buffer := []\<rparr>) = Some (infos, m')" "unchecked_inv m'"
      "set infos = {x. \<exists>k. fst k \<in> set [d] \<and> unchecked_find ?p k = Some x}"
      "unchecked_find m' = (\<lambda>k. if fst k \<in> set [d] then None else unchecked_find ?p k)"
    using process_queries_spec [OF p(1,3), of "[d]"] unfolding same by blast
  then show ?thesis
    using p(2,4) by (auto simp: unchecked_run_def unchecked_trigger_def simp del: process_queries.simps)
qed

theorem triggered_block_is_delivered_witness:
  "\<exists>info infos m'. unchecked_run (unchecked_trigger 7 (unchecked_put 7 info (unchecked_new 10 False))) = Some (infos, m') \<and>
     info \<in> set infos \<and> (\<forall>h. unchecked_find m' (7, h) = None)"
proof -
  have "unchecked_find (unchecked_new 10 False) (7, h) = None" for h
    by (simp add: unchecked_find_def unchecked_new_def entries_find_def entries_new_def)
  then show ?thesis
    using triggered_block_is_delivered [OF unchecked_inv_new, of 10 False 7]
    by (force simp: unchecked_new_def entries_new_def)
qed

end
