(* ===== verification/Block_Processor.thy ===== *)
theory Block_Processor
  imports Fair_Queue Unchecked_Map Ledger_Steps
begin

text \<open>
  The block processor (\<open>node/src/block_processing/block_processor.rs\<close>): blocks from peers and from
  the parts of the node wait in a fair queue with one queue per source and channel; a batch is taken
  from it and processed block by block against the ledger; a forced block first rolls back the
  block that competes with it; a block with a missing dependency goes to the unchecked map, and a
  block that was inserted triggers the blocks that wait for it, which the unchecked map gives back
  to the processor (\<open>node.rs\<close>). Callbacks, statistics and the waiting caller only get the results,
  so the results are returned. What other writers do to the ledger when the transaction is renewed
  between two blocks is the parameter \<open>refresh\<close>, and \<open>now\<close> is the clock, both for the n-th block
  of the batch. \<open>None\<close> is a panic.
\<close>

section \<open>Definitions\<close>

datatype block_source =
    SrcUnknown | SrcLive | SrcLiveOriginator | SrcBootstrap | SrcBootstrapLegacy | SrcUnchecked | SrcLocal | SrcForced

text \<open>The discriminants, which the derived order compares.\<close>

fun source_number :: "block_source \<Rightarrow> nat" where
  "source_number SrcUnknown = 0"
| "source_number SrcLive = 1"
| "source_number SrcLiveOriginator = 2"
| "source_number SrcBootstrap = 3"
| "source_number SrcBootstrapLegacy = 4"
| "source_number SrcUnchecked = 5"
| "source_number SrcLocal = 6"
| "source_number SrcForced = 7"

lemma source_number_inj: "source_number x = source_number y \<Longrightarrow> x = y"
  by (cases x; cases y) simp_all

instantiation block_source :: linorder
begin

definition less_eq_block_source :: "block_source \<Rightarrow> block_source \<Rightarrow> bool" where
  "less_eq_block_source x y \<longleftrightarrow> source_number x \<le> source_number y"

definition less_block_source :: "block_source \<Rightarrow> block_source \<Rightarrow> bool" where
  "less_block_source x y \<longleftrightarrow> source_number x < source_number y"

instance
  by standard (auto simp: less_eq_block_source_def less_block_source_def dest: source_number_inj)

end

type_synonym channel = nat
type_synonym block_origin = "block_source \<times> channel"

definition LOOPBACK :: channel where
  "LOOPBACK = 0"

definition all_sources :: "block_source list" where
  "all_sources =
     [SrcUnknown, SrcLive, SrcLiveOriginator, SrcBootstrap, SrcBootstrapLegacy, SrcUnchecked, SrcLocal, SrcForced]"

record block_context =
  bc_block :: block
  bc_saved_block :: "saved_block option"
  bc_source :: block_source

definition block_context_new :: "block \<Rightarrow> block_source \<Rightarrow> block_context" where
  "block_context_new b src = \<lparr>bc_block = b, bc_saved_block = None, bc_source = src\<rparr>"

record bp_config =
  bpc_max_peer_queue :: nat
  bpc_max_system_queue :: nat
  bpc_priority_live :: nat
  bpc_priority_bootstrap :: nat
  bpc_priority_local :: nat
  bpc_work_thresholds :: work_thresholds

definition bp_config_new :: "work_thresholds \<Rightarrow> bp_config" where
  "bp_config_new wt =
     \<lparr>bpc_max_peer_queue = 128, bpc_max_system_queue = 16 * 1024, bpc_priority_live = 1,
      bpc_priority_bootstrap = 8, bpc_priority_local = 16, bpc_work_thresholds = wt\<rparr>"

definition bp_max_size :: "bp_config \<Rightarrow> block_origin \<Rightarrow> nat" where
  "bp_max_size cfg origin =
     (case fst origin of
        SrcLive \<Rightarrow> bpc_max_peer_queue cfg
      | SrcLiveOriginator \<Rightarrow> bpc_max_peer_queue cfg
      | _ \<Rightarrow> bpc_max_system_queue cfg)"

definition bp_priority :: "bp_config \<Rightarrow> block_origin \<Rightarrow> nat" where
  "bp_priority cfg origin =
     (case fst origin of
        SrcLive \<Rightarrow> bpc_priority_live cfg
      | SrcLiveOriginator \<Rightarrow> bpc_priority_live cfg
      | SrcBootstrap \<Rightarrow> bpc_priority_bootstrap cfg
      | SrcBootstrapLegacy \<Rightarrow> bpc_priority_bootstrap cfg
      | SrcUnchecked \<Rightarrow> bpc_priority_bootstrap cfg
      | SrcLocal \<Rightarrow> bpc_priority_local cfg
      | SrcForced \<Rightarrow> 1
      | SrcUnknown \<Rightarrow> 1)"

type_synonym block_queue = "(block_origin, block_context) fair_queue"

record block_processor =
  bp_config :: bp_config
  bp_queue :: block_queue
  bp_ledger :: ledger
  bp_unchecked :: unchecked_map

definition block_processor_new :: "bp_config \<Rightarrow> ledger \<Rightarrow> unchecked_map \<Rightarrow> block_processor" where
  "block_processor_new cfg l u =
     \<lparr>bp_config = cfg, bp_queue = fq_new (bp_max_size cfg) (bp_priority cfg), bp_ledger = l, bp_unchecked = u\<rparr>"

definition bp_add_impl :: "block_context \<Rightarrow> channel \<Rightarrow> block_processor \<Rightarrow> bool \<times> block_processor" where
  "bp_add_impl ctx ch s =
     (case fq_push (bc_source ctx, ch) ctx (bp_queue s) of (added, q) \<Rightarrow> (added, s\<lparr>bp_queue := q\<rparr>))"

definition bp_add :: "block \<Rightarrow> block_source \<Rightarrow> channel \<Rightarrow> block_processor \<Rightarrow> bool \<times> block_processor" where
  "bp_add b src ch s =
     (if \<not> validate_entry_block (bpc_work_thresholds (bp_config s)) b then (False, s)
      else bp_add_impl (block_context_new b src) ch s)"

definition bp_process_active :: "block \<Rightarrow> block_processor \<Rightarrow> block_processor" where
  "bp_process_active b s = snd (bp_add b SrcLive LOOPBACK s)"

definition bp_force :: "block \<Rightarrow> block_processor \<Rightarrow> block_processor" where
  "bp_force b s = snd (bp_add_impl (block_context_new b SrcForced) LOOPBACK s)"

text \<open>\<open>next\<close> asserts that only forced blocks are queued under the source of forced blocks.\<close>

definition bp_next :: "block_queue \<Rightarrow> (block_context \<times> block_queue) option" where
  "bp_next q =
     (case fq_next q of
        Some (Some ((src, _), ctx), q') \<Rightarrow>
          if src = SrcForced \<and> bc_source ctx \<noteq> SrcForced then None else Some (ctx, q')
      | _ \<Rightarrow> None)"

fun bp_next_batch :: "nat \<Rightarrow> block_queue \<Rightarrow> (block_context list \<times> block_queue) option" where
  "bp_next_batch 0 q = Some ([], q)"
| "bp_next_batch (Suc n) q =
     (if fq_len q = 0 then Some ([], q)
      else case bp_next q of
        None \<Rightarrow> None
      | Some (ctx, q') \<Rightarrow> map_option (\<lambda>(ctxs, q''). (ctx # ctxs, q'')) (bp_next_batch n q'))"

text \<open>
  The ledger without the block that competes with the given one, and what the callback is told: the
  blocks rolled back and the competing block. An error that the rollback returns is logged; a panic
  in the rollback is a panic here.
\<close>

definition rollback_competitor ::
  "ledger_constants \<Rightarrow> u64 \<Rightarrow> block \<Rightarrow> ledger \<Rightarrow> (ledger \<times> (saved_block list \<times> saved_block) option) option" where
  "rollback_competitor c now b l =
     (case block_successor_by_qualified_root l (qualified_root b) of
        None \<Rightarrow> Some (l, None)
      | Some successor \<Rightarrow>
          (case get_block l successor of
             None \<Rightarrow> None
           | Some successor_block \<Rightarrow>
               if successor \<noteq> hash b
               then (case roll_back c now l successor of
                       None \<Rightarrow> None
                     | Some (Inr (l', rolled_back)) \<Rightarrow> Some (l', Some (rolled_back, successor_block))
                     | Some (Inl (e, l', _)) \<Rightarrow>
                         if e = RollbackPanic then None else Some (l', Some ([], successor_block)))
               else Some (l, None)))"

definition queue_unchecked :: "u256 \<Rightarrow> unchecked_map \<Rightarrow> unchecked_map" where
  "queue_unchecked h u = unchecked_trigger h u"

definition process_one ::
  "ed25519_verify \<Rightarrow> ledger_constants \<Rightarrow> u64 \<Rightarrow> block_context \<Rightarrow> ledger \<times> unchecked_map
    \<Rightarrow> (block_status \<times> block_context \<times> ledger \<times> unchecked_map) option" where
  "process_one verify c now ctx lu =
     (let b = bc_block ctx; u = snd lu; info = \<lparr>ui_block = b, ui_modified = now\<rparr>
      in case process verify c now (fst lu) b of
        None \<Rightarrow> None
      | Some (Inr (saved, l')) \<Rightarrow>
          (let u1 = queue_unchecked (hash b) u;
               u2 = (if block_type (svb_block saved) = BT_LegacySend
                        \<or> block_type (svb_block saved) = BT_State \<and> saved_is_send saved \<and> saved_epoch saved < Epoch2
                     then queue_unchecked (destination_or_link (svb_block saved)) u1 else u1)
           in Some (Progress, ctx\<lparr>bc_saved_block := Some saved\<rparr>, l', u2))
      | Some (Inl Progress) \<Rightarrow> None
      | Some (Inl GapPrevious) \<Rightarrow> Some (GapPrevious, ctx, fst lu, unchecked_put (previous b) info u)
      | Some (Inl GapSource) \<Rightarrow>
          Some (GapSource, ctx, fst lu,
            unchecked_put (unwrap_or (source_field b) (unwrap_or (link_field b) 0)) info u)
      | Some (Inl GapEpochOpenPending) \<Rightarrow>
          (case account_field b of
             None \<Rightarrow> None
           | Some a \<Rightarrow> Some (GapEpochOpenPending, ctx, fst lu, unchecked_put a info u))
      | Some (Inl e) \<Rightarrow> Some (e, ctx, fst lu, u))"

definition renew :: "(nat \<Rightarrow> ledger \<Rightarrow> ledger option) \<Rightarrow> nat \<Rightarrow> ledger \<Rightarrow> ledger" where
  "renew refresh n l = unwrap_or (refresh n l) l"

fun process_blocks ::
  "ed25519_verify \<Rightarrow> ledger_constants \<Rightarrow> (nat \<Rightarrow> ledger \<Rightarrow> ledger option) \<Rightarrow> (nat \<Rightarrow> u64) \<Rightarrow> nat
    \<Rightarrow> block_context list \<Rightarrow> ledger \<times> unchecked_map
    \<Rightarrow> ((block_status \<times> block_context) list \<times> ledger \<times> unchecked_map) option" where
  "process_blocks verify c refresh now n [] lu = Some ([], lu)"
| "process_blocks verify c refresh now n (ctx # ctxs) lu =
     do {
       let l = renew refresh n (fst lu);
       (l, _) \<leftarrow> (if bc_source ctx = SrcForced then rollback_competitor c (now n) (bc_block ctx) l else Some (l, None));
       (result, ctx, lu) \<leftarrow> process_one verify c (now n) ctx (l, snd lu);
       (processed, lu) \<leftarrow> process_blocks verify c refresh now (Suc n) ctxs lu;
       Some ((result, ctx) # processed, lu)
     }"

definition process_batch ::
  "ed25519_verify \<Rightarrow> ledger_constants \<Rightarrow> (nat \<Rightarrow> ledger \<Rightarrow> ledger option) \<Rightarrow> (nat \<Rightarrow> u64) \<Rightarrow> block_processor
    \<Rightarrow> ((block_status \<times> block_context) list \<times> block_processor) option" where
  "process_batch verify c refresh now s =
     do {
       (batch, q) \<leftarrow> bp_next_batch 256 (bp_queue s);
       (processed, lu) \<leftarrow> process_blocks verify c refresh now 0 batch (bp_ledger s, bp_unchecked s);
       Some (processed, s\<lparr>bp_queue := q, bp_ledger := fst lu, bp_unchecked := snd lu\<rparr>)
     }"

text \<open>
  A round of the thread of the unchecked map, whose observer adds the blocks to the processor, and
  the removal of the queues of closed channels.
\<close>

definition requeue :: "unchecked_info list \<Rightarrow> block_processor \<Rightarrow> block_processor" where
  "requeue infos s = fold (\<lambda>i s. snd (bp_add (ui_block i) SrcUnchecked LOOPBACK s)) infos s"

definition unchecked_round :: "block_processor \<Rightarrow> block_processor option" where
  "unchecked_round s =
     map_option (\<lambda>(infos, u). requeue infos (s\<lparr>bp_unchecked := u\<rparr>)) (unchecked_run (bp_unchecked s))"

fun remove_queues :: "block_origin list \<Rightarrow> block_queue \<Rightarrow> block_queue option" where
  "remove_queues [] q = Some q"
| "remove_queues (k # ks) q = Option.bind (fq_remove k q) (remove_queues ks)"

definition clean_up_dead_channels :: "channel list \<Rightarrow> block_processor \<Rightarrow> block_processor option" where
  "clean_up_dead_channels chs s =
     map_option (\<lambda>q. s\<lparr>bp_queue := q\<rparr>)
       (remove_queues (concat (map (\<lambda>ch. map (\<lambda>src. (src, ch)) all_sources) chs)) (bp_queue s))"

section \<open>The queue\<close>

text \<open>A block is queued under its own source.\<close>

definition origins_ok :: "block_queue \<Rightarrow> bool" where
  "origins_ok q \<longleftrightarrow> (\<forall>k. \<forall>ctx\<in>set (fq_contents q k). bc_source ctx = fst k)"

lemma bp_next_batch_fair:
  "fq_inv q \<Longrightarrow> origins_ok q \<Longrightarrow>
   bp_next_batch n q = map_option (\<lambda>(xs, q'). (map snd xs, q')) (fq_next_batch q n)"
proof (induction n arbitrary: q)
  case (Suc n)
  show ?case
  proof (cases "fq_len q")
    case 0
    then show ?thesis
      by (simp add: fq_next_batch_def)
  next
    case len: (Suc m)
    then obtain k x xs q' where
      n: "fq_next q = Some (Some (k, x), q')" "fq_contents q k = x # xs"
        "fq_contents q' = (fq_contents q)(k := xs)" "fq_inv q'" "fq_len q' = m"
      using fair.next_some [OF Suc.prems(1)] by auto
    have "\<forall>ctx\<in>set (fq_contents q j). bc_source ctx = fst j" for j
      using Suc.prems(2) by (simp add: origins_ok_def del: split_paired_All)
    then have src: "bc_source x = fst k" "origins_ok q'"
      using n(2) by (fastforce simp: origins_ok_def n(3) simp del: split_paired_All)+
    have "bp_next q = Some (x, q')"
      using src(1) by (cases k) (simp add: bp_next_def n(1))
    moreover have "fq_next_batch q (Suc n) = map_option (\<lambda>(xs, q''). ((k, x) # xs, q'')) (fq_next_batch q' n)"
      by (simp add: fq_next_batch_def len n(1,5))
    ultimately show ?thesis
      using Suc.IH [OF n(4) src(2)] len
      by (simp add: option.map_comp comp_def case_prod_unfold)
  qed
qed (simp add: fq_next_batch_def)

lemma origins_ok_batch:
  assumes "origins_ok q" "\<forall>k. fq_contents q k = map snd (filter (\<lambda>x. fst x = k) xs) @ fq_contents q' k"
  shows "origins_ok q'" "\<forall>(k, ctx)\<in>set xs. bc_source ctx = fst k"
proof -
  have mem: "\<forall>ctx\<in>set (map snd (filter (\<lambda>x. fst x = k) xs) @ fq_contents q' k). bc_source ctx = fst k" for k
    using assms unfolding origins_ok_def by metis
  then show "origins_ok q'"
    by (simp add: origins_ok_def del: split_paired_All)
  show "\<forall>(k, ctx)\<in>set xs. bc_source ctx = fst k"
    using mem by (fastforce simp: image_iff)
qed

lemma origins_ok_push:
  assumes "fq_inv q" "origins_ok q" "fst k = bc_source ctx" "fq_push k ctx q = (added, q')"
  shows "fq_inv q'" "origins_ok q'"
  using fq_push_spec [OF assms(1,4)] assms(2,3) by (auto simp: origins_ok_def simp del: split_paired_All)

section \<open>Rules and their errors\<close>

lemma check_all_Inl: "check_all rs = Inl e \<Longrightarrow> Inl e \<in> set rs"
  by (induction rs) (auto simp: and_then_eq_Inl)

text \<open>
  No rule reports \<open>Progress\<close>, and only an epoch block is told that nothing is receivable for it.
\<close>

definition plausible :: "block_validator \<Rightarrow> block_status \<Rightarrow> bool" where
  "plausible v e \<longleftrightarrow> e \<noteq> Progress \<and> (e = GapEpochOpenPending \<longrightarrow> is_epoch_block v)"

lemma rule_errors:
  "ensure_epoch_block_candidate_is_signed_by_owner_or_epoch_account verify v = Inl e \<Longrightarrow> plausible v e"
  "ensure_previous_block_exists_for_epoch_block_candidate v = Inl e \<Longrightarrow> plausible v e"
  "ensure_block_does_not_exist_yet v = Inl e \<Longrightarrow> plausible v e"
  "ensure_valid_predecessor v = Inl e \<Longrightarrow> plausible v e"
  "ensure_valid_signature verify v = Inl e \<Longrightarrow> plausible v e"
  "ensure_block_is_not_for_burn_account v = Inl e \<Longrightarrow> plausible v e"
  "ensure_account_exists_for_none_open_block v = Inl e \<Longrightarrow> plausible v e"
  "ensure_no_double_account_open v = Inl e \<Longrightarrow> plausible v e"
  "ensure_previous_block_exists v = Inl e \<Longrightarrow> plausible v e"
  "ensure_previous_block_is_account_head v = Inl e \<Longrightarrow> plausible v e"
  "ensure_open_block_has_link v = Inl e \<Longrightarrow> plausible v e"
  "ensure_no_reveive_balance_change_without_link v = Inl e \<Longrightarrow> plausible v e"
  "ensure_source_block_exists v = Inl e \<Longrightarrow> plausible v e"
  "ensure_receive_block_receives_pending_amount v = Inl e \<Longrightarrow> plausible v e"
  "ensure_legacy_source_is_epoch_0 v = Inl e \<Longrightarrow> plausible v e"
  "ensure_sufficient_work v = Inl e \<Longrightarrow> plausible v e"
  "ensure_no_negative_amount_send v = Inl e \<Longrightarrow> plausible v e"
  "ensure_epoch_block_does_not_change_representative v = Inl e \<Longrightarrow> plausible v e"
  "ensure_epoch_open_has_burn_account_as_rep v = Inl e \<Longrightarrow> plausible v e"
  "ensure_epoch_open_has_pending_entry v = Inl e \<Longrightarrow> plausible v e"
  "ensure_valid_epoch_for_unopened_account v = Inl e \<Longrightarrow> plausible v e"
  "ensure_epoch_upgrade_is_sequential_for_existing_account v = Inl e \<Longrightarrow> plausible v e"
  "ensure_epoch_block_does_not_change_balance v = Inl e \<Longrightarrow> plausible v e"
  unfolding ensure_epoch_block_candidate_is_signed_by_owner_or_epoch_account_def
    ensure_previous_block_exists_for_epoch_block_candidate_def ensure_block_does_not_exist_yet_def
    ensure_valid_predecessor_def ensure_valid_signature_def ensure_block_is_not_for_burn_account_def
    ensure_account_exists_for_none_open_block_def ensure_no_double_account_open_def
    ensure_previous_block_exists_def ensure_previous_block_is_account_head_def ensure_open_block_has_link_def
    ensure_no_reveive_balance_change_without_link_def ensure_source_block_exists_def
    ensure_receive_block_receives_pending_amount_def ensure_legacy_source_is_epoch_0_def
    ensure_sufficient_work_def ensure_no_negative_amount_send_def
    ensure_epoch_block_does_not_change_representative_def ensure_epoch_open_has_burn_account_as_rep_def
    ensure_epoch_open_has_pending_entry_def ensure_valid_epoch_for_unopened_account_def
    ensure_epoch_upgrade_is_sequential_for_existing_account_def ensure_epoch_block_does_not_change_balance_def
    plausible_def
  by (auto simp: ensure_def split: if_splits block.splits option.splits)

lemma rule_group_errors:
  "epoch_block_pre_checks verify v = Inl e \<Longrightarrow> plausible v e"
  "ensure_previous_block_is_correct v = Inl e \<Longrightarrow> plausible v e"
  "ensure_pending_receive_is_correct v = Inl e \<Longrightarrow> plausible v e"
  "ensure_valid_epoch_block v = Inl e \<Longrightarrow> plausible v e"
  unfolding epoch_block_pre_checks_def ensure_previous_block_is_correct_def
    ensure_pending_receive_is_correct_def ensure_valid_epoch_block_def
  by (auto simp: and_then_eq_Inl dest: rule_errors)

lemma validate_errors:
  assumes "validate verify v = Inl e"
  shows "plausible v e"
proof -
  have "Inl e \<in> set
     [epoch_block_pre_checks verify v, ensure_block_does_not_exist_yet v, ensure_valid_predecessor v,
      ensure_valid_signature verify v, ensure_block_is_not_for_burn_account v,
      ensure_account_exists_for_none_open_block v, ensure_no_double_account_open v,
      ensure_previous_block_is_correct v, ensure_open_block_has_link v,
      ensure_no_reveive_balance_change_without_link v, ensure_pending_receive_is_correct v,
      ensure_sufficient_work v, ensure_no_negative_amount_send v, ensure_valid_epoch_block v]"
    using assms by (intro check_all_Inl) (simp add: validate_def and_then_eq_Inl del: check_all.simps)
  then show ?thesis
    by (auto dest: rule_errors [OF sym] rule_group_errors [OF sym])
qed

lemma epoch_block_account: "is_epoch_block v \<Longrightarrow> account_field (bv_block v) \<noteq> None"
  by (cases "bv_block v") (auto simp: is_epoch_block_def block_base_defs)

section \<open>Processing one block\<close>

lemma competitor_stored:
  assumes "ledger_ok c l" and "block_successor_by_qualified_root l (qualified_root b) = Some s"
  shows "block_exists l s"
proof -
  note inv = ledger_okD(1) [OF assms(1)]
  show ?thesis
  proof (cases "previous b = 0")
    case True
    then obtain i where "get_account l (root b) = Some i" "s = ai_open_block i"
      using assms(2) by (auto simp: block_successor_by_qualified_root_def qualified_root_def)
    then show ?thesis
      using chain_invD(20) [OF inv] by (auto simp: opens_ok_def get_account_def block_exists_def)
  next
    case False
    then obtain p where "fmlookup (l_block l) (previous b) = Some p" "sd_successor (svb_sideband p) = s"
        "sd_successor (svb_sideband p) \<noteq> 0"
      using assms(2)
      by (auto simp: block_successor_by_qualified_root_def qualified_root_def block_successor_def
          saved_successor_def bind_eq_Some_conv split: if_splits)
    then show ?thesis
      using chain_invD(5) [OF inv] by (fastforce simp: ends_ok_def block_exists_def)
  qed
qed

lemma rollback_competitor_ok:
  assumes "ledger_ok c l"
  shows "\<exists>l' r. rollback_competitor c now b l = Some (l', r) \<and> ledger_ok c l' \<and>
    total_supply l' = total_supply l \<and> advances l l' \<and>
    (\<forall>s. block_successor_by_qualified_root l (qualified_root b) = Some s \<longrightarrow> s \<noteq> hash b \<longrightarrow>
       block_exists l' s \<longrightarrow> (\<exists>sb. r = Some ([], sb)))"
proof (cases "block_successor_by_qualified_root l (qualified_root b)")
  case None
  then show ?thesis
    using assms by (simp add: rollback_competitor_def)
next
  case (Some s)
  note st = competitor_stored [OF assms Some]
  then obtain sb where sb: "get_block l s = Some sb"
    by (auto simp: block_exists_def get_block_def)
  obtain res where res: "roll_back c now l s = Some res" "rollback_ok c l s [] res"
    using roll_back_correct [OF ledger_okD(1,3) [OF assms] st] by blast
  show ?thesis
  proof (cases res)
    case (Inl x)
    then obtain l' bs where x: "res = Inl (BlockIsConfirmed, l', bs)"
      using res(2) by (cases x) (auto simp: rollback_ok_def)
    then show ?thesis
      using roll_back_ledger_ok [OF assms res(1), of l' bs BlockIsConfirmed] assms res(1) Some sb
      by (auto simp: rollback_competitor_def)
  next
    case (Inr x)
    then obtain l' bs where x: "res = Inr (l', bs)"
      by (cases x) auto
    moreover have "\<not> block_exists l' s"
      using res(2) x by (simp add: rollback_ok_def)
    ultimately show ?thesis
      using roll_back_ledger_ok [OF assms res(1), of l' bs] assms res(1) Some sb
      by (auto simp: rollback_competitor_def)
  qed
qed

lemma unchecked_put_next_id:
  "ec_next_id (um_entries (unchecked_put d i u)) = ec_next_id (um_entries u) \<or>
   ec_next_id (um_entries (unchecked_put d i u)) = ec_next_id (um_entries u) + 1"
  by (simp add: unchecked_put_def Let_def entries_insert_def entries_pop_front_def
      split: option.splits list.splits)

lemma queue_unchecked_fields [simp]:
  "um_entries (queue_unchecked h u) = um_entries u" "um_buffer (queue_unchecked h u) = um_buffer u @ [h]"
  "um_disable_delete (queue_unchecked h u) = um_disable_delete u"
  "um_max_unchecked_blocks (queue_unchecked h u) = um_max_unchecked_blocks u"
  by (simp_all add: queue_unchecked_def unchecked_trigger_def)

lemma unchecked_put_fields [simp]:
  "um_buffer (unchecked_put d i u) = um_buffer u" "um_disable_delete (unchecked_put d i u) = um_disable_delete u"
  "um_max_unchecked_blocks (unchecked_put d i u) = um_max_unchecked_blocks u"
  by (simp_all add: unchecked_put_def Let_def)

definition room_for_ids :: "nat \<Rightarrow> unchecked_map \<Rightarrow> bool" where
  "room_for_ids n u \<longleftrightarrow> unat (ec_next_id (um_entries u)) + n < 2 ^ 64"

lemma room_for_ids_put:
  assumes "room_for_ids (Suc n) u"
  shows "room_for_ids n (unchecked_put d i u)" "room_for_ids n u" "ec_next_id (um_entries u) \<noteq> - 1"
proof -
  have b: "unat (ec_next_id (um_entries u)) + Suc n < 2 ^ 64"
    using assms by (simp add: room_for_ids_def)
  then show ne: "ec_next_id (um_entries u) \<noteq> - 1"
    by (auto simp: unsigned_minus_1_eq_mask mask_eq_exp_minus_1)
  then have "unat (ec_next_id (um_entries u) + 1) = Suc (unat (ec_next_id (um_entries u)))"
    by (simp add: unat_Suc_word)
  then show "room_for_ids n (unchecked_put d i u)"
    using unchecked_put_next_id [of d i u] b by (auto simp: room_for_ids_def)
  show "room_for_ids n u"
    using b by (simp add: room_for_ids_def)
qed

text \<open>
  What processing one block does, for every status: the ledger changes only if the block is inserted,
  which also triggers the blocks that wait for it; a block with a missing dependency is put into the
  unchecked map; everything else changes nothing.
\<close>

lemma process_one_spec:
  assumes "ledger_ok c l" and "accepted verify c now l (bc_block ctx) \<Longrightarrow> good_step verify c now l (bc_block ctx)"
  shows "\<exists>r ctx' l' u'. process_one verify c now ctx (l, u) = Some (r, ctx', l', u') \<and>
    ledger_ok c l' \<and> total_supply l' = total_supply l \<and> advances l l' \<and>
    bc_block ctx' = bc_block ctx \<and> bc_source ctx' = bc_source ctx \<and>
    (if r = Progress
     then block_exists l' (hash (bc_block ctx)) \<and> um_entries u' = um_entries u \<and> um_disable_delete u' = um_disable_delete u \<and>
       um_max_unchecked_blocks u' = um_max_unchecked_blocks u \<and>
       (\<exists>ds. um_buffer u' = um_buffer u @ hash (bc_block ctx) # ds)
     else l' = l \<and> ctx' = ctx \<and> process verify c now l (bc_block ctx) = Some (Inl r) \<and>
       (u' = u \<or> (\<exists>d. u' = unchecked_put d \<lparr>ui_block = bc_block ctx, ui_modified = now\<rparr> u)) \<and>
       (r = GapPrevious \<longrightarrow> u' = unchecked_put (previous (bc_block ctx)) \<lparr>ui_block = bc_block ctx, ui_modified = now\<rparr> u))"
proof (cases "validate verify (create_validator c now l (bc_block ctx))")
  case (Inl e)
  let ?b = "bc_block ctx"
  have pl: "plausible (create_validator c now l ?b) e"
    by (rule validate_errors [OF Inl])
  have p: "process verify c now l ?b = Some (Inl e)"
    by (simp add: process_def Inl)
  have "account_field ?b \<noteq> None" if "e = GapEpochOpenPending"
    using epoch_block_account [of "create_validator c now l ?b"] pl that
    by (simp add: plausible_def create_validator_def Let_def)
  then show ?thesis
    using pl assms(1) p by (intro exI [of _ e]) (cases e; auto simp: process_one_def Let_def plausible_def)
next
  case (Inr ins)
  let ?b = "bc_block ctx"
  have good: "good_step verify c now l ?b"
    using assms(2) Inr by (simp add: accepted_def)
  obtain w where w: "process verify c now l ?b =
      Some (Inr (new_saved (create_validator c now l ?b), ledger_after (create_validator c now l ?b) w l))"
    using process_chain_inv [OF good ledger_okD(1) [OF assms(1)]] by metis
  from process_ledger_ok [OF good assms(1) w] show ?thesis
    using w blocks_after_lookup [OF good_stepD(1) [OF good], of "hash ?b"]
    by (auto simp: process_one_def Let_def block_exists_def ledger_after_def)
qed

section \<open>Processing a batch\<close>

text \<open>
  \<open>good_blocks\<close>: every block of the batch that the validator accepts, in the ledger it is processed
  in, is \<open>regular\<close>.
\<close>

fun good_blocks ::
  "ed25519_verify \<Rightarrow> ledger_constants \<Rightarrow> (nat \<Rightarrow> ledger \<Rightarrow> ledger option) \<Rightarrow> (nat \<Rightarrow> u64) \<Rightarrow> nat
    \<Rightarrow> block_context list \<Rightarrow> ledger \<times> unchecked_map \<Rightarrow> bool" where
  "good_blocks verify c refresh now n [] lu \<longleftrightarrow> True"
| "good_blocks verify c refresh now n (ctx # ctxs) lu \<longleftrightarrow>
     (let l = renew refresh n (fst lu)
      in case (if bc_source ctx = SrcForced then rollback_competitor c (now n) (bc_block ctx) l else Some (l, None)) of
        None \<Rightarrow> True
      | Some (l, _) \<Rightarrow>
          (accepted verify c (now n) l (bc_block ctx) \<longrightarrow> regular c (now n) l (bc_block ctx)) \<and>
          (case process_one verify c (now n) ctx (l, snd lu) of
             None \<Rightarrow> True
           | Some (_, _, lu) \<Rightarrow> good_blocks verify c refresh now (Suc n) ctxs lu))"

lemma renew_ok:
  assumes "env_ok c refresh" and "ledger_ok c l"
  shows "ledger_ok c (renew refresh n l) \<and> advances l (renew refresh n l)"
  using assms by (cases "refresh n l") (auto simp: renew_def env_ok_def advances_def)

lemma process_blocks_ok:
  "ledger_ok c (fst lu) \<Longrightarrow> env_ok c refresh \<Longrightarrow> unchecked_inv (snd lu) \<Longrightarrow> room_for_ids (length ctxs) (snd lu) \<Longrightarrow>
   good_blocks verify c refresh now n ctxs lu \<Longrightarrow>
   \<exists>processed lu'. process_blocks verify c refresh now n ctxs lu = Some (processed, lu') \<and>
     ledger_ok c (fst lu') \<and> advances (fst lu) (fst lu') \<and> unchecked_inv (snd lu') \<and>
     map (\<lambda>x. bc_block (snd x)) processed = map bc_block ctxs"
proof (induction ctxs arbitrary: n lu)
  case (Cons ctx ctxs)
  obtain l u where lu: "lu = (l, u)"
    by fastforce
  let ?l = "renew refresh n l" and ?b = "bc_block ctx"
  have r: "ledger_ok c ?l" "advances l ?l"
    using renew_ok [OF Cons.prems(2), of l n] Cons.prems(1) by (simp_all add: lu)
  obtain l1 x where l1: "(if bc_source ctx = SrcForced then rollback_competitor c (now n) ?b ?l else Some (?l, None)) = Some (l1, x)"
      "ledger_ok c l1" "advances ?l l1"
    using rollback_competitor_ok [OF r(1), of "now n" ?b] r(1) by (cases "bc_source ctx = SrcForced") auto
  have good: "accepted verify c (now n) l1 ?b \<Longrightarrow> good_step verify c (now n) l1 ?b"
    using Cons.prems(5) l1(1) by (simp add: lu Let_def good_step_def del: if_split)
  obtain res ctx' l2 u2 where spec: "process_one verify c (now n) ctx (l1, u) = Some (res, ctx', l2, u2)"
      "ledger_ok c l2" "advances l1 l2" "bc_block ctx' = ?b"
      "if res = Progress
       then block_exists l2 (hash ?b) \<and> um_entries u2 = um_entries u \<and> um_disable_delete u2 = um_disable_delete u \<and>
         um_max_unchecked_blocks u2 = um_max_unchecked_blocks u \<and> (\<exists>ds. um_buffer u2 = um_buffer u @ hash ?b # ds)
       else l2 = l1 \<and> ctx' = ctx \<and> process verify c (now n) l1 ?b = Some (Inl res) \<and>
         (u2 = u \<or> (\<exists>d. u2 = unchecked_put d \<lparr>ui_block = ?b, ui_modified = now n\<rparr> u)) \<and>
         (res = GapPrevious \<longrightarrow> u2 = unchecked_put (previous ?b) \<lparr>ui_block = ?b, ui_modified = now n\<rparr> u)"
    using process_one_spec [OF l1(2) good, of u] by blast
  have room: "room_for_ids (Suc (length ctxs)) u" and u: "unchecked_inv u"
    using Cons.prems(3,4) by (simp_all add: lu)
  have u2: "unchecked_inv u2" "room_for_ids (length ctxs) u2"
    using spec(5) u room_for_ids_put [OF room] unchecked_put_spec(1) [OF u]
    by (auto simp: unchecked_inv_def room_for_ids_def split: if_splits)
  have rest: "good_blocks verify c refresh now (Suc n) ctxs (l2, u2)"
    using Cons.prems(5) l1(1) spec(1) by (simp add: lu Let_def del: if_split)
  obtain processed lu' where p: "process_blocks verify c refresh now (Suc n) ctxs (l2, u2) = Some (processed, lu')"
      "ledger_ok c (fst lu')" "advances l2 (fst lu')" "unchecked_inv (snd lu')"
      "map (\<lambda>x. bc_block (snd x)) processed = map bc_block ctxs"
    using Cons.IH [of "(l2, u2)" "Suc n"] spec(2) Cons.prems(2) u2 rest by auto
  have "advances l (fst lu')"
    using r(2) l1(3) spec(3) p(3) by (meson advances_trans)
  then show ?case
    using l1(1) spec(1,4) p by (simp add: lu Let_def del: if_split)
qed (simp add: advances_refl)

section \<open>The processor\<close>

definition bp_inv :: "ledger_constants \<Rightarrow> block_processor \<Rightarrow> bool" where
  "bp_inv c s \<longleftrightarrow>
     fq_inv (bp_queue s) \<and> fq_max_size_query (bp_queue s) = bp_max_size (bp_config s) \<and> origins_ok (bp_queue s) \<and>
     ledger_ok c (bp_ledger s) \<and> unchecked_inv (bp_unchecked s)"

lemma bp_inv_new:
  assumes "ledger_ok c l" "unchecked_inv u"
  shows "bp_inv c (block_processor_new cfg l u)"
  using assms by (simp add: bp_inv_def block_processor_new_def fq_inv_new origins_ok_def)

lemma bp_add_impl_spec:
  assumes "bp_inv c s"
  shows "bp_inv c (snd (bp_add_impl ctx ch s))"
    "bp_config (snd (bp_add_impl ctx ch s)) = bp_config s"
    "fq_contents (bp_queue (snd (bp_add_impl ctx ch s))) =
       (let k = (bc_source ctx, ch); xs = fq_contents (bp_queue s) k
        in if length xs < bp_max_size (bp_config s) k then (fq_contents (bp_queue s))(k := xs @ [ctx]) else fq_contents (bp_queue s))"
proof -
  obtain added q where p: "fq_push (bc_source ctx, ch) ctx (bp_queue s) = (added, q)"
    by fastforce
  have inv: "fq_inv (bp_queue s)" "origins_ok (bp_queue s)" "fq_max_size_query (bp_queue s) = bp_max_size (bp_config s)"
    using assms by (simp_all add: bp_inv_def)
  have cap: "fq_max_size_query q = bp_max_size (bp_config s)"
    using fq_push_capacity [of "(bc_source ctx, ch)" ctx "bp_queue s"] p inv(3) by simp
  show "bp_inv c (snd (bp_add_impl ctx ch s))" "bp_config (snd (bp_add_impl ctx ch s)) = bp_config s"
    using assms cap origins_ok_push [OF inv(1,2) _ p] by (simp_all add: bp_add_impl_def p bp_inv_def)
  show "fq_contents (bp_queue (snd (bp_add_impl ctx ch s))) =
       (let k = (bc_source ctx, ch); xs = fq_contents (bp_queue s) k
        in if length xs < bp_max_size (bp_config s) k then (fq_contents (bp_queue s))(k := xs @ [ctx]) else fq_contents (bp_queue s))"
    using fq_push_spec(2,3) [OF inv(1) p] by (auto simp: bp_add_impl_def p inv(3) Let_def)
qed

lemma bp_add_inv: "bp_inv c s \<Longrightarrow> bp_inv c (snd (bp_add b src ch s))"
  by (simp add: bp_add_def bp_add_impl_spec)

lemma bp_force_inv: "bp_inv c s \<Longrightarrow> bp_inv c (bp_force b s)"
  by (simp add: bp_force_def bp_add_impl_spec)

lemma process_batch_spec:
  assumes "bp_inv c s" and "env_ok c refresh" and "room_for_ids 256 (bp_unchecked s)"
    and good: "\<And>batch q. bp_next_batch 256 (bp_queue s) = Some (batch, q) \<Longrightarrow>
      good_blocks verify c refresh now 0 batch (bp_ledger s, bp_unchecked s)"
  shows "\<exists>processed s' xs. process_batch verify c refresh now s = Some (processed, s') \<and> bp_inv c s' \<and>
    advances (bp_ledger s) (bp_ledger s') \<and> length processed = min (fq_len (bp_queue s)) 256 \<and>
    map (\<lambda>x. bc_block (snd x)) processed = map (\<lambda>x. bc_block (snd x)) xs \<and>
    (\<forall>k. fq_contents (bp_queue s) k = map snd (filter (\<lambda>x. fst x = k) xs) @ fq_contents (bp_queue s') k)"
proof -
  have inv: "fq_inv (bp_queue s)" "origins_ok (bp_queue s)" "ledger_ok c (bp_ledger s)" "unchecked_inv (bp_unchecked s)"
    using assms(1) by (simp_all add: bp_inv_def)
  obtain xs q where b: "fq_next_batch (bp_queue s) 256 = Some (xs, q)" "length xs = min (fq_len (bp_queue s)) 256"
      "fq_inv q" "\<forall>k. fq_contents (bp_queue s) k = map snd (filter (\<lambda>x. fst x = k) xs) @ fq_contents q k"
    using fq_next_batch_spec [OF inv(1), of 256] by blast
  have n: "bp_next_batch 256 (bp_queue s) = Some (map snd xs, q)"
    by (simp only: bp_next_batch_fair [OF inv(1,2)] b(1)) simp
  have "room_for_ids (length (map snd xs)) (bp_unchecked s)"
    using assms(3) b(2) by (simp add: room_for_ids_def)
  then obtain processed lu where p: "process_blocks verify c refresh now 0 (map snd xs) (bp_ledger s, bp_unchecked s) = Some (processed, lu)"
      "ledger_ok c (fst lu)" "advances (bp_ledger s) (fst lu)" "unchecked_inv (snd lu)"
      "map (\<lambda>x. bc_block (snd x)) processed = map bc_block (map snd xs)"
    using process_blocks_ok [OF _ assms(2) _ _ good [OF n]] inv(3,4) by auto
  have "fq_max_size_query q = fq_max_size_query (bp_queue s)"
    using take_batch_capacity b(1) unfolding fq_next_batch_def by blast
  moreover have "length processed = length xs"
    using p(5) by (metis length_map)
  ultimately show ?thesis
    using assms(1) b n p origins_ok_batch(1) [OF inv(2) b(4)]
    by (intro exI [of _ processed] exI [of _ "s\<lparr>bp_queue := q, bp_ledger := fst lu, bp_unchecked := snd lu\<rparr>"] exI [of _ xs])
      (simp add: process_batch_def bp_inv_def comp_def del: bp_next_batch.simps)
qed

section \<open>Forks\<close>

text \<open>A ledger stores at most one block for a root: a stored block is the successor under its own root.\<close>

lemma open_root: "is_open (svb_block y) \<Longrightarrow> previous (svb_block y) = 0 \<Longrightarrow> root (svb_block y) = saved_account y"
  by (cases "svb_block y") (simp_all add: block_base_defs saved_account_def is_open_iff_previous)

lemma root_previous: "previous b \<noteq> 0 \<Longrightarrow> root b = previous b"
  by (cases b) (simp_all add: block_base_defs)

lemma stored_is_successor:
  assumes "chain_inv c l" and "fmlookup (l_block l) h = Some y"
  shows "block_successor_by_qualified_root l (qualified_root (svb_block y)) = Some h"
proof (cases "previous (svb_block y) = 0")
  case False
  then obtain p where p: "fmlookup (l_block l) (previous (svb_block y)) = Some p" "sd_successor (svb_sideband p) = h"
    using chain_invD(4) [OF assms(1)] assms(2) unfolding links_ok_def by metis
  moreover have "h \<noteq> 0"
    using chain_invD(18) [OF assms(1)] assms(2) by auto
  ultimately show ?thesis
    using False by (simp add: block_successor_by_qualified_root_def qualified_root_def block_successor_def saved_successor_def)
next
  case True
  then have y: "is_open (svb_block y)" "saved_height y = 1"
    using chain_invD(4) [OF assms(1)] assms(2) unfolding links_ok_def by metis+
  obtain i where i: "fmlookup (l_account l) (saved_account y) = Some i"
    using chain_invD(5) [OF assms(1)] assms(2) unfolding ends_ok_def by metis
  obtain z where z: "fmlookup (l_block l) (ai_open_block i) = Some z" "saved_account z = saved_account y"
      "previous (svb_block z) = 0"
    using chain_invD(20) [OF assms(1)] i unfolding opens_ok_def by metis
  then have "saved_height z = 1"
    using chain_invD(4) [OF assms(1)] unfolding links_ok_def by metis
  then have "ai_open_block i = h"
    using chain_invD(6) [OF assms(1)] assms(2) y(2) z(1,2) unfolding heights_ok_def by metis
  moreover have "root (svb_block y) = saved_account y"
    by (rule open_root [OF y(1) True])
  ultimately show ?thesis
    using True i by (simp add: block_successor_by_qualified_root_def qualified_root_def get_account_def)
qed

lemma competitor_root:
  assumes "chain_inv c l" and "block_successor_by_qualified_root l (qualified_root b) = Some s"
    and "fmlookup (l_block l) s = Some y"
  shows "qualified_root (svb_block y) = qualified_root b"
proof (cases "previous b = 0")
  case True
  then obtain i where i: "fmlookup (l_account l) (root b) = Some i" "s = ai_open_block i"
    using assms(2) by (auto simp: block_successor_by_qualified_root_def qualified_root_def get_account_def)
  then have y: "saved_account y = root b" "previous (svb_block y) = 0"
    using chain_invD(20) [OF assms(1)] assms(3) unfolding opens_ok_def by fastforce+
  then have "is_open (svb_block y)"
    using chain_invD(4) [OF assms(1)] assms(3) unfolding links_ok_def by metis
  from open_root [OF this y(2)] show ?thesis
    using True y by (simp add: qualified_root_def)
next
  case False
  then obtain p where p: "fmlookup (l_block l) (previous b) = Some p" "sd_successor (svb_sideband p) = s" "s \<noteq> 0"
    using assms(2)
    by (auto simp: block_successor_by_qualified_root_def qualified_root_def block_successor_def
        saved_successor_def bind_eq_Some_conv split: if_splits)
  then have "previous (svb_block y) = previous b"
    using chain_invD(5) [OF assms(1)] assms(3) unfolding ends_ok_def by fastforce
  then show ?thesis
    using False by (simp add: qualified_root_def root_previous)
qed

lemma rollback_competitor_keeps:
  assumes "ledger_ok c l" and "rollback_competitor c now b l = Some (l', r)" and "fmlookup (l_block l') x = Some y'"
  shows "\<exists>y. fmlookup (l_block l) x = Some y \<and> svb_block y' = svb_block y"
proof -
  have "\<exists>bs. rolled c l l' bs"
  proof (cases "l' = l")
    case True
    then show ?thesis
      using rolled_refl [OF ledger_okD(1) [OF assms(1)]] by blast
  next
    case False
    then obtain s res where s: "block_successor_by_qualified_root l (qualified_root b) = Some s"
        "roll_back c now l s = Some res" "(\<exists>bs. res = Inr (l', bs)) \<or> (\<exists>e bs. res = Inl (e, l', bs))"
      using assms(2) by (auto simp: rollback_competitor_def split: option.splits if_splits sum.splits prod.splits)
    then show ?thesis
      using roll_back_correct [OF ledger_okD(1,3) [OF assms(1)] competitor_stored [OF assms(1) s(1)], of now]
      by (auto simp: rollback_ok_def)
  qed
  then obtain bs where r: "rolled c l l' bs" ..
  obtain y where y: "fmlookup (l_block l) x = Some y"
    using rolledD(4) [OF r, of x] assms(3) by (cases "fmlookup (l_block l) x") auto
  have "x \<notin> set (map (\<lambda>b. hash (svb_block b)) bs)"
    using rolledD(5) [OF r y] assms(3) by auto
  then show ?thesis
    using rolledD(6) [OF r y] assms(3) y by auto
qed

text \<open>A forced block that is inserted has taken the place of the block that was stored under its root.\<close>

lemma forced_block_wins:
  assumes "ledger_ok c l" and "rollback_competitor c now b l = Some (l1, r)"
    and "good_step verify c now l1 b" and "process verify c now l1 b = Some (Inr (saved, l2))"
    and "block_successor_by_qualified_root l (qualified_root b) = Some s" and "s \<noteq> hash b"
  shows "block_exists l2 (hash b) \<and> \<not> block_exists l2 s"
proof -
  have l1: "ledger_ok c l1"
    using rollback_competitor_ok [OF assms(1), of now b] assms(2) by auto
  obtain w where "process verify c now l1 b =
      Some (Inr (new_saved (create_validator c now l1 b), ledger_after (create_validator c now l1 b) w l1))"
    using process_chain_inv [OF assms(3) ledger_okD(1) [OF l1]] by metis
  then have l2: "l2 = ledger_after (create_validator c now l1 b) w l1"
    using assms(4) by simp
  note acc = good_stepD(1) [OF assms(3)]
  have b: "fmlookup (l_block l2) (hash b) = Some (normalise (new_saved (create_validator c now l1 b)))"
    by (simp add: l2 ledger_after_def blocks_after_lookup [OF acc])
  have "False" if "fmlookup (l_block l2) s = Some z" for z
  proof -
    from that have "fmlookup (blocks_after (create_validator c now l1 b) (l_block l1)) s = Some z"
      by (simp add: l2 ledger_after_def)
    from acc this obtain y1 where y1: "fmlookup (l_block l1) s = Some y1" "svb_block z = svb_block y1"
      by (cases rule: after_cases) (use assms(6) in auto)
    obtain y where y: "fmlookup (l_block l) s = Some y" "svb_block y1 = svb_block y"
      using rollback_competitor_keeps [OF assms(1,2) y1(1)] by blast
    have "qualified_root (svb_block z) = qualified_root b"
      using competitor_root [OF ledger_okD(1) [OF assms(1)] assms(5) y(1)] y(2) y1(2) by simp
    moreover have "chain_inv c l2"
      using process_ledger_ok [OF assms(3) l1 assms(4)] ledger_okD(1) by blast
    ultimately have "s = hash b"
      using stored_is_successor [of c l2 s z] stored_is_successor [of c l2 "hash b", OF _ b] that
      by simp
    then show False
      using assms(6) by simp
  qed
  then have "fmlookup (l_block l2) s = None"
    by (meson option.exhaust)
  then show ?thesis
    using b by (simp add: block_exists_def)
qed

section \<open>Blocks that wait\<close>

lemma process_one_gap:
  assumes "process_one verify c now ctx (l, u) = Some (GapPrevious, ctx', l', u')"
  shows "l' = l" "u' = unchecked_put (previous (bc_block ctx)) \<lparr>ui_block = bc_block ctx, ui_modified = now\<rparr> u"
  using assms by (auto simp: process_one_def Let_def split: option.splits sum.splits prod.splits block_status.splits)

lemma process_one_progress:
  assumes "process_one verify c now ctx (l, u) = Some (Progress, ctx', l', u')"
  shows "um_entries u' = um_entries u" "hash (bc_block ctx) \<in> set (um_buffer u')"
    "um_disable_delete u' = um_disable_delete u" "um_max_unchecked_blocks u' = um_max_unchecked_blocks u"
  using assms by (auto simp: process_one_def Let_def split: option.splits sum.splits prod.splits block_status.splits if_splits)

lemma bp_add_frame:
  "bp_unchecked (snd (bp_add b src ch s)) = bp_unchecked s" "bp_ledger (snd (bp_add b src ch s)) = bp_ledger s"
  "bp_config (snd (bp_add b src ch s)) = bp_config s"
  by (simp_all add: bp_add_def bp_add_impl_def case_prod_unfold)

lemma bp_add_contents:
  assumes "bp_inv c s"
  shows "set (fq_contents (bp_queue s) k) \<subseteq> set (fq_contents (bp_queue (snd (bp_add b src ch s))) k)"
    "length (fq_contents (bp_queue (snd (bp_add b src ch s))) k) \<le> Suc (length (fq_contents (bp_queue s) k))"
    "validate_entry_block (bpc_work_thresholds (bp_config s)) b \<Longrightarrow>
     length (fq_contents (bp_queue s) (src, ch)) < bp_max_size (bp_config s) (src, ch) \<Longrightarrow>
     block_context_new b src \<in> set (fq_contents (bp_queue (snd (bp_add b src ch s))) (src, ch))"
  using bp_add_impl_spec(3) [OF assms, of "block_context_new b src" ch]
  by (auto simp: bp_add_def Let_def block_context_new_def)

lemma requeue_spec:
  "bp_inv c s \<Longrightarrow>
   length (fq_contents (bp_queue s) (SrcUnchecked, LOOPBACK)) + length infos
     \<le> bp_max_size (bp_config s) (SrcUnchecked, LOOPBACK) \<Longrightarrow>
   bp_inv c (requeue infos s) \<and> bp_unchecked (requeue infos s) = bp_unchecked s \<and>
   set (fq_contents (bp_queue s) (SrcUnchecked, LOOPBACK))
     \<subseteq> set (fq_contents (bp_queue (requeue infos s)) (SrcUnchecked, LOOPBACK)) \<and>
   (\<forall>i\<in>set infos. validate_entry_block (bpc_work_thresholds (bp_config s)) (ui_block i) \<longrightarrow>
      block_context_new (ui_block i) SrcUnchecked \<in> set (fq_contents (bp_queue (requeue infos s)) (SrcUnchecked, LOOPBACK)))"
proof (induction infos arbitrary: s)
  case (Cons i infos)
  let ?s = "snd (bp_add (ui_block i) SrcUnchecked LOOPBACK s)" and ?k = "(SrcUnchecked, LOOPBACK)"
  note add = bp_add_contents(1,2) [OF Cons.prems(1), where k = ?k and b = "ui_block i" and src = SrcUnchecked and ch = LOOPBACK]
    bp_add_contents(3) [OF Cons.prems(1), of "ui_block i" SrcUnchecked LOOPBACK]
  have IH: "bp_inv c (requeue infos ?s) \<and> bp_unchecked (requeue infos ?s) = bp_unchecked ?s \<and>
     set (fq_contents (bp_queue ?s) ?k) \<subseteq> set (fq_contents (bp_queue (requeue infos ?s)) ?k) \<and>
     (\<forall>i\<in>set infos. validate_entry_block (bpc_work_thresholds (bp_config ?s)) (ui_block i) \<longrightarrow>
        block_context_new (ui_block i) SrcUnchecked \<in> set (fq_contents (bp_queue (requeue infos ?s)) ?k))"
    using Cons.prems(2) add(2) by (intro Cons.IH bp_add_inv [OF Cons.prems(1)]) (simp add: bp_add_frame)
  have step: "requeue (i # infos) s = requeue infos ?s"
    by (simp add: requeue_def)
  show ?case
    using IH add(1,3) Cons.prems(2) unfolding step by (auto simp: bp_add_frame)
qed (simp add: requeue_def)

lemma unchecked_round_delivers:
  assumes "bp_inv c s" and "\<not> um_disable_delete (bp_unchecked s)"
    and "unchecked_find (bp_unchecked s) (d, h) = Some info" and "d \<in> set (um_buffer (bp_unchecked s))"
    and "validate_entry_block (bpc_work_thresholds (bp_config s)) (ui_block info)"
    and "length (fq_contents (bp_queue s) (SrcUnchecked, LOOPBACK)) + entries_len (um_entries (bp_unchecked s))
      \<le> bp_max_size (bp_config s) (SrcUnchecked, LOOPBACK)"
  shows "\<exists>s'. unchecked_round s = Some s' \<and> bp_inv c s' \<and>
    block_context_new (ui_block info) SrcUnchecked \<in> set (fq_contents (bp_queue s') (SrcUnchecked, LOOPBACK)) \<and>
    unchecked_find (bp_unchecked s') (d, h) = None"
proof -
  let ?v = "bp_unchecked s" let ?u = "?v\<lparr>um_buffer := []\<rparr>"
  have u: "unchecked_inv ?u" "\<not> um_disable_delete ?u" and eq: "unchecked_find ?u = unchecked_find ?v"
    using assms(1,2) by (simp_all add: bp_inv_def unchecked_inv_def unchecked_find_def fun_eq_iff)
  obtain infos u3 where run: "unchecked_run ?v = Some (infos, u3)" "unchecked_inv u3"
      "set infos = {x. \<exists>k. fst k \<in> set (um_buffer ?v) \<and> unchecked_find ?v k = Some x}"
      "unchecked_find u3 = (\<lambda>k. if fst k \<in> set (um_buffer ?v) then None else unchecked_find ?v k)"
    using process_queries_spec [OF u, of "um_buffer ?v"] unfolding eq unchecked_run_def by blast
  have info: "info \<in> set infos" "unchecked_find u3 (d, h) = None"
    using assms(3,4) by (force simp: run(3), simp add: run(4))
  have "length infos \<le> entries_len (um_entries ?v)"
    using process_queries_length [OF u run(1) [unfolded unchecked_run_def]] by simp
  then have room: "length (fq_contents (bp_queue s) (SrcUnchecked, LOOPBACK)) + length infos
      \<le> bp_max_size (bp_config s) (SrcUnchecked, LOOPBACK)"
    using assms(6) by simp
  let ?s = "s\<lparr>bp_unchecked := u3\<rparr>"
  have "bp_inv c ?s"
    using assms(1) run(2) by (simp add: bp_inv_def)
  from requeue_spec [OF this, of infos] room
  have "bp_inv c (requeue infos ?s) \<and> bp_unchecked (requeue infos ?s) = u3 \<and>
      block_context_new (ui_block info) SrcUnchecked \<in> set (fq_contents (bp_queue (requeue infos ?s)) (SrcUnchecked, LOOPBACK))"
    using info(1) assms(5) by force
  then show ?thesis
    using run(1) info(2) by (simp add: unchecked_round_def)
qed

end
