(* ===== verification/Spec2Isabelle.thy ===== *)
theory Spec2Isabelle
  imports Sample_Ledger Zero_Send Message_Reader Fair_Queue Bootstrap_Tags Account_Sets Database_Scan Peer_Scoring Block_Processor
begin

text \<open>
  This library models the core of the Rust node under \<open>src/\<close>, a port of a block-lattice
  cryptocurrency node, and proves what its parts promise. In a block lattice every account has its
  own chain of blocks. A send block takes an amount off the balance of its account and leaves a
  receivable entry behind; a receive block of the other account turns the entry into balance.
  A block is processed (validated and inserted), it may be rolled back together with everything
  that depends on it, and it is finally cemented, after which it must never change again. Blocks and
  votes arrive from peers as messages; a block that comes before a block it depends on waits, and
  missing blocks are requested from peers.

  \<^bold>\<open>Conventions.\<close> A struct is a record, an enum a datatype, an identifier or hash a \<open>256 word\<close>, an
  amount a \<open>128 word\<close>, a counter of fixed width a word of that width. A table of the database
  is a finite map; a b-tree is a finite map read in the order of its keys. A panic (\<open>unwrap\<close> of
  nothing, an index out of range, an arithmetic overflow that is checked) is \<open>None\<close> or an error
  value; an error the code returns is \<open>Inl\<close>. Loops with a structural measure are recursive
  functions; the rollback and the cementing loop and the search of the fair queue, which could run
  forever, are \<open>partial_function (option)\<close>, and that they return is proved. \<open>tags_timeout\<close> and
  \<open>trim_to\<close> take the number of entries as fuel, one round for each entry, which the lemmas show to be
  enough. Third-party code is a parameter: Blake2b (\<open>blake\<close>), Ed25519 (\<open>verify\<close>, \<open>sign\<close>), the
  difficulty function, SipHash, the clock, the order in which a hash map lists its keys, and the
  arithmetic of floating point priorities (\<open>prio_ops\<close>). Every property with an assumption on a
  parameter has a witness in which the parameter is a concrete function.

  \<^bold>\<open>Foundations.\<close> \<open>Prelude\<close>, \<open>Ordered_Maps\<close>, \<open>Indexes\<close> and \<open>Traces\<close> hold what the components
  share: sums over tables, ordered traversal, secondary indexes and insertion order, and runs of
  operations with the locale \<open>simulation\<close>, by which a container that satisfies its specification
  step by step satisfies it along every run.

  \<^bold>\<open>Data\<close> (crate \<open>core\<close>). \<open>Byte_Stream\<close> has the readers and writers of \<open>utils/stream.rs\<close> and the locales
  \<open>codec\<close> and \<open>fixed_codec\<close>, interpreted for every encoding; \<open>Amounts\<close>, \<open>Epochs\<close>, \<open>Blocks\<close>,
  \<open>Saved_Blocks\<close>, \<open>Records\<close> and \<open>Votes\<close> have the types of the files of those names with hashing and
  encoding; \<open>Work\<close> has \<open>difficulty.rs\<close> and \<open>work_thresholds.rs\<close>.

  \<^bold>\<open>Ledger\<close> (crates \<open>store_lmdb\<close> and \<open>ledger\<close>). \<open>Rep_Weights\<close> and \<open>Ledger_State\<close> are the tables, the
  weight cache and the store operations; \<open>Receivables\<close> the iterators and queries of
  \<open>ledger_set_any.rs\<close> and \<open>ledger_set_confirmed.rs\<close>. \<open>Validation\<close> has the rules of
  \<open>block_insertion/validation\<close> in their order and \<open>validator_factory.rs\<close>, \<open>Insertion\<close> the inserter and
  \<open>Ledger::process\<close>. \<open>Rollback\<close> has planner, executor and performer of \<open>block_rollback\<close>, \<open>Confirmed_Set\<close>
  and \<open>Cementing\<close> the cementer, where \<open>refresh\<close> is what other writers did while the transaction was
  released, and \<open>Ledger_Init\<close> the opening of a ledger with its parallel scans (\<open>Ledger::initialize\<close>,
  \<open>parallel_traversal\<close>). \<open>Ledger_Inv\<close> and \<open>Chains\<close> state the invariant of the ledger: the
  chains, heights, successors, receivable entries, weights and counters fit together.
  \<open>Rollback_Inv\<close>, \<open>Rollback_Safety\<close>, \<open>Rollback_Loop\<close>, \<open>Rollback_Inverse\<close>, \<open>Zero_Send\<close>,
  \<open>Cementing_Safety\<close>, \<open>Cementing_Liveness\<close> and \<open>Acceptance\<close> carry the proofs, \<open>Ledger_Steps\<close> has the step
  relation and the runs of the whole ledger, and \<open>Sample_Ledger\<close> small concrete ledgers for the witnesses.

  \<^bold>\<open>Wire protocol\<close> (crate \<open>messages\<close>, \<open>node/src/transport\<close>). \<open>Message_Header\<close>, \<open>Live_Messages\<close>,
  \<open>Bootstrap_Messages\<close>, \<open>Node_Messages\<close> and \<open>Messages\<close> have all message types with header, serializer and
  parser; \<open>Message_Reader\<close> has the duplicate filter and the reader of a channel.

  \<^bold>\<open>Containers of the node\<close> (\<open>node/src\<close>). \<open>Fair_Queue\<close> (\<open>transport/fair_queue.rs\<close>), \<open>Unchecked_Map\<close>
  (\<open>block_processing/unchecked_map.rs\<close>), and of \<open>bootstrap/ascending\<close>: \<open>Bootstrap_Tags\<close>
  (\<open>ordered_tags.rs\<close>, \<open>throttle.rs\<close>), \<open>Ordered_Priorities\<close>, \<open>Ordered_Blocking\<close>, \<open>Account_Sets\<close>,
  \<open>Database_Scan\<close> and \<open>Peer_Scoring\<close>.

  \<^bold>\<open>Block processor\<close> (\<open>node/src/block_processing/block_processor.rs\<close>). \<open>Block_Processor\<close> puts the parts
  together: a fair queue with one queue per source and channel, the ledger and the unchecked map.
  \<open>process_batch\<close> takes a batch and processes it block by block, \<open>rollback_competitor\<close> makes room for
  a forced block, and \<open>unchecked_round\<close> is a round of the unchecked map whose observer, set in
  \<open>node.rs\<close>, puts the blocks back into the queue.

  \<^bold>\<open>What is proved.\<close> For the ledger: the invariant and the supply are kept by every run of
  processing, rollback and cementing whose blocks are regular; confirmed blocks are final; processing,
  rollback and cementing return; rollback undoes processing; validation agrees with a declarative rule;
  opening a ledger restores counters, and weights as far as the minimum weight lets them through. For the
  protocol: what is sent is read back once, and sizes fit the buffers. For the containers: refinement of
  simple specifications, bounds, no starvation and complete scans. For the block processor: a batch of
  regular blocks neither panics nor harms the ledger, a forced block replaces its competitor, and a block
  that came too early is processed again.

  \<^bold>\<open>Side conditions.\<close> \<open>regular\<close> is a hypothesis on the blocks, not a check of the code. It excludes a state
  block that raises its balance under an epoch link, a legacy send of amount zero, a hash of zero
  and a chain of $2^{64} - 1$ blocks. The validator accepts the first two: \<open>epoch_link_raises_balance\<close> shows that
  the supply then grows, \<open>zero_send_leaves_receivable\<close> that a rollback leaves a receivable entry behind.
  \<open>ledger_run\<close> has the runs of the code with all blocks it inserts; \<open>good_step\<close>, \<open>ledger_step\<close> and \<open>reachable\<close> are
  restricted to regular blocks, and so is \<open>good_blocks\<close> for a batch. \<open>env_ok\<close> is what other writers may do while
  a transaction is released: they keep the ledger well formed, its confirmed blocks and what a stored block
  depends on. Further theorems pin down defects: weights below the minimum that are lost when they are
  loaded in shards, the length of a cleared queue, a reused request identifier, a scan that never ends.

  \<^bold>\<open>Not modelled.\<close> LMDB, sockets, threads, locks and clocks, JSON and TOML, key derivation and
  wallets, work generation, statistics, RPC and websockets, the wiring of the node, pruning, the
  election threads, the confirming set, the observers of the block processor and the drivers of the
  bootstrap client. They are input and output, configuration, or threads around the modelled containers.
\<close>

section \<open>The ledger as a whole\<close>

text \<open>
  C1: take any run of block processing, rollback and cementing from the genesis ledger in which
  every inserted block was \<open>regular\<close>: not a state block that raises its balance under an epoch link, not a
  legacy send of amount zero, not of hash zero, and not on a chain of $2^{64} - 1$ blocks. Then
  the ledger is well formed, and the balances of the accounts plus the receivable amounts are the
  genesis amount, $2^{128} - 1$. The code does not check \<open>regular\<close>; C13 and C40 show what the first two kinds
  of block do.
\<close>

theorem reachable_ledger_ok:
  assumes "ledger_run verify c es l" and "\<forall>(now, l, b) \<in> set es. regular c now l b" and "genesis_wf c"
  shows "ledger_ok c l \<and> total_supply l = 2 ^ 128 - 1"
  using ledger_run_reachable [OF assms(1,2)] assms(3) by (rule reachable_ok)

theorem reachable_ledger_ok_witness:
  "ledger_ok sample_constants sample_l2 \<and> total_supply sample_l2 = 2 ^ 128 - 1"
  using reachable_ledger_ok [OF sample_run sample_wf] .

text \<open>
  C2: a block that is confirmed stays in the ledger and stays confirmed, whatever \<open>regular\<close> blocks are
  processed and whatever blocks are rolled back or cemented later.
\<close>

theorem confirmed_is_final:
  assumes "reachable verify c l" and "genesis_wf c" and "(ledger_step verify c)\<^sup>*\<^sup>* l l'"
    and "confirmed_block_exists l h"
  shows "confirmed_block_exists l' h \<and> block_exists l' h"
  using reachable_advances [OF assms(1-3)] assms(4) confirmed_subset by (auto simp: advances_def)

theorem confirmed_is_final_witness:
  "confirmed_block_exists sample_l2 (genesis_hash sample_constants)"
proof -
  have "(ledger_step sample_verify sample_constants)\<^sup>*\<^sup>* sample_l0 sample_l2"
    using sample_reachable(2,3) by (meson rtranclp.simps)
  moreover have "confirmed_block_exists sample_l0 (genesis_hash sample_constants)"
    using ledger_okD(3) [OF sample_l0_ok] by (simp add: genesis_confirmed_def)
  ultimately show ?thesis
    using confirmed_is_final [OF sample_reachable(1) sample_wf] by blast
qed

text \<open>
  C3: a block that the validator accepts and that is \<open>regular\<close> is inserted without a panic, and the
  ledger after it is well formed with the same supply; the block is stored, it is the head of its
  account, and it is not confirmed yet. Not regular are a state block that raises its balance under an
  epoch link, a legacy send of amount zero, a block of hash zero, and a block on a chain of
  $2^{64} - 1$ blocks.
\<close>

theorem process_inserts:
  assumes "accepted verify c now l b" and "regular c now l b" and "ledger_ok c l"
  shows "\<exists>sb l' i. process verify c now l b = Some (Inr (sb, l')) \<and> svb_block sb = b
    \<and> ledger_ok c l' \<and> total_supply l' = total_supply l
    \<and> get_block l' (hash b) = Some (normalise sb) \<and> \<not> confirmed_block_exists l' (hash b)
    \<and> get_account l' (saved_account sb) = Some i \<and> ai_head i = hash b
    \<and> ai_balance i = saved_balance sb \<and> ai_block_count i = saved_height (normalise sb)"
proof -
  let ?v = "create_validator c now l b"
  have good: "good_step verify c now l b"
    using assms(1,2) by (simp add: good_step_def)
  note acc = assms(1)
  obtain w where w: "process verify c now l b = Some (Inr (new_saved ?v, ledger_after ?v w l))"
    by (rule process_chain_inv [OF good ledger_okD(1) [OF assms(3)]])
  from process_ledger_ok [OF good assms(3) w] have ok: "ledger_ok c (ledger_after ?v w l)"
    "total_supply (ledger_after ?v w l) = total_supply l"
    by auto
  have stored: "get_block (ledger_after ?v w l) (hash b) = Some (normalise (new_saved ?v))"
    by (simp add: get_block_def ledger_after_def blocks_after_lookup [OF acc])
  have account: "get_account (ledger_after ?v w l) (bv_account ?v) = Some (new_account_info ?v)"
    by (simp add: get_account_def ledger_after_def)
  from chain_invD(14) [OF ledger_okD(1) [OF ok(1)]] account
  have "head_of (l_block (ledger_after ?v w l)) (bv_account ?v) (new_account_info ?v)"
    by (simp add: accounts_ok_def get_account_def)
  then show ?thesis
    using w ok stored account new_block_unconfirmed [OF good assms(3)] new_saved_account
    by (auto simp: head_of_def get_block_def intro!: exI [of _ "new_saved ?v"])
qed

theorem process_inserts_witness:
  "\<exists>sb l'. process sample_verify sample_constants 100 sample_l1 sample_open = Some (Inr (sb, l'))
     \<and> ledger_ok sample_constants l' \<and> total_supply l' = total_supply sample_l1"
  using process_inserts [OF sample_open_regular sample_l1_tables(1)] by blast

text \<open>
  C4: rolling back a block that the ledger stores ends and does not panic. The only error is
  that a confirmed block is in the way; without it the block is gone. Either way the ledger
  is well formed with the same supply, only blocks that were not confirmed are removed, and
  the returned list names exactly the removed blocks.
\<close>

theorem roll_back_total:
  assumes "ledger_ok c l" and "block_exists l h"
  shows "\<exists>res. roll_back c now l h = Some res \<and> rollback_ok c l h [] res"
  using ledger_okD(1,3) [OF assms(1)] assms(2) by (rule roll_back_correct)

theorem roll_back_total_witness:
  "\<exists>res. roll_back sample_constants 200 sample_l2 3 = Some res \<and> rollback_ok sample_constants sample_l2 3 [] res"
  using roll_back_total [OF sample_l2_tables(1,2)] by blast

text \<open>
  C5: rolling back the block that was processed last, if it was \<open>regular\<close>, removes exactly that block
  and restores the ledger: all tables, weights and counters are as before, except that the account, if
  it existed, has the time of the rollback as its modification time. For a legacy send of amount zero,
  which is not regular, this fails: see C40.
\<close>

theorem roll_back_undoes_process:
  assumes "process verify c now l b = Some (Inr (sb, l'))" and "regular c now l b" and "ledger_ok c l"
  shows "\<exists>l''. roll_back c now' l' (hash b) = Some (Inr (l'', [normalise sb]))
    \<and> restored now' (bv_account (create_validator c now l b)) l l''"
proof -
  have "good_step verify c now l b"
    using process_Inr_accepted [OF assms(1)] assms(2) by (simp add: good_step_def)
  then show ?thesis
    using assms(3,1) by (rule process_roll_back)
qed

theorem roll_back_undoes_process_witness:
  "\<exists>sb. roll_back sample_constants 200 sample_l2 3 = Some (Inr (sample_l1, [sb]))"
proof -
  from sample_processed(2) obtain sb where
    "process sample_verify sample_constants 100 sample_l1 sample_open = Some (Inr (sb, sample_l2))" ..
  from roll_back_undoes_process [OF this sample_open_regular(2) sample_l1_tables(1), of 200] show ?thesis
    using sample_l1_tables(5)
    by (auto simp: restored_def bv_account_create_validator sample_defs block_base_defs)
qed

text \<open>
  C6: a confirmed block cannot be rolled back: the rollback reports \<open>BlockIsConfirmed\<close> and
  the block is still there and confirmed.
\<close>

theorem roll_back_confirmed:
  assumes "ledger_ok c l" and "confirmed_block_exists l h"
  shows "\<exists>l' bs. roll_back c now l h = Some (Inl (BlockIsConfirmed, l', bs)) \<and> ledger_ok c l'
    \<and> confirmed_block_exists l' h"
proof -
  have ex: "block_exists l h"
    using assms(2) by (rule confirmed_subset)
  from roll_back_correct [OF ledger_okD(1,3) [OF assms(1)] ex] obtain res where
    res: "roll_back c now l h = Some res" "rollback_ok c l h [] res"
    by blast
  show ?thesis
  proof (cases res)
    case (Inl e)
    then obtain l' bs where e: "res = Inl (BlockIsConfirmed, l', bs)"
      using res(2) by (auto simp: rollback_ok_def)
    with roll_back_ledger_ok [OF assms(1) res(1)] show ?thesis
      using assms(2) res(1) by (auto simp: advances_def)
  next
    case (Inr r)
    then obtain l' bs where r: "res = Inr (l', bs)" "\<not> block_exists l' h"
      using res(2) by (auto simp: rollback_ok_def)
    with roll_back_ledger_ok [OF assms(1) res(1)] have "confirmed_block_exists l' h"
      using assms(2) by (auto simp: advances_def)
    with r(2) confirmed_subset show ?thesis
      by blast
  qed
qed

theorem roll_back_confirmed_witness:
  "\<exists>l' bs. roll_back sample_constants 200 sample_l2 1 = Some (Inl (BlockIsConfirmed, l', bs))"
  using roll_back_confirmed [OF sample_l2_tables(1), of "genesis_hash sample_constants" 200]
    ledger_okD(3) [OF sample_l2_tables(1)] sample_genesis_block(2)
  by (auto simp: genesis_confirmed_def)

text \<open>
  C7: cementing a stored block ends without a panic, keeps the ledger well formed and never
  takes a confirmation back, also when other writers get hold of the database in between
  (\<open>refresh\<close>), as long as they keep the ledger well formed and its confirmed blocks and do not change
  what a stored block depends on (\<open>env_ok\<close>). The confirmed blocks may grow and other blocks may
  come, go and come back.
\<close>

theorem confirm_returns:
  assumes "ledger_ok c l" and "block_exists l target" and "env_ok c refresh"
  shows "\<exists>s. confirm_max c refresh l target m = Some (Some s) \<and> ledger_ok c (cm_ledger s)
    \<and> advances l (cm_ledger s)"
  using assms by (rule confirm_max_total)

theorem confirm_returns_witness:
  "\<exists>s. confirm_max sample_constants (\<lambda>_ _. None) sample_l2 3 1 = Some (Some s)
     \<and> ledger_ok sample_constants (cm_ledger s)"
  using confirm_returns [OF sample_l2_tables(1,2), of "\<lambda>_ _. None" 1] by (auto simp: env_ok_def)

text \<open>
  C8: if the bound on the stack is more than twice the number of stored blocks, the target
  block is confirmed when cementing returns, with all the blocks it depends on. Other writers behave as
  in C7 and do not remove the target.
\<close>

theorem confirm_confirms:
  assumes "ledger_ok c l" and "block_exists l target" and "env_ok c refresh" and "target_kept refresh target"
    and "2 * card (fmdom' (l_block l)) < m"
  shows "\<exists>s. confirm_max c refresh l target m = Some (Some s) \<and> confirmed_block_exists (cm_ledger s) target"
  using assms by (rule confirm_max_confirms)

theorem confirm_confirms_witness:
  "\<exists>s. confirm_max sample_constants (\<lambda>_ _. None) sample_l2 3 7 = Some (Some s)
     \<and> confirmed_block_exists (cm_ledger s) 3"
  using confirm_confirms [OF sample_l2_tables(1,2), of "\<lambda>_ _. None" 7] sample_l2_tables(3)
  by (auto simp: env_ok_def target_kept_def)

text \<open>
  C12: the fourteen checks of the validator accept an ordinary state block exactly when it is
  new, signed by the owner, has enough work, continues the chain of its account, and its
  balance is that of a send, of an unchanged account without a link, or of the receipt of a
  receivable entry for the full amount.
\<close>

theorem state_block_validation:
  assumes "ledger_inv l" and "\<not> is_epoch_link (lc_epochs c) (sth_link (stb_hashables st))"
  shows "(\<exists>ins. validate verify (create_validator c now l (State st)) = Inr ins)
    \<longleftrightarrow> state_block_rule verify c now l st"
  using state_block_accepted_iff [OF _ _ assms(2)] assms(1) by (simp add: accepted_def ledger_inv_def)

theorem state_block_validation_witness:
  "\<exists>st. sample_open = State st \<and> state_block_rule sample_verify sample_constants 100 sample_l1 st"
proof -
  have inv: "ledger_inv sample_l1"
    using chain_invD(1) [OF ledger_okD(1) [OF sample_l1_tables(1)]] .
  obtain st where st: "sample_open = State st" "sth_link (stb_hashables st) = 2"
    by (simp add: sample_defs)
  have "\<not> is_epoch_link (lc_epochs sample_constants) (sth_link (stb_hashables st))"
    by (simp add: st(2) sample_epoch_link epoch_link_values)
  from state_block_validation [OF inv this]
  have "state_block_rule sample_verify sample_constants 100 sample_l1 st"
    using good_stepD(1) [OF sample_open_good] st(1) by (simp add: accepted_def)
  with st(1) show ?thesis
    by blast
qed

text \<open>
  C13: a state block whose link is an epoch link may raise the balance of its account by any
  amount if the owner signs it: no check relates the amount to anything receivable. The
  supply of the ledger grows by the difference. Such a block is not \<open>regular\<close>.
\<close>

theorem epoch_link_raises_balance:
  assumes "ledger_inv l" and "h = stb_hashables st" and "is_epoch_link (lc_epochs c) (sth_link h)"
    and "sth_link h \<noteq> 0" and "fmlookup (l_account l) (sth_account h) = Some i"
    and "sth_previous h = ai_head i" and "ai_balance i < sth_balance h"
    and "\<not> block_exists_or_pruned l (stb_hash st)" and "stb_hash st \<noteq> 0"
    and "verify (sth_account h) (stb_hash st) (stb_signature st)"
    and "is_valid_pow (lc_work c) (State st) (bv_block_details (create_validator c now l (State st)))"
  shows "\<exists>sb l'. process verify c now l (State st) = Some (Inr (sb, l'))
    \<and> total_supply l' = total_supply l + unat (sth_balance h - ai_balance i)"
  using assms by (rule epoch_link_mints)

theorem epoch_link_raises_balance_witness:
  "\<exists>sb l'. process sample_verify sample_constants 100 sample_l1 (sample_state 7 2 (- 1) epoch_v1_link 3)
      = Some (Inr (sb, l')) \<and> total_supply l' = total_supply sample_l1 + 10"
proof -
  have inv: "ledger_inv sample_l1" "l_pruned sample_l1 = fmempty"
    using chain_invD(1,2) [OF ledger_okD(1) [OF sample_l1_tables(1)]] by simp_all
  from sample_l1_tables(6) obtain i where i: "fmlookup (l_account sample_l1) 7 = Some i" "ai_head i = 2"
    "ai_balance i = - 11"
    by blast
  show ?thesis
    using epoch_link_raises_balance [OF inv(1) refl, of sample_constants _ i sample_verify 100,
        where st = "\<lparr>stb_hashables = \<lparr>sth_account = 7, sth_previous = 2, sth_representative = 7,
          sth_balance = - 1, sth_link = epoch_v1_link\<rparr>, stb_signature = 0, stb_hash = 3, stb_work = - 1\<rparr>"]
      i sample_l1_tables(3) inv(2) sample_work [of 7 2 "- 1" epoch_v1_link 3]
    by (simp add: sample_state_def sample_epoch_link epoch_link_values block_exists_or_pruned_def
        block_exists_def)
qed

text \<open>
  C40: a legacy send that leaves the balance as it is, another block that is not \<open>regular\<close>, is accepted
  and puts a receivable entry of amount zero into the table. The rollback of the block succeeds and
  removes the block, but not the entry: it takes the block for a change of representative.
\<close>

theorem zero_send_leaves_receivable:
  assumes "accepted verify c now l (LegacySend s)" and "ledger_ok c l"
    and "sh_balance (sb_hashables s) = previous_balance (create_validator c now l (LegacySend s))"
    and "sb_hash s \<noteq> 0"
    and "\<forall>i. fmlookup (l_account l) (bv_account (create_validator c now l (LegacySend s))) = Some i \<longrightarrow> ai_block_count i \<noteq> - 1"
  shows "\<exists>sb l' l''. process verify c now l (LegacySend s) = Some (Inr (sb, l'))
    \<and> roll_back c now' l' (sb_hash s) = Some (Inr (l'', [normalise sb])) \<and> \<not> block_exists l'' (sb_hash s)
    \<and> get_pending l'' (PendingKey (sh_destination (sb_hashables s)) (sb_hash s))
      = Some \<lparr>pi_source = saved_account (normalise sb), pi_amount = 0, pi_epoch = Epoch0\<rparr>"
proof -
  have "zero_send verify c now l (LegacySend s)"
    using assms by (simp add: zero_send_def legacy_zero_send_def block_base_defs)
  from zero_send_roll_back [OF this assms(2), of now'] show ?thesis
    by (simp add: destination_or_link_def block_base_defs)
qed

theorem zero_send_leaves_receivable_witness:
  "\<exists>sb l' l''. process sample_verify sample_constants 100 sample_l0 (LegacySend sample_zero_send) = Some (Inr (sb, l'))
    \<and> roll_back sample_constants 200 l' 2 = Some (Inr (l'', [normalise sb])) \<and> \<not> block_exists l'' 2
    \<and> get_pending l'' (PendingKey 8 2) \<noteq> None"
proof -
  have "sh_balance (sb_hashables sample_zero_send) = - 1" "sb_hash sample_zero_send = 2"
    "sh_destination (sb_hashables sample_zero_send) = 8"
    by (simp_all add: sample_zero_send_def)
  moreover have "ai_block_count i \<noteq> - 1" if "fmlookup (l_account sample_l0) a = Some i" for a i
    using that by (auto simp: sample_l0_def genesis_ledger_def genesis_info_def split: if_splits)
  ultimately show ?thesis
    using zero_send_leaves_receivable [OF sample_zero_send_accepted(1) sample_l0_ok, of 200]
      sample_zero_send_accepted(2) by auto
qed

text \<open>
  C14: a receivable amount is received at most once: after a run in which every inserted block was
  \<open>regular\<close>, two receive blocks with the same source block are the same block.
\<close>

theorem no_double_receive:
  assumes "ledger_run verify c es l" and "\<forall>(now, l, b) \<in> set es. regular c now l b" and "genesis_wf c"
    and "get_block l h = Some b" and "get_block l h' = Some b'" and "is_recv c b" and "is_recv c b'"
    and "source_or_link (svb_block b) = source_or_link (svb_block b')"
  shows "h = h'"
  using chain_invD(9) [OF ledger_okD(1)] reachable_ok [OF ledger_run_reachable [OF assms(1,2)] assms(3)] assms(4-)
  unfolding unique_recv_def get_block_def by blast

theorem no_double_receive_witness:
  "{h. \<exists>b. get_block sample_l2 h = Some b \<and> is_recv sample_constants b \<and> source_or_link (svb_block b) = 2} = {3}"
proof -
  from sample_l2_tables(4) obtain b where
    b: "get_block sample_l2 3 = Some b" "is_recv sample_constants b" "source_or_link (svb_block b) = 2"
    by blast
  have "h = 3" if "get_block sample_l2 h = Some b'" "is_recv sample_constants b'" "source_or_link (svb_block b') = 2"
    for h b'
    by (rule no_double_receive [OF sample_run sample_wf that(1) b(1) that(2) b(2)]) (simp add: that(3) b(3))
  with b show ?thesis
    by blast
qed

text \<open>
  C15: after a run in which every inserted block was \<open>regular\<close>, the stored weight of every
  representative is the sum of the balances of the accounts that name it. Its in-memory weight is
  that sum if it reaches the minimum weight, and zero otherwise.
\<close>

theorem representative_weights:
  assumes "ledger_run verify c es l" and "\<forall>(now, l, b) \<in> set es. regular c now l b" and "genesis_wf c"
  shows "stored_weight (l_weights l) r = delegated (l_account l) r
    \<and> weight_get (rw_cache (l_weights l)) r
      = (if rw_min_weight (l_weights l) \<le> delegated (l_account l) r then delegated (l_account l) r else 0)"
proof -
  from chain_invD(16) [OF ledger_okD(1)] reachable_ok [OF ledger_run_reachable [OF assms(1,2)] assms(3)]
  have w: "weights_ok (l_weights l)" "stored_weight (l_weights l) r = delegated (l_account l) r"
    by (auto simp: rep_weights_ok_def)
  then show ?thesis
    by (cases "fmlookup (rw_store (l_weights l)) r")
      (auto simp: weights_ok_def cache_of_store_def weight_get_def)
qed

theorem representative_weights_witness:
  "stored_weight (l_weights sample_l2) 8 = delegated (l_account sample_l2) 8"
  using representative_weights [OF sample_run sample_wf] by blast

section \<open>Start-up\<close>

text \<open>
  C16: the shards into which a table is cut for loading, one per thread, hold every entry of
  the table exactly once, in order, whatever the number of threads.
\<close>

theorem shards_partition_table:
  assumes "0 < threads" and "threads < 2 ^ 256"
  shows "concat (map (\<lambda>j. shard_entries t (traversal_range threads j)) [0..<threads]) = sorted_list_of_fmap t"
  using assms by (rule traversal_complete)

theorem shards_partition_table_witness:
  "concat (map (\<lambda>j. shard_entries (l_account sample_l1) (traversal_range (thread_count 4) j)) [0..<thread_count 4])
     = sorted_list_of_fmap (l_account sample_l1)"
  using shards_partition_table [of "thread_count 4"] by (simp add: thread_count_def)

text \<open>
  C17: opening an empty database gives the ledger with the genesis block, its account, its
  confirmation height and its weight, and the counters of that ledger, in whatever order the
  shards are loaded.
\<close>

theorem initialize_empty:
  assumes "genesis_wf c" and "distinct order" and "set order = {..<threads}"
    and "distinct order'" and "set order' = {..<threads}" and "0 < threads" and "threads < 2 ^ 256"
    and "flags = \<lparr>gc_reps = True, gc_cemented_count = True, gc_unchecked_count = u, gc_account_count = True,
                  gc_block_count = True\<rparr>"
  shows "initialize c now flags threads order order' (empty_ledger min_weight)
      = Some (genesis_ledger c now min_weight)
    \<and> ledger_ok c (genesis_ledger c now min_weight)"
  using initialize_genesis [OF assms] genesis_ledger_ok [OF assms(1)] by blast

theorem initialize_empty_witness:
  "initialize sample_constants 0 \<lparr>gc_reps = True, gc_cemented_count = True, gc_unchecked_count = True,
      gc_account_count = True, gc_block_count = True\<rparr> 10 [0..<10] (rev [0..<10]) (empty_ledger 0) = Some sample_l0"
proof -
  have "set [0..<10] = {..<10 :: nat}"
    by auto
  then show ?thesis
    using initialize_empty [OF sample_wf, of "[0..<10]" 10 "rev [0..<10]" _ True 0 0] by (simp add: sample_l0_def)
qed

text \<open>
  C18: opening an existing database loads the representative weights into memory, whatever the minimum
  weight, the number of shards and the order in which these are loaded. If every shard that holds a part
  of a representative's weight holds at least the minimum, the in-memory weight is the stored one, or
  zero when that is below the minimum. If every shard holds less than the minimum, the in-memory weight
  is zero, however large the stored one is. If no stored weight that reaches the minimum has a part
  below it, the weights in memory agree with the stored ones for all representatives. With a minimum of zero
  this is always so.
\<close>

theorem initialize_restores_weights:
  assumes "mset order = mset [0..<threads]" and "0 < threads" and "threads < 2 ^ 256"
    and "l_account l \<noteq> fmempty" and "gc_reps flags" and "rw_cache (l_weights l) = fmempty"
    and "\<forall>r. fmlookup (rw_store (l_weights l)) r \<noteq> Some 0"
    and "\<forall>r. stored_weight (l_weights l) r = delegated (l_account l) r"
    and "total_supply l < 2 ^ 128" and "mw = rw_min_weight (l_weights l)"
  shows "\<exists>l'. initialize c now flags threads order order' l = Some l'
    \<and> l_account l' = l_account l \<and> rw_store (l_weights l') = rw_store (l_weights l)
    \<and> (\<forall>r. (\<forall>i<threads. shard_weight (l_account l) threads r i = 0 \<or> mw \<le> shard_weight (l_account l) threads r i) \<longrightarrow>
         weight_get (rw_cache (l_weights l')) r
           = (if stored_weight (l_weights l) r < mw then 0 else stored_weight (l_weights l) r))
    \<and> (\<forall>r. (\<forall>i<threads. shard_weight (l_account l) threads r i < mw) \<longrightarrow> weight_get (rw_cache (l_weights l')) r = 0)
    \<and> ((\<forall>r. stored_weight (l_weights l) r < mw
          \<or> (\<forall>i<threads. shard_weight (l_account l) threads r i = 0 \<or> mw \<le> shard_weight (l_account l) threads r i)) \<longrightarrow>
         rep_weights_ok l')"
  using initialize_weights [OF assms] by (simp only: above_def)

theorem initialize_restores_weights_witness:
  "\<exists>l'. initialize sample_constants 0 \<lparr>gc_reps = True, gc_cemented_count = True, gc_unchecked_count = True,
      gc_account_count = True, gc_block_count = True\<rparr> 2 [1, 0] [0, 1] sample_split = Some l'
    \<and> stored_weight (l_weights l') 11 = 20 \<and> weight_get (rw_cache (l_weights l')) 11 = 20
    \<and> stored_weight (l_weights l') 9 = 12 \<and> weight_get (rw_cache (l_weights l')) 9 = 0"
proof -
  let ?f = "\<lparr>gc_reps = True, gc_cemented_count = True, gc_unchecked_count = True,
      gc_account_count = True, gc_block_count = True\<rparr>"
  have l: "l_account sample_split \<noteq> fmempty" "rw_cache (l_weights sample_split) = fmempty"
    "\<forall>r. fmlookup (rw_store (l_weights sample_split)) r \<noteq> Some 0" "10 = rw_min_weight (l_weights sample_split)"
    "stored_weight (l_weights sample_split) 11 = 20" "stored_weight (l_weights sample_split) 9 = 12"
    "total_supply sample_split < 2 ^ 128" "mset [1, 0] = mset [0..<2]"
    using sample_split_accounts by (simp_all add: sample_split_weights(2) upt_rec)
      (simp_all add: sample_split_def weight_get_def)
  have big: "\<forall>i<2. shard_weight (l_account sample_split) 2 11 i = 0 \<or> 10 \<le> shard_weight (l_account sample_split) 2 11 i"
    using sample_split_parts(2,3) by (auto simp: less_2_cases_iff)
  have small: "\<forall>i<2. shard_weight (l_account sample_split) 2 9 i < 10"
    by (simp add: sample_split_parts(1))
  obtain l' where l': "initialize sample_constants 0 ?f 2 [1, 0] [0, 1] sample_split = Some l'"
    "rw_store (l_weights l') = rw_store (l_weights sample_split)"
    "weight_get (rw_cache (l_weights l')) 11 = (if stored_weight (l_weights sample_split) 11 < 10 then 0
       else stored_weight (l_weights sample_split) 11)"
    "weight_get (rw_cache (l_weights l')) 9 = 0"
    using initialize_restores_weights [OF l(8) _ _ l(1) _ l(2,3) sample_split_weights(1) l(7,4), of ?f sample_constants 0 "[0, 1]"]
      big small by auto
  then show ?thesis
    using l(5,6) by simp
qed

text \<open>
  C19: opening an existing database restores the counters of blocks, accounts and cemented
  blocks from the tables.
\<close>

theorem initialize_restores_counts:
  assumes "mset order = mset [0..<threads]" and "mset order' = mset [0..<threads]"
    and "0 < threads" and "threads < 2 ^ 256" and "l_account l \<noteq> fmempty"
    and "gc_block_count flags" and "gc_cemented_count flags"
  shows "\<exists>l'. initialize c now flags threads order order' l = Some l'
    \<and> l_block_count l' = l_block_count l + (\<Sum>(_, i)\<leftarrow>sorted_list_of_fmap (l_account l). ai_block_count i)
    \<and> l_account_count l' = l_account_count l + of_nat (length (sorted_list_of_fmap (l_account l)))
    \<and> l_cemented_count l' = l_cemented_count l + (\<Sum>(_, i)\<leftarrow>sorted_list_of_fmap (l_conf l). ch_height i)"
  using initialize_counts [OF assms] by metis

theorem initialize_restores_counts_witness:
  "\<exists>l'. initialize sample_constants 0 \<lparr>gc_reps = False, gc_cemented_count = True, gc_unchecked_count = True,
      gc_account_count = True, gc_block_count = True\<rparr> 10 [0..<10] [0..<10] (sample_l0\<lparr>l_block_count := 0\<rparr>) = Some l'
    \<and> l_block_count l' = 1"
proof -
  show ?thesis
    using sample_l0_accounts initialize_restores_counts [of "[0..<10]" 10 "[0..<10]" "sample_l0\<lparr>l_block_count := 0\<rparr>"
        "\<lparr>gc_reps = False, gc_cemented_count = True, gc_unchecked_count = True,
          gc_account_count = True, gc_block_count = True\<rparr>" sample_constants 0]
    by (auto simp: genesis_info_def)
qed

section \<open>The block processor\<close>


lemma sample_early_gap:
  "process sample_verify sample_constants 100 sample_l0 (sample_state 7 2 (- 12) 8 6) = Some (Inl GapPrevious)"
proof -
  let ?b = "sample_state 7 2 (- 12) 8 6"
  let ?v = "create_validator sample_constants 100 sample_l0 ?b"
  have "fmlookup (l_block sample_l0) 2 = None" "fmlookup (l_block sample_l0) 6 = None" "fmlookup (l_pruned sample_l0) 6 = None"
    by (simp_all add: sample_l0_def genesis_ledger_def sample_genesis_block)
  then have v: "epoch_block_pre_checks sample_verify ?v = Inr ()" "ensure_block_does_not_exist_yet ?v = Inr ()"
    "ensure_valid_predecessor ?v = Inl GapPrevious"
    by (simp_all add: epoch_block_pre_checks_def ensure_epoch_block_candidate_is_signed_by_owner_or_epoch_account_def
        ensure_previous_block_exists_for_epoch_block_candidate_def has_epoch_link_def sample_epoch_link epoch_link_values
        ensure_block_does_not_exist_yet_def block_exists_or_pruned_def block_exists_def
        ensure_valid_predecessor_def load_previous_block_def get_block_def sample_defs block_base_defs)
  show ?thesis
    by (simp add: process_def validate_def v)
qed

text \<open>
  C9: taking a batch from the queue and processing it does not panic, the rollback of competing
  blocks included. This holds if every block of the batch that the validator accepts is \<open>regular\<close>
  (\<open>good_blocks\<close>), if other writers between two blocks keep the ledger well formed and its confirmed
  blocks (\<open>env_ok\<close>), and if the unchecked map has 256 identifiers left (\<open>room_for_ids\<close>). The blocks are
  processed in the order in which each source queued them, at most 256 of them; the ledger stays well
  formed and keeps its confirmed blocks; the queue and the unchecked map stay consistent.
\<close>

theorem process_batch_safe:
  assumes "bp_inv c s" and "env_ok c refresh" and "room_for_ids 256 (bp_unchecked s)"
    and "\<And>batch q. bp_next_batch 256 (bp_queue s) = Some (batch, q) \<Longrightarrow>
      good_blocks verify c refresh now 0 batch (bp_ledger s, bp_unchecked s)"
  shows "\<exists>processed s' xs. process_batch verify c refresh now s = Some (processed, s') \<and> bp_inv c s' \<and>
    advances (bp_ledger s) (bp_ledger s') \<and> length processed = min (fq_len (bp_queue s)) 256 \<and>
    map (\<lambda>x. bc_block (snd x)) processed = map (\<lambda>x. bc_block (snd x)) xs \<and>
    (\<forall>k. fq_contents (bp_queue s) k = map snd (filter (\<lambda>x. fst x = k) xs) @ fq_contents (bp_queue s') k)"
  using assms by (rule process_batch_spec)

theorem process_batch_safe_witness:
  "\<exists>s. s = snd (bp_add_impl (block_context_new sample_open SrcLive) 5
       (block_processor_new (bp_config_new (lc_work sample_constants)) sample_l1 (unchecked_new 10 False))) \<and>
     (\<exists>processed s'. process_batch sample_verify sample_constants (\<lambda>_ _. None) (\<lambda>_. 100) s = Some (processed, s') \<and>
        bp_inv sample_constants s' \<and> advances sample_l1 (bp_ledger s'))"
proof -
  let ?c = "block_context_new sample_open SrcLive"
  define s where "s = snd (bp_add_impl ?c 5
    (block_processor_new (bp_config_new (lc_work sample_constants)) sample_l1 (unchecked_new 10 False)))"
  have new: "bp_inv sample_constants (block_processor_new (bp_config_new (lc_work sample_constants)) sample_l1 (unchecked_new 10 False))"
    by (rule bp_inv_new [OF sample_l1_tables(1) unchecked_inv_new])
  have s: "bp_inv sample_constants s" "bp_ledger s = sample_l1" "bp_unchecked s = unchecked_new 10 False"
    "fq_contents (bp_queue s) = (\<lambda>k. if k = (SrcLive, 5) then [?c] else [])"
    unfolding s_def using bp_add_impl_spec(1,3) [OF new, of ?c 5]
    by (auto simp: bp_add_impl_def case_prod_unfold block_processor_new_def block_context_new_def bp_config_new_def
        bp_max_size_def Let_def fun_eq_iff)
  have good: "good_blocks sample_verify sample_constants (\<lambda>_ _. None) (\<lambda>_. 100) 0 batch (bp_ledger s, bp_unchecked s)"
    if nb: "bp_next_batch 256 (bp_queue s) = Some (batch, q)" for batch q
  proof -
    have inv: "fq_inv (bp_queue s)" "origins_ok (bp_queue s)"
      using s(1) by (simp_all add: bp_inv_def)
    obtain xs where xs: "batch = map snd xs"
        "\<And>k. fq_contents (bp_queue s) k = map snd (filter (\<lambda>x. fst x = k) xs) @ fq_contents q k"
      using nb bp_next_batch_fair [OF inv, of 256] fq_next_batch_spec [OF inv(1), of 256]
      by (auto simp del: bp_next_batch.simps)
    have "fst x = (SrcLive, 5)" if "x \<in> set xs" for x
      using xs(2) [of "fst x"] s(4) that by (auto simp: filter_empty_conv split: if_splits)
    then have "filter (\<lambda>x. fst x = (SrcLive, 5)) xs = xs"
      by (simp add: filter_id_conv)
    then have "map snd xs @ fq_contents q (SrcLive, 5) = [?c]"
      using xs(2) [of "(SrcLive, 5)"] s(4) by simp
    then have "batch = [] \<or> batch = [?c]"
      unfolding xs(1) by (cases "map snd xs") simp_all
    then show ?thesis
      using sample_open_regular(2) s(2)
      by (auto simp: renew_def block_context_new_def split: option.splits)
  qed
  have env: "env_ok sample_constants (\<lambda>_ _. None)" and room: "room_for_ids 256 (bp_unchecked s)"
    by (simp_all add: env_ok_def room_for_ids_def s(3) unchecked_new_def entries_new_def)
  obtain processed s' where
    "process_batch sample_verify sample_constants (\<lambda>_ _. None) (\<lambda>_. 100) s = Some (processed, s')"
    "bp_inv sample_constants s'" "advances sample_l1 (bp_ledger s')"
    by (rule exE [OF process_batch_safe [OF s(1) env room]], rule good, assumption) (use s(2) in auto)
  with s_def show ?thesis
    by (intro exI [of _ s] exI [of _ processed] exI [of _ s'] conjI)
qed



text \<open>
  C11: a block that arrives before its predecessor is not lost: it waits in the unchecked map, and
  when the predecessor is inserted, the next round of the map puts it back into the queue of the
  processor, provided the queue has room for the blocks that the map holds.
\<close>

theorem early_block_is_requeued:
  assumes "bp_inv c s" and "ec_next_id (um_entries (bp_unchecked s)) \<noteq> - 1"
    and "\<not> um_disable_delete (bp_unchecked s)" and "0 < um_max_unchecked_blocks (bp_unchecked s)"
    and "unchecked_find (bp_unchecked s) (previous (bc_block ctx), hash (bc_block ctx)) = None"
    and "validate_entry_block (bpc_work_thresholds (bp_config s)) (bc_block ctx)"
    and "process verify c now (bp_ledger s) (bc_block ctx) = Some (Inl GapPrevious)"
    and "good_step verify c now' (bp_ledger s) (bc_block pre)" and "hash (bc_block pre) = previous (bc_block ctx)"
    and "length (fq_contents (bp_queue s) (SrcUnchecked, LOOPBACK)) + entries_len (um_entries (bp_unchecked s))
      < bp_max_size (bp_config s) (SrcUnchecked, LOOPBACK)"
  shows "\<exists>u1 pre' l2 u2 s'. process_one verify c now ctx (bp_ledger s, bp_unchecked s) = Some (GapPrevious, ctx, bp_ledger s, u1) \<and>
    process_one verify c now' pre (bp_ledger s, u1) = Some (Progress, pre', l2, u2) \<and>
    unchecked_round (s\<lparr>bp_ledger := l2, bp_unchecked := u2\<rparr>) = Some s' \<and> bp_inv c s' \<and>
    block_context_new (bc_block ctx) SrcUnchecked \<in> set (fq_contents (bp_queue s') (SrcUnchecked, LOOPBACK)) \<and>
    unchecked_find (bp_unchecked s') (previous (bc_block ctx), hash (bc_block ctx)) = None"
proof -
  let ?b = "bc_block ctx" and ?info = "\<lparr>ui_block = bc_block ctx, ui_modified = now\<rparr>" and ?l = "bp_ledger s"
  let ?u1 = "unchecked_put (previous ?b) ?info (bp_unchecked s)"
  have inv: "unchecked_inv (bp_unchecked s)" and ok: "ledger_ok c ?l"
    using assms(1) by (simp_all add: bp_inv_def)
  have gap: "process_one verify c now ctx (?l, bp_unchecked s) = Some (GapPrevious, ctx, ?l, ?u1)"
    using assms(7) by (simp add: process_one_def Let_def)
  obtain sb l2 where "process verify c now' ?l (bc_block pre) = Some (Inr (sb, l2))"
    by (rule process_chain_inv [OF assms(8) ledger_okD(1) [OF ok]])
  then obtain pre' u2 where prog: "process_one verify c now' pre (?l, ?u1) = Some (Progress, pre', l2, u2)"
    by (simp add: process_one_def Let_def)
  have l2: "ledger_ok c l2"
    using process_one_spec [OF ok assms(8), of ?u1] prog by auto
  note u2 = process_one_progress [OF prog]
  have put: "unchecked_inv ?u1" "unchecked_find ?u1 (previous ?b, hash ?b) = Some ?info"
    using unchecked_put_spec(1,2) [OF inv assms(2), of "previous ?b" ?info] assms(4,5) by simp_all
  let ?s = "s\<lparr>bp_ledger := l2, bp_unchecked := u2\<rparr>"
  have find: "unchecked_find u2 = unchecked_find ?u1"
    by (simp add: unchecked_find_def u2(1) fun_eq_iff)
  have "bp_inv c ?s"
    using assms(1) l2 put(1) u2 by (simp add: bp_inv_def unchecked_inv_def)
  from unchecked_round_delivers [OF this, of "previous ?b" "hash ?b" ?info] put(2) u2(1-3) find assms(3,6,9,10)
    unchecked_put_length [OF inv assms(2), of "previous ?b" ?info]
  show ?thesis
    using gap prog by simp
qed

theorem early_block_is_requeued_witness:
  "\<exists>u1 pre' l2 u2 s'.
     process_one sample_verify sample_constants 100 (block_context_new (sample_state 7 2 (- 12) 8 6) SrcLive)
       (sample_l0, unchecked_new 10 False)
       = Some (GapPrevious, block_context_new (sample_state 7 2 (- 12) 8 6) SrcLive, sample_l0, u1) \<and>
     process_one sample_verify sample_constants 100 (block_context_new sample_send SrcLive) (sample_l0, u1)
       = Some (Progress, pre', l2, u2) \<and>
     unchecked_round (block_processor_new (bp_config_new (lc_work sample_constants)) l2 u2) = Some s' \<and>
     block_context_new (sample_state 7 2 (- 12) 8 6) SrcUnchecked \<in> set (fq_contents (bp_queue s') (SrcUnchecked, LOOPBACK))"
proof -
  let ?s = "block_processor_new (bp_config_new (lc_work sample_constants)) sample_l0 (unchecked_new 10 False)"
  let ?ctx = "block_context_new (sample_state 7 2 (- 12) 8 6) SrcLive"
  have inv: "bp_inv sample_constants ?s"
    by (rule bp_inv_new [OF sample_l0_ok unchecked_inv_new])
  have gap: "process sample_verify sample_constants 100 (bp_ledger ?s) (bc_block ?ctx) = Some (Inl GapPrevious)"
    by (simp add: sample_early_gap block_processor_new_def block_context_new_def)
  have good: "good_step sample_verify sample_constants 100 (bp_ledger ?s) (bc_block (block_context_new sample_send SrcLive))"
    using sample_send_good by (simp add: block_processor_new_def block_context_new_def)
  have work: "validate_entry_block (bpc_work_thresholds (bp_config ?s)) (bc_block ?ctx)"
    by (simp add: block_processor_new_def block_context_new_def bp_config_new_def validate_entry_block_def
        difficulty_block_def sample_constants_def publish_dev_def stub_difficulty_def sample_state_def block_base_defs)
  have empty: "ec_next_id (um_entries (bp_unchecked ?s)) \<noteq> - 1" "\<not> um_disable_delete (bp_unchecked ?s)"
    "0 < um_max_unchecked_blocks (bp_unchecked ?s)" "unchecked_find (bp_unchecked ?s) k = None"
    "length (fq_contents (bp_queue ?s) (SrcUnchecked, LOOPBACK)) + entries_len (um_entries (bp_unchecked ?s))
      < bp_max_size (bp_config ?s) (SrcUnchecked, LOOPBACK)" for k
    by (simp_all add: block_processor_new_def unchecked_new_def entries_new_def unchecked_find_def entries_find_def
        entries_len_def fcard.rep_eq bp_max_size_def bp_config_new_def)
  have "hash (bc_block (block_context_new sample_send SrcLive)) = previous (bc_block ?ctx)"
    by (simp add: block_context_new_def sample_defs block_base_defs)
  from early_block_is_requeued [OF inv empty(1-4) work gap good this empty(5)] show ?thesis
    by (auto simp: block_processor_new_def block_context_new_def)
qed

section \<open>Encodings\<close>

text \<open>
  C20: a saved block that the ledger has written is read back with all the data that its
  encoding keeps: \<open>normalise\<close> is exactly what the round trip does, whatever follows the
  record in the stream.
\<close>

theorem saved_block_serialize_deserialize:
  assumes "block_hash_ok blake (svb_block b)"
  shows "saved_block_deserialize blake (serialize_with_sideband b @ rest) = Inr (normalise b, rest)"
  using assms by (rule saved_block_round_trip)

theorem saved_block_serialize_deserialize_witness:
  "let b = \<lparr>svb_block = LegacyChange \<lparr>cb_work = 7, cb_signature = 9,
                cb_hashables = \<lparr>ch_previous = 3, ch_representative = 4\<rparr>, cb_hash = 5\<rparr>,
             svb_sideband = \<lparr>sd_height = 2, sd_timestamp = 100, sd_successor = 0, sd_account = 1,
                sd_balance = 10, sd_details = block_details_new Epoch0 False False False,
                sd_source_epoch = Epoch0\<rparr>\<rparr>
   in saved_block_deserialize (\<lambda>_. 5) (serialize_with_sideband b @ [1, 2]) = Inr (b, [1, 2])"
  using saved_block_serialize_deserialize
    [of "\<lambda>_. 5" "\<lparr>svb_block = LegacyChange \<lparr>cb_work = 7, cb_signature = 9,
        cb_hashables = \<lparr>ch_previous = 3, ch_representative = 4\<rparr>, cb_hash = 5\<rparr>,
      svb_sideband = \<lparr>sd_height = 2, sd_timestamp = 100, sd_successor = 0, sd_account = 1,
        sd_balance = 10, sd_details = block_details_new Epoch0 False False False,
        sd_source_epoch = Epoch0\<rparr>\<rparr>" "[1, 2]"]
  by (simp add: block_hash_ok_def block_base_defs change_hashables_hash_def normalise_def fill_sideband_def)

end
